(* ===== verification/Go_Prelude.thy ===== *)
theory Go_Prelude
  imports Main "HOL-Library.Monad_Syntax" "HOL-Library.Sublist"
begin

text \<open>
  Shared vocabulary of the development: how Go's slices and their run-time checks are
  modelled, and the list lemmas the components use.

  A Go expression that can panic (an index or a slice expression out of range) is a value of an
  option type; \<open>None\<close> is the panic.  A handler that contains such an expression is
  written in the option monad, so that a panic anywhere in it is \<open>None\<close> for the whole handler.
  Go's \<open>int\<close> is modelled by the unbounded \<open>int\<close>; terms, log indices and sequence numbers
  only grow by one per operation, so the 64-bit range is not reached.
\<close>

section \<open>Slices\<close>

text \<open>\<open>xs[i]\<close> with Go's bounds check.\<close>

definition idx :: "'a list \<Rightarrow> int \<Rightarrow> 'a option" where
  "idx xs i = (if 0 \<le> i \<and> i < int (length xs) then Some (xs ! nat i) else None)"

text \<open>\<open>xs[i] = v\<close> with Go's bounds check.\<close>

definition set_idx :: "'a list \<Rightarrow> int \<Rightarrow> 'a \<Rightarrow> 'a list option" where
  "set_idx xs i v = (if 0 \<le> i \<and> i < int (length xs) then Some (xs[nat i := v]) else None)"

text \<open>\<open>xs[i:]\<close> and \<open>xs[:i]\<close>.  Go admits an upper bound up to the capacity; the code only
  uses bounds up to the length, and a bound past the length is a panic here.\<close>

definition slice_from :: "'a list \<Rightarrow> int \<Rightarrow> 'a list option" where
  "slice_from xs i = (if 0 \<le> i \<and> i \<le> int (length xs) then Some (drop (nat i) xs) else None)"

definition slice_to :: "'a list \<Rightarrow> int \<Rightarrow> 'a list option" where
  "slice_to xs i = (if 0 \<le> i \<and> i \<le> int (length xs) then Some (take (nat i) xs) else None)"

named_theorems go_defs "definitions of the slice operations"

declare idx_def [go_defs] set_idx_def [go_defs] slice_from_def [go_defs] slice_to_def [go_defs]

lemma idx_Some_iff: "idx xs i = Some x \<longleftrightarrow> 0 \<le> i \<and> i < int (length xs) \<and> x = xs ! nat i"
  by (auto simp: idx_def)

lemma idx_nth [simp]: "i < length xs \<Longrightarrow> idx xs (int i) = Some (xs ! i)"
  by (simp add: idx_def)

lemma idx_0 [simp]: "idx (x # xs) 0 = Some x"
  by (simp add: idx_def)

lemma idx_last [simp]: "xs \<noteq> [] \<Longrightarrow> idx xs (int (length xs) - 1) = Some (last xs)"
  by (auto simp: idx_def last_conv_nth nat_diff_distrib simp flip: length_greater_0_conv)

lemma set_idx_length: "set_idx xs i v = Some ys \<Longrightarrow> length ys = length xs"
  by (auto simp: set_idx_def split: if_splits)

section \<open>Prefixes\<close>

lemma prefix_takeI [intro, simp]: "prefix (take n xs) xs"
  by (rule take_is_prefix)

lemma take_prefix_mono: "prefix xs ys \<Longrightarrow> k \<le> length xs \<Longrightarrow> take k xs = take k ys"
  by (auto simp: prefix_def)

lemma prefix_nth: "prefix xs ys \<Longrightarrow> i < length xs \<Longrightarrow> xs ! i = ys ! i"
  by (auto simp: prefix_def nth_append)

lemma prefix_same_take: "prefix xs zs \<Longrightarrow> xs = take (length xs) zs"
  by (auto simp: prefix_def)

lemma prefix_comparable: "prefix xs zs \<Longrightarrow> prefix ys zs \<Longrightarrow> length xs \<le> length ys \<Longrightarrow> prefix xs ys"
  by (rule prefix_length_prefix)

lemma prefix_take_mono: "j \<le> k \<Longrightarrow> prefix (take k xs) ys \<Longrightarrow> prefix (take j xs) ys"
  by (metis min.absorb1 prefix_order.trans take_is_prefix take_take)

lemma take_eq_take_mono: "take k xs = take k ys \<Longrightarrow> j \<le> k \<Longrightarrow> take j xs = take j ys"
  by (metis min.absorb1 take_take)

lemma take_eq_nth: "take k xs = take k ys \<Longrightarrow> i < k \<Longrightarrow> xs ! i = ys ! i"
  by (metis nth_take)

section \<open>First positions and bounded collection\<close>

text \<open>The position of the first element with a property; the length of the list when there is none.\<close>

definition firstPos :: "('a \<Rightarrow> bool) \<Rightarrow> 'a list \<Rightarrow> nat" where
  "firstPos P xs = length (takeWhile (\<lambda>x. \<not> P x) xs)"

lemma firstPos_hit: "x \<in> set xs \<Longrightarrow> P x \<Longrightarrow> firstPos P xs < length xs \<and> P (xs ! firstPos P xs)"
  unfolding firstPos_def by (induction xs) auto

lemma firstPos_before: "i < firstPos P xs \<Longrightarrow> \<not> P (xs ! i)"
  unfolding firstPos_def using nth_length_takeWhile set_takeWhileD
  by (metis nth_mem takeWhile_nth)

lemma firstPos_le: "i < length xs \<Longrightarrow> P (xs ! i) \<Longrightarrow> firstPos P xs \<le> i"
  using firstPos_before by (metis not_le)

lemma firstPos_take: "x \<in> set (take i xs) \<Longrightarrow> P x \<Longrightarrow> firstPos P xs < i"
proof (induction xs arbitrary: i)
  case (Cons a xs)
  then show ?case by (cases i) (auto simp: firstPos_def)
qed simp

lemma firstPos_eqI: "i < length xs \<Longrightarrow> P (xs ! i) \<Longrightarrow> (\<And>j. j < i \<Longrightarrow> \<not> P (xs ! j)) \<Longrightarrow> firstPos P xs = i"
  by (metis firstPos_hit firstPos_le le_less_linear nth_mem order_antisym)

text \<open>The values a partial function has below a bound, in order.\<close>

primrec collect :: "(nat \<Rightarrow> 'a option) \<Rightarrow> nat \<Rightarrow> 'a list" where
  "collect f 0 = []"
| "collect f (Suc n) = collect f n @ (case f n of None \<Rightarrow> [] | Some x \<Rightarrow> [x])"

lemma set_collect: "set (collect f n) = {x. \<exists>i<n. f i = Some x}"
  by (induction n) (auto simp: less_Suc_eq split: option.splits)

lemma sorted_wrt_collect:
  "(\<And>i j a b. i < j \<Longrightarrow> j < n \<Longrightarrow> f i = Some a \<Longrightarrow> f j = Some b \<Longrightarrow> R a b) \<Longrightarrow> sorted_wrt R (collect f n)"
  by (induction n) (auto simp: sorted_wrt_append set_collect less_Suc_eq split: option.splits)

lemma distinct_collect:
  "(\<And>i j x. i < j \<Longrightarrow> j < n \<Longrightarrow> f i = Some x \<Longrightarrow> f j \<noteq> Some x) \<Longrightarrow> distinct (collect f n)"
  by (induction n) (auto simp: set_collect less_Suc_eq split: option.splits)

section \<open>Loops\<close>

text \<open>A loop whose body halts with a result, panics, or goes on with a new state.  The outer \<open>None\<close> is a loop that runs for
  ever, the inner one a panic.\<close>

datatype ('s, 'r) ctl = Halt 'r | Crash | Go 's

partial_function (option) runLoop :: "('s \<Rightarrow> ('s, 'r) ctl) \<Rightarrow> 's \<Rightarrow> 'r option option" where
  "runLoop body s =
    (case body s of
       Halt r \<Rightarrow> Some (Some r)
     | Crash \<Rightarrow> Some None
     | Go s' \<Rightarrow> runLoop body s')"

declare runLoop.simps [code]

text \<open>Total correctness by an invariant and a well-founded relation.\<close>

lemma runLoop_total:
  assumes "wf R" "I s"
    and step: "\<And>s. I s \<Longrightarrow> (case body s of Halt r \<Rightarrow> Q r | Crash \<Rightarrow> False | Go s' \<Rightarrow> I s' \<and> (s', s) \<in> R)"
  shows "\<exists>r. runLoop body s = Some (Some r) \<and> Q r"
  using assms(1,2)
proof (induction s rule: wf_induct_rule)
  case (less s)
  show ?case
  proof (cases "body s")
    case (Halt r)
    then show ?thesis using step[OF less.prems] by (simp add: runLoop.simps)
  next
    case Crash
    then show ?thesis using step[OF less.prems] by simp
  next
    case (Go s')
    then have "I s'" "(s', s) \<in> R" using step[OF less.prems] by auto
    then show ?thesis using less.IH Go by (simp add: runLoop.simps)
  qed
qed

text \<open>A loop that never ends.\<close>

lemma runLoop_diverges:
  assumes "I s" and step: "\<And>s. I s \<Longrightarrow> \<exists>s'. body s = Go s' \<and> I s'"
  shows "runLoop body s = None"
proof -
  have "body' = body \<longrightarrow> \<not> I s" if r: "runLoop body' s = Some r" for body' s r
    by (rule runLoop.raw_induct[where P = "\<lambda>b s r. b = body \<longrightarrow> \<not> I s", OF _ r]) (auto dest: step split: ctl.splits)
  then show ?thesis using assms(1) by (cases "runLoop body s") auto
qed

text \<open>A panic inside a computation of the body.\<close>

definition orCrash :: "('s, 'r) ctl option \<Rightarrow> ('s, 'r) ctl" where
  "orCrash x = (case x of None \<Rightarrow> Crash | Some c \<Rightarrow> c)"

lemma orCrash_simps [simp]: "orCrash (Some c) = c" "orCrash None = Crash"
  by (simp_all add: orCrash_def)

section \<open>Goroutines\<close>

text \<open>What a step of a goroutine does at a program point: it cannot run (a taken mutex, a condition variable, an empty
  channel), it panics, or it runs.\<close>

datatype 'a outcome = Blocked | Panics | Runs 'a

text \<open>An infinite schedule is fair when each of the given events comes up again and again.\<close>

definition fair :: "'e set \<Rightarrow> (nat \<Rightarrow> 'e) \<Rightarrow> bool" where
  "fair E f \<longleftrightarrow> (\<forall>e \<in> E. \<forall>n. \<exists>m \<ge> n. f m = e)"

lemma fair_shift: "fair E f \<Longrightarrow> fair E (\<lambda>i. f (k + i))"
  unfolding fair_def by (metis le_Suc_ex nat_add_left_cancel_le add_leD1)

lemma map_upt_split: "map f [0..<k + n] = map f [0..<k] @ map (\<lambda>i. f (k + i)) [0..<n]"
  by (induction n) auto

lemma fold_idle: "(\<And>i. i < n \<Longrightarrow> nxt (f i) s = s) \<Longrightarrow> fold nxt (map f [0..<n]) s = s"
  by (induction n) auto

text \<open>A system in which every event that changes the state goes down in a well-founded relation, and in which some of
  the events always does, ends under every fair schedule.\<close>

lemma fair_ends:
  assumes "wf R" "I s" "fair E f"
    and step: "\<And>s e. I s \<Longrightarrow> \<not> fin s \<Longrightarrow> I (nxt e s) \<and> (nxt e s = s \<or> (nxt e s, s) \<in> R)"
    and progress: "\<And>s. I s \<Longrightarrow> \<not> fin s \<Longrightarrow> \<exists>e \<in> E. nxt e s \<noteq> s"
  shows "\<exists>n. fin (fold nxt (map f [0..<n]) s)"
  using assms(1-3)
proof (induction s arbitrary: f rule: wf_induct_rule)
  case (less s)
  show ?case
  proof (cases "fin s")
    case True
    then show ?thesis by (intro exI[of _ 0]) simp
  next
    case False
    obtain e where "e \<in> E" "nxt e s \<noteq> s" using progress[OF less.prems(1) False] by blast
    then have "\<exists>m. nxt (f m) s \<noteq> s" using less.prems(2) unfolding fair_def by metis
    then obtain m where m: "nxt (f m) s \<noteq> s" "\<And>i. i < m \<Longrightarrow> nxt (f i) s = s"
      using exists_least_iff[of "\<lambda>m. nxt (f m) s \<noteq> s"] by blast
    have d: "I (nxt (f m) s)" "(nxt (f m) s, s) \<in> R" using step[OF less.prems(1) False, of "f m"] m(1) by simp_all
    obtain n where n: "fin (fold nxt (map (\<lambda>i. f (Suc m + i)) [0..<n]) (nxt (f m) s))"
      using less.IH[OF d(2,1) fair_shift[OF less.prems(2)]] by blast
    have "map f [0..<Suc m + n] = map f [0..<m] @ f m # map (\<lambda>i. f (Suc m + i)) [0..<n]"
      unfolding map_upt_split[of f "Suc m"] by simp
    then show ?thesis using n fold_idle[of m nxt f s, OF m(2)] by (intro exI[of _ "Suc m + n"]) simp
  qed
qed

end
