(* ===== verification/Raft_State.thy ===== *)
theory Raft_State
  imports Go_Prelude
begin

text \<open>
  The state of one Raft peer (\<open>raft/raft.go\<close>, \<open>raft/raftStruct.go\<close>), its stable storage
  (\<open>raft/persister.go\<close>), and the operations that read or write them under the peer's lock:
  \<open>persist\<close>, \<open>readPersist\<close>, \<open>AddCurrentTerm\<close>, \<open>resetRaftIndex\<close>, \<open>Make\<close>, \<open>Snapshot\<close>,
  \<open>Start\<close>, \<open>GetState\<close>, \<open>Kill\<close>.

  Modelling choices.  A command (\<open>interface{}\<close>) is an element of \<open>'c option\<close>, \<open>None\<close> being
  Go's \<open>nil\<close>.  A gob byte buffer is the list of the values encoded into it, in order: an
  \<open>Encode\<close> appends one value, a \<open>Decode\<close> takes the first one and fails if there is none or if it
  has another type; an empty buffer is the empty list.  The snapshot bytes are produced by the
  service and are opaque to Raft: a list over the parameter \<open>'s\<close>.  Debug output is left out.
  The clock reading and the random number that \<open>SetElectionTime\<close> takes are an argument of every
  operation that calls it (\<open>timer\<close>, indexed by the call's position in the operation).
\<close>

section \<open>Messages and log entries (raftStruct.go, raft.go)\<close>

record 'c LogEntry =
  leTerm :: int
  leIndex :: int
  leData :: "'c option"

datatype ServerState = UnknownState | Leader | Follower | Candidate

datatype MsgType = UnKnowMgsType | HeartBeatMsgType | LogMsgType

record HeartBeatArgs =
  hbTerm :: int
  hbCandidateId :: int

record HeartBeatReply =
  hbrTerm :: int

record 'c SendLogArgs =
  slTerm :: int
  slLeaderId :: int
  slPrevLogIndex :: int
  slPrevLogTerm :: int
  slEntries :: "'c LogEntry list"
  slLeaderCommit :: int
  slMsgType :: MsgType
  slShouldSendSnapShot :: bool

record SendLogReply =
  slrTerm :: int
  slrSuccess :: bool
  slrSavedLogIndex :: int

record RequestVoteArgs =
  rvTerm :: int
  rvCandidateId :: int
  rvLastLogIndex :: int
  rvLastLogTerm :: int

record RequestVoteReply =
  rvrTerm :: int
  rvrVoteGranted :: bool

record 's RequestSnapShotArgs =
  rsTerm :: int
  rsLeaderId :: int
  rsLastIncludedIndex :: int
  rsLastIncludedTerm :: int
  rsOffset :: int
  rsData :: "'s list"
  rsDone :: bool

record RequestSnapShotReply =
  rsrTerm :: int

record ('c, 's) ApplyMsg =
  amCommandValid :: bool
  amCommand :: "'c option"
  amCommandIndex :: int
  amSnapshotValid :: bool
  amSnapshot :: "'s list"
  amSnapshotTerm :: int
  amSnapshotIndex :: int

section \<open>Stable storage (persister.go)\<close>

text \<open>The values \<open>persist\<close> encodes: two integers and the log.\<close>

datatype 'c gob = GInt int | GLog "'c LogEntry list"

record ('c, 's) Persister =
  psRaftstate :: "'c gob list"
  psSnapshot :: "'s list"

definition MakePersister :: "('c, 's) Persister" where
  "MakePersister = \<lparr>psRaftstate = [], psSnapshot = []\<rparr>"

definition Persister_Copy :: "('c, 's) Persister \<Rightarrow> ('c, 's) Persister" where
  "Persister_Copy ps =
     MakePersister\<lparr>psRaftstate := psRaftstate ps, psSnapshot := psSnapshot ps\<rparr>"

definition ReadRaftState :: "('c, 's) Persister \<Rightarrow> 'c gob list" where
  "ReadRaftState ps = psRaftstate ps"

definition ReadSnapshot :: "('c, 's) Persister \<Rightarrow> 's list" where
  "ReadSnapshot ps = psSnapshot ps"

definition Save :: "'c gob list \<Rightarrow> 's list \<Rightarrow> ('c, 's) Persister \<Rightarrow> ('c, 's) Persister" where
  "Save raftstate snapshot ps = ps\<lparr>psRaftstate := raftstate, psSnapshot := snapshot\<rparr>"

text \<open>The byte length of a buffer depends on gob's wire format; it is a parameter.\<close>

definition RaftStateSize :: "('c gob list \<Rightarrow> int) \<Rightarrow> ('c, 's) Persister \<Rightarrow> int" where
  "RaftStateSize bytesOf ps = bytesOf (psRaftstate ps)"

definition SnapshotSize :: "('s list \<Rightarrow> int) \<Rightarrow> ('c, 's) Persister \<Rightarrow> int" where
  "SnapshotSize bytesOf ps = bytesOf (psSnapshot ps)"

section \<open>The peer\<close>

record ('c, 's) Raft =
  npeers :: nat  \<comment> \<open>\<open>len(rf.peers)\<close>\<close>
  persister :: "('c, 's) Persister"
  me :: nat
  dead :: int
  state :: ServerState
  startElectionTime :: int
  electionInterval :: int
  currentTerm :: int
  voteFor :: int
  rlog :: "'c LogEntry list"
  snapshot :: "'s list"
  commitIndex :: int
  lastApplied :: int
  nextIndex :: "int list"
  matchIndex :: "int list"

text \<open>What an operation leaves to other goroutines: a signal on \<open>applyCond\<close>, the goroutine that
  delivers an installed snapshot (its index and term), a round of \<open>sendLogTicketCore\<close>.\<close>

datatype effect = SignalApply | SpawnSnapshot int int | SpawnSendLog

text \<open>\<open>(time.Now(), rand.Intn(200))\<close> as seen by the successive calls of \<open>SetElectionTime\<close>.\<close>

type_synonym timer = "nat \<Rightarrow> int \<times> int"

definition SetElectionTime :: "int \<times> int \<Rightarrow> int \<Rightarrow> ('c, 's) Raft \<Rightarrow> ('c, 's) Raft" where
  "SetElectionTime tm interval rf =
     rf\<lparr>startElectionTime := fst tm, electionInterval := snd tm + 150 + interval\<rparr>"

definition GetState :: "('c, 's) Raft \<Rightarrow> int \<times> bool" where
  "GetState rf = (currentTerm rf, state rf = Leader)"

definition persist :: "('c, 's) Raft \<Rightarrow> ('c, 's) Raft" where
  "persist rf =
     rf\<lparr>persister := Save [GInt (currentTerm rf), GInt (voteFor rf), GLog (rlog rf)]
                       (snapshot rf) (persister rf)\<rparr>"

definition GetLastLog :: "('c, 's) Raft \<Rightarrow> 'c LogEntry option" where
  "GetLastLog rf = idx (rlog rf) (int (length (rlog rf)) - 1)"

definition GetFirstLog :: "('c, 's) Raft \<Rightarrow> 'c LogEntry option" where
  "GetFirstLog rf = idx (rlog rf) 0"

text \<open>The three \<open>Decode\<close> calls of \<open>readPersist\<close>.\<close>

fun decodeState :: "'c gob list \<Rightarrow> (int \<times> int \<times> 'c LogEntry list) option" where
  "decodeState (GInt t # GInt v # GLog l # rest) = Some (t, v, l)"
| "decodeState _ = None"

definition readPersist :: "'c gob list \<Rightarrow> ('c, 's) Raft \<Rightarrow> ('c, 's) Raft option" where
  "readPersist data rf =
     (if data = [] then Some rf
      else case decodeState data of
        None \<Rightarrow> Some rf
      | Some (t, v, l) \<Rightarrow>
          let rf1 = rf\<lparr>currentTerm := t, voteFor := v, rlog := l\<rparr>
          in do {
            f \<leftarrow> GetFirstLog rf1;
            Some (rf1\<lparr>lastApplied := leIndex f, commitIndex := leIndex f\<rparr>)
          })"

text \<open>A no-op unless the term grows.\<close>

definition AddCurrentTerm :: "int \<times> int \<Rightarrow> int \<Rightarrow> ('c, 's) Raft \<Rightarrow> ('c, 's) Raft" where
  "AddCurrentTerm tm term rf =
     (if term \<le> currentTerm rf then rf
      else persist (SetElectionTime tm 0
             (rf\<lparr>currentTerm := term, state := Follower, voteFor := -1\<rparr>)))"

text \<open>The loop of \<open>resetRaftIndex\<close> writes every slot of \<open>nextIndex\<close> and \<open>matchIndex\<close>; both have
  one slot per peer.\<close>

definition resetRaftIndex :: "('c, 's) Raft \<Rightarrow> ('c, 's) Raft option" where
  "resetRaftIndex rf = (if nextIndex rf = [] then Some rf else do {
     ni \<leftarrow> (if length (rlog rf) = 1
            then map_option (\<lambda>e. leIndex e + 1) (idx (rlog rf) 0)
            else map_option (\<lambda>e. leIndex e + 1) (idx (rlog rf) (int (length (rlog rf)) - 1)));
     lst \<leftarrow> GetLastLog rf;
     Some (rf\<lparr>nextIndex := map (\<lambda>_. ni) (nextIndex rf),
              matchIndex := map (\<lambda>i. if i = me rf then leIndex lst else 0)
                              [0..<length (nextIndex rf)]\<rparr>)
   })"

definition dummyLog :: "'c LogEntry" where
  "dummyLog = \<lparr>leTerm = -1, leIndex = 0, leData = None\<rparr>"

definition Make :: "int \<Rightarrow> nat \<Rightarrow> nat \<Rightarrow> ('c, 's) Persister \<Rightarrow> ('c, 's) Raft option" where
  "Make now peers self ps = do {
     rf \<leftarrow> readPersist (ReadRaftState ps)
       \<lparr>npeers = peers, persister = ps, me = self, dead = 0, state = Follower,
        startElectionTime = now, electionInterval = 0, currentTerm = 0, voteFor = -1,
        rlog = [dummyLog], snapshot = [], commitIndex = 0, lastApplied = 0,
        nextIndex = replicate peers 0, matchIndex = replicate peers 0\<rparr>;
     resetRaftIndex (rf\<lparr>snapshot := ReadSnapshot ps\<rparr>)
   }"

text \<open>\<open>Snapshot(index, snapshot)\<close>: the service has a snapshot through \<open>index\<close>.\<close>

definition Snapshot :: "int \<Rightarrow> 's list \<Rightarrow> ('c, 's) Raft \<Rightarrow> ('c, 's) Raft option" where
  "Snapshot index snap rf = do {
     firstLog \<leftarrow> GetFirstLog rf;
     lastLog \<leftarrow> GetLastLog rf;
     if index \<le> leIndex firstLog then Some rf
     else if index > leIndex lastLog then Some rf
     else do {
       e \<leftarrow> idx (rlog rf) (index - leIndex firstLog);
       rest \<leftarrow> slice_from (rlog rf) (index - leIndex firstLog + 1);
       Some (persist (rf\<lparr>
         rlog := \<lparr>leTerm = leTerm e, leIndex = leIndex e, leData = None\<rparr> # rest,
         snapshot := snap\<rparr>))
     }
   }"

definition Start :: "'c option \<Rightarrow> ('c, 's) Raft \<Rightarrow>
    (('c, 's) Raft \<times> (int \<times> int \<times> bool) \<times> effect list) option" where
  "Start command rf =
     (if state rf \<noteq> Leader then Some (rf, (0, currentTerm rf, False), [])
      else do {
        lst \<leftarrow> GetLastLog rf;
        let e = \<lparr>leTerm = currentTerm rf, leIndex = leIndex lst + 1, leData = command\<rparr>;
        mi \<leftarrow> set_idx (matchIndex rf) (int (me rf)) (leIndex e);
        Some (persist (rf\<lparr>rlog := rlog rf @ [e], matchIndex := mi\<rparr>),
              (leIndex e, leTerm e, True), [SpawnSendLog])
      })"

definition Kill :: "('c, 's) Raft \<Rightarrow> ('c, 's) Raft" where
  "Kill rf = rf\<lparr>dead := 1\<rparr>"

definition killed :: "('c, 's) Raft \<Rightarrow> bool" where
  "killed rf \<longleftrightarrow> dead rf = 1"

definition GetRaftStateSize :: "('c gob list \<Rightarrow> int) \<Rightarrow> ('c, 's) Raft \<Rightarrow> int" where
  "GetRaftStateSize bytesOf rf = RaftStateSize bytesOf (persister rf)"

section \<open>Frame equations\<close>

text \<open>What the timer and the stable-storage writes leave alone.\<close>

lemma SetElectionTime_sel [simp]:
  "npeers (SetElectionTime tm k rf) = npeers rf"
  "me (SetElectionTime tm k rf) = me rf"
  "dead (SetElectionTime tm k rf) = dead rf"
  "state (SetElectionTime tm k rf) = state rf"
  "currentTerm (SetElectionTime tm k rf) = currentTerm rf"
  "voteFor (SetElectionTime tm k rf) = voteFor rf"
  "rlog (SetElectionTime tm k rf) = rlog rf"
  "snapshot (SetElectionTime tm k rf) = snapshot rf"
  "commitIndex (SetElectionTime tm k rf) = commitIndex rf"
  "lastApplied (SetElectionTime tm k rf) = lastApplied rf"
  "nextIndex (SetElectionTime tm k rf) = nextIndex rf"
  "matchIndex (SetElectionTime tm k rf) = matchIndex rf"
  "persister (SetElectionTime tm k rf) = persister rf"
  by (simp_all add: SetElectionTime_def)

lemma persist_sel [simp]:
  "npeers (persist rf) = npeers rf"
  "me (persist rf) = me rf"
  "dead (persist rf) = dead rf"
  "state (persist rf) = state rf"
  "currentTerm (persist rf) = currentTerm rf"
  "voteFor (persist rf) = voteFor rf"
  "rlog (persist rf) = rlog rf"
  "snapshot (persist rf) = snapshot rf"
  "commitIndex (persist rf) = commitIndex rf"
  "lastApplied (persist rf) = lastApplied rf"
  "nextIndex (persist rf) = nextIndex rf"
  "matchIndex (persist rf) = matchIndex rf"
  by (simp_all add: persist_def)

end
