(* ===== verification/Raft_Rpc.thy ===== *)
theory Raft_Rpc
  imports Raft_State
begin

text \<open>
  The RPC handlers of one peer (\<open>raft/raft.go\<close>): \<open>RequestVote\<close>, \<open>RequestHeartBeat\<close>,
  \<open>RequestInstallSnapShot\<close> and \<open>RequestSendLog\<close>.  Each handler runs under the peer's lock, so
  it is one function from the peer and the arguments to the new peer, the reply and the effects
  on other goroutines; \<open>None\<close> is a panic.  Deferred functions run on every return path.
\<close>

section \<open>RequestVote\<close>

text \<open>The deferred function, for a granted vote.\<close>

definition grantVote :: "int \<times> int \<Rightarrow> ('c, 's) Raft \<Rightarrow> ('c, 's) Raft" where
  "grantVote tm rf = persist ((SetElectionTime tm 300 rf)\<lparr>state := Follower\<rparr>)"

definition RequestVote :: "timer \<Rightarrow> RequestVoteArgs \<Rightarrow> ('c, 's) Raft \<Rightarrow>
    (('c, 's) Raft \<times> RequestVoteReply) option" where
  "RequestVote tm args rf =
     (let granted = \<lparr>rvrTerm = currentTerm rf, rvrVoteGranted = True\<rparr>;
          refused = \<lparr>rvrTerm = currentTerm rf, rvrVoteGranted = False\<rparr>
      in
      if rvTerm args < currentTerm rf then Some (rf, refused)
      else
        let rf1 = (if rvTerm args > currentTerm rf
                   then AddCurrentTerm (tm 0) (rvTerm args) rf else rf)
        in
        if rvTerm args = currentTerm rf1 \<and> voteFor rf1 = rvCandidateId args
        then Some (grantVote (tm 1) (rf1\<lparr>voteFor := rvCandidateId args\<rparr>), granted)
        else if voteFor rf1 \<noteq> -1 then Some (rf1, refused)
        else do {
          (localLastIndex, localLastTerm) \<leftarrow>
            (if length (rlog rf1) \<noteq> 0
             then do { l \<leftarrow> GetLastLog rf1; Some (leIndex l, leTerm l) }
             else Some (-1, -1));
          if rvLastLogTerm args > localLastTerm \<or>
             (rvLastLogTerm args = localLastTerm \<and> rvLastLogIndex args \<ge> localLastIndex)
          then Some (grantVote (tm 1) (rf1\<lparr>voteFor := rvCandidateId args\<rparr>), granted)
          else Some (rf1, refused)
        })"

section \<open>RequestHeartBeat\<close>

definition RequestHeartBeat :: "timer \<Rightarrow> HeartBeatArgs \<Rightarrow> ('c, 's) Raft \<Rightarrow>
    ('c, 's) Raft \<times> HeartBeatReply" where
  "RequestHeartBeat tm args rf =
     (let reply = \<lparr>hbrTerm = currentTerm rf\<rparr>
      in
      if hbTerm args < currentTerm rf then (rf, reply)
      else
        let rf1 = (if hbTerm args = currentTerm rf \<and> state rf = Candidate
                   then rf\<lparr>state := Follower\<rparr> else rf)
        in
        if hbTerm args > currentTerm rf1
        then (AddCurrentTerm (tm 0) (hbTerm args) rf1, reply)
        else (SetElectionTime (tm 0) 200 rf1, reply))"

section \<open>RequestInstallSnapShot\<close>

text \<open>The body after the term checks; the effects name the goroutine that delivers the snapshot
  to the service.  The discard condition and the replace condition are the two tests of the
  source; the third path is its "should never reach" line.\<close>

definition installSnapShot :: "int \<times> int \<Rightarrow> 's RequestSnapShotArgs \<Rightarrow> ('c, 's) Raft \<Rightarrow>
    (('c, 's) Raft \<times> effect list) option" where
  "installSnapShot tm args rf = do {
     firstLog \<leftarrow> GetFirstLog rf;
     lastLog \<leftarrow> GetLastLog rf;
     discard \<leftarrow>
       (if rsLastIncludedIndex args \<le> leIndex firstLog then Some True
        else if rsLastIncludedIndex args \<le> leIndex lastLog
        then do {
          e \<leftarrow> idx (rlog rf) (rsLastIncludedIndex args - leIndex firstLog);
          Some (leTerm e = rsLastIncludedTerm args)
        }
        else Some False);
     if discard then Some (rf, [])
     else do {
       replace \<leftarrow>
         (if rsLastIncludedIndex args > leIndex lastLog then Some True
          else do {
            e \<leftarrow> idx (rlog rf) (rsLastIncludedIndex args - leIndex firstLog);
            Some (leTerm e \<noteq> rsLastIncludedTerm args)
          });
       if replace
       then Some (SetElectionTime tm 200
              (rf\<lparr>rlog := [\<lparr>leTerm = rsLastIncludedTerm args,
                            leIndex = rsLastIncludedIndex args, leData = None\<rparr>],
                  snapshot := rsData args\<rparr>),
            [SpawnSnapshot (rsLastIncludedIndex args) (rsLastIncludedTerm args)])
       else Some (rf, [])
     }
   }"

definition RequestInstallSnapShot :: "timer \<Rightarrow> 's RequestSnapShotArgs \<Rightarrow> ('c, 's) Raft \<Rightarrow>
    (('c, 's) Raft \<times> RequestSnapShotReply \<times> effect list) option" where
  "RequestInstallSnapShot tm args rf =
     (let reply = \<lparr>rsrTerm = currentTerm rf\<rparr>
      in
      if rsTerm args < currentTerm rf then Some (persist rf, reply, [])
      else
        let rf1 = (if rsTerm args > currentTerm rf
                   then AddCurrentTerm (tm 0) (rsTerm args) rf else rf);
            rf2 = (if state rf1 = Candidate then rf1\<lparr>state := Follower\<rparr> else rf1)
        in do {
          (rf3, effs) \<leftarrow> installSnapShot (tm 1) args rf2;
          Some (persist rf3, reply, effs)
        })"

section \<open>RequestSendLog\<close>

text \<open>The search loop for the first entry past the local first index: \<open>dropWhile\<close> when there is
  one, and no change when there is none.\<close>

fun dropThrough :: "int \<Rightarrow> 'c LogEntry list \<Rightarrow> 'c LogEntry list \<Rightarrow> 'c LogEntry list" where
  "dropThrough first whole [] = whole"
| "dropThrough first whole (e # es) =
     (if leIndex e > first then e # es else dropThrough first whole es)"

text \<open>The block that rewrites the arguments when the previous log index is below the local first
  index: \<open>Inl\<close> is the early return with success.\<close>

definition trimArgs :: "'c LogEntry \<Rightarrow> 'c SendLogArgs \<Rightarrow> (unit + 'c SendLogArgs) option" where
  "trimArgs firstLog args =
     (if slPrevLogIndex args < leIndex firstLog \<and> length (slEntries args) > 0
      then do {
        argsLastLogEntry \<leftarrow> idx (slEntries args) (int (length (slEntries args)) - 1);
        if leIndex argsLastLogEntry \<le> leIndex firstLog then Some (Inl ())
        else Some (Inr (args\<lparr>
               slEntries := dropThrough (leIndex firstLog) (slEntries args) (slEntries args),
               slPrevLogIndex := leIndex firstLog,
               slPrevLogTerm := leTerm firstLog\<rparr>))
      }
      else Some (Inr args))"

text \<open>Appending the entries: nothing is written when the last entry sent is already in the log.\<close>

definition appendEntries :: "'c SendLogArgs \<Rightarrow> ('c, 's) Raft \<Rightarrow> ('c, 's) Raft option" where
  "appendEntries args rf =
     (if length (slEntries args) > 0
      then do {
        firstLog \<leftarrow> GetFirstLog rf;
        lastLog \<leftarrow> GetLastLog rf;
        argsLastLog \<leftarrow> idx (slEntries args) (int (length (slEntries args)) - 1);
        present \<leftarrow>
          (if leIndex lastLog \<ge> leIndex argsLastLog
           then do {
             e \<leftarrow> idx (rlog rf) (leIndex argsLastLog - leIndex firstLog);
             Some (leTerm e = leTerm argsLastLog)
           }
           else Some False);
        if present then Some rf
        else do {
          kept \<leftarrow> slice_to (rlog rf) (slPrevLogIndex args - leIndex firstLog + 1);
          Some (rf\<lparr>rlog := kept @ slEntries args\<rparr>)
        }
      }
      else Some rf)"

text \<open>\<open>math.Min\<close> on float64 is exact for indices below 2^53.\<close>

definition followCommit :: "int \<Rightarrow> ('c, 's) Raft \<Rightarrow> (('c, 's) Raft \<times> effect list) option" where
  "followCommit leaderCommit rf =
     (if leaderCommit > commitIndex rf
      then do {
        lastLog \<leftarrow> GetLastLog rf;
        let newCommitIndex = min leaderCommit (leIndex lastLog);
        if newCommitIndex > commitIndex rf
        then Some (rf\<lparr>commitIndex := newCommitIndex\<rparr>, [SignalApply])
        else Some (rf, [])
      }
      else Some (rf, []))"

text \<open>The body after the term checks; the flag is \<open>reply.Success\<close>.\<close>

definition sendLogBody :: "'c SendLogArgs \<Rightarrow> ('c, 's) Raft \<Rightarrow>
    (('c, 's) Raft \<times> bool \<times> effect list) option" where
  "sendLogBody args0 rf = do {
     lastLog \<leftarrow> GetLastLog rf;
     if slPrevLogIndex args0 > leIndex lastLog then Some (rf, False, [])
     else do {
       firstLog \<leftarrow> GetFirstLog rf;
       trimmed \<leftarrow> trimArgs firstLog args0;
       case trimmed of
         Inl _ \<Rightarrow> Some (rf, True, [])
       | Inr args \<Rightarrow> do {
           mismatch \<leftarrow>
             (if slPrevLogIndex args > leIndex firstLog
              then do {
                e \<leftarrow> idx (rlog rf) (slPrevLogIndex args - leIndex firstLog);
                Some (leTerm e \<noteq> slPrevLogTerm args)
              }
              else Some False);
           if mismatch then Some (rf, False, [])
           else do {
             let rf1 = (if state rf = Candidate then rf\<lparr>state := Follower\<rparr> else rf);
             rf2 \<leftarrow> appendEntries args rf1;
             (rf3, effs) \<leftarrow> followCommit (slLeaderCommit args) (persist rf2);
             Some (rf3, True, effs)
           }
         }
     }
   }"

text \<open>The deferred function of \<open>RequestSendLog\<close>: the reply's term, and the timer.\<close>

definition sendLogDone :: "int \<times> int \<Rightarrow> 'c SendLogArgs \<Rightarrow> bool \<Rightarrow> ('c, 's) Raft \<Rightarrow>
    ('c, 's) Raft \<times> SendLogReply" where
  "sendLogDone tm args ok rf =
     (if slTerm args \<ge> currentTerm rf then SetElectionTime tm 200 rf else rf,
      \<lparr>slrTerm = currentTerm rf, slrSuccess = ok, slrSavedLogIndex = 0\<rparr>)"

definition RequestSendLog :: "timer \<Rightarrow> 'c SendLogArgs \<Rightarrow> ('c, 's) Raft \<Rightarrow>
    (('c, 's) Raft \<times> SendLogReply \<times> effect list) option" where
  "RequestSendLog tm args rf =
     (if slTerm args < currentTerm rf
      then (let (rf', reply) = sendLogDone (tm 1) args False rf in Some (rf', reply, []))
      else
        let rf1 = (if slTerm args > currentTerm rf
                   then AddCurrentTerm (tm 0) (slTerm args) rf else rf)
        in do {
          (rf2, ok, effs) \<leftarrow> sendLogBody args rf1;
          let (rf3, reply) = sendLogDone (tm 1) args ok rf2;
          Some (rf3, reply, effs)
        })"

end
