(* ===== verification/Raft_Leader.thy ===== *)
theory Raft_Leader
  imports Raft_State
begin

text \<open>
  The sending side of one peer (\<open>raft/raft.go\<close>): replication rounds (\<open>sendLogTicketCore\<close> and the
  goroutine that handles each reply), snapshot transfer (\<open>sendSnapShot\<close>), and elections
  (\<open>ticker\<close>).  A goroutine that issues an RPC runs in two critical sections, one before the call
  and one after; each is one function.  The values a goroutine keeps across the call (its
  arguments, \<open>recodeNextIndex\<close>, \<open>sendNextIndex\<close>, \<open>sendMatchIndex\<close>) are arguments of the second.
\<close>

section \<open>Advancing the commit index\<close>

text \<open>The counting loop over \<open>rf.matchIndex\<close>.\<close>

definition matchCount :: "int \<Rightarrow> int list \<Rightarrow> nat" where
  "matchCount beginIndex mi = length (filter (\<lambda>m. m \<ge> beginIndex) mi)"

text \<open>The loop over \<open>beginIndex\<close>, which \<open>sendSnapShot\<close> and \<open>sendLogTicketCore\<close> both contain.\<close>

function commitLoop :: "int \<Rightarrow> ('c, 's) Raft \<Rightarrow> effect list \<Rightarrow>
    (('c, 's) Raft \<times> effect list) option" where
  "commitLoop beginIndex rf effs =
     (case GetLastLog rf of
        None \<Rightarrow> None
      | Some lastLog \<Rightarrow>
          if beginIndex \<le> leIndex lastLog
          then
            if matchCount beginIndex (matchIndex rf) \<le> npeers rf div 2 then Some (rf, effs)
            else
              (case (if beginIndex > commitIndex rf
                     then do {
                       firstLog \<leftarrow> GetFirstLog rf;
                       e \<leftarrow> idx (rlog rf) (beginIndex - leIndex firstLog);
                       Some (currentTerm rf = leTerm e)
                     }
                     else Some False) of
                 None \<Rightarrow> None
               | Some True \<Rightarrow>
                   commitLoop (beginIndex + 1) (rf\<lparr>commitIndex := beginIndex\<rparr>)
                     (effs @ [SignalApply])
               | Some False \<Rightarrow> commitLoop (beginIndex + 1) rf effs)
          else Some (rf, effs))"
  by pat_completeness auto
termination
  by (relation "measure (\<lambda>(b, rf, _). case GetLastLog rf of
        None \<Rightarrow> 0 | Some e \<Rightarrow> nat (leIndex e - b + 1))")
     (auto simp: GetLastLog_def)

declare commitLoop.simps [simp del]

section \<open>Snapshot transfer\<close>

text \<open>Before the call: \<open>Some None\<close> when the peer is not the leader.\<close>

definition sendSnapShot_send :: "nat \<Rightarrow> ('c, 's) Raft \<Rightarrow>
    ('s RequestSnapShotArgs \<times> int \<times> int) option option" where
  "sendSnapShot_send peer rf =
     (if state rf \<noteq> Leader then Some None
      else do {
        sendNextIndex \<leftarrow> idx (nextIndex rf) (int peer);
        sendMatchIndex \<leftarrow> idx (matchIndex rf) (int peer);
        firstLog \<leftarrow> GetFirstLog rf;
        Some (Some
          (\<lparr>rsTerm = currentTerm rf, rsLeaderId = int (me rf),
            rsLastIncludedIndex = leIndex firstLog, rsLastIncludedTerm = leTerm firstLog,
            rsOffset = 0, rsData = snapshot rf, rsDone = True\<rparr>,
           sendNextIndex, sendMatchIndex))
      })"

text \<open>After a successful call.  \<open>sendLastLogIndex\<close> and \<open>sendLeaderTerm\<close> are fields of the
  arguments.\<close>

definition sendSnapShot_recv :: "timer \<Rightarrow> nat \<Rightarrow> 's RequestSnapShotArgs \<Rightarrow> int \<Rightarrow> int \<Rightarrow>
    RequestSnapShotReply \<Rightarrow> ('c, 's) Raft \<Rightarrow> (('c, 's) Raft \<times> effect list) option" where
  "sendSnapShot_recv tm peer args sendNextIndex sendMatchIndex reply rf =
     (if rsrTerm reply > currentTerm rf
      then Some (AddCurrentTerm (tm 0) (rsrTerm reply) rf, [])
      else if state rf = Leader \<and> currentTerm rf = rsTerm args
      then do {
        ni \<leftarrow> idx (nextIndex rf) (int peer);
        mi \<leftarrow> idx (matchIndex rf) (int peer);
        let last = rsLastIncludedIndex args;
        let rf1 = (if ni = sendNextIndex \<and> last + 1 > ni
                   then rf\<lparr>nextIndex := (nextIndex rf)[peer := last + 1]\<rparr> else rf);
        let rf2 = (if mi = sendMatchIndex \<and> last > mi
                   then rf1\<lparr>matchIndex := (matchIndex rf1)[peer := last]\<rparr> else rf1);
        commitLoop (commitIndex rf2 + 1) rf2 []
      }
      else Some (rf, []))"

section \<open>Replication rounds\<close>

text \<open>A zero-valued \<open>SendLogArgs\<close>, as \<open>make\<close> leaves it.\<close>

definition zeroSendLogArgs :: "'c SendLogArgs" where
  "zeroSendLogArgs =
     \<lparr>slTerm = 0, slLeaderId = 0, slPrevLogIndex = 0, slPrevLogTerm = 0, slEntries = [],
      slLeaderCommit = 0, slMsgType = UnKnowMgsType, slShouldSendSnapShot = False\<rparr>"

text \<open>One iteration of the preparation loop: the new peer (the slot of \<open>nextIndex\<close> may be
  corrected), the arguments for peer \<open>i\<close> and the recorded next index.\<close>

definition prepareSendLog :: "nat \<Rightarrow> ('c, 's) Raft \<Rightarrow>
    (('c, 's) Raft \<times> 'c SendLogArgs \<times> int) option" where
  "prepareSendLog i rf =
     (if i = me rf then Some (rf, zeroSendLogArgs, 0)
      else do {
        firstLog \<leftarrow> GetFirstLog rf;
        ni0 \<leftarrow> idx (nextIndex rf) (int i);
        if leTerm firstLog \<noteq> -1 \<and> ni0 \<le> leIndex firstLog
        then Some (rf, zeroSendLogArgs\<lparr>slShouldSendSnapShot := True\<rparr>, 0)
        else do {
          let ni1 = (if leTerm firstLog = -1 \<and> ni0 = leIndex firstLog
                     then leIndex firstLog + 1 else ni0);
          let ni = (if ni1 < 0 then 0 else ni1);
          preLog \<leftarrow> idx (rlog rf) (ni - leIndex firstLog - 1);
          entries \<leftarrow> slice_from (rlog rf) (ni - leIndex firstLog);
          Some (rf\<lparr>nextIndex := (nextIndex rf)[i := ni]\<rparr>,
            \<lparr>slTerm = currentTerm rf, slLeaderId = int (me rf),
             slPrevLogIndex = leIndex preLog, slPrevLogTerm = leTerm preLog,
             slEntries = entries, slLeaderCommit = commitIndex rf,
             slMsgType = (if length entries = 0 then HeartBeatMsgType else LogMsgType),
             slShouldSendSnapShot = False\<rparr>,
            ni)
        }
      })"

fun prepareAll :: "nat list \<Rightarrow> ('c, 's) Raft \<Rightarrow>
    (('c, 's) Raft \<times> ('c SendLogArgs \<times> int) list) option" where
  "prepareAll [] rf = Some (rf, [])"
| "prepareAll (i # is) rf = do {
     (rf1, a, r) \<leftarrow> prepareSendLog i rf;
     (rf2, rest) \<leftarrow> prepareAll is rf1;
     Some (rf2, (a, r) # rest)
   }"

text \<open>What the dispatch loop starts for a peer.\<close>

datatype 'c dispatch = DoSnapShot nat | DoSendLog nat "'c SendLogArgs" int

definition dispatchAll :: "nat \<Rightarrow> ('c SendLogArgs \<times> int) list \<Rightarrow> 'c dispatch list" where
  "dispatchAll self prepared =
     concat (map (\<lambda>(i, a, r). if i = self then []
                       else if slShouldSendSnapShot a then [DoSnapShot i]
                       else [DoSendLog i a r])
              (zip [0..<length prepared] prepared))"

definition sendLogTicketCore :: "('c, 's) Raft \<Rightarrow>
    (('c, 's) Raft \<times> 'c dispatch list) option" where
  "sendLogTicketCore rf =
     (if state rf \<noteq> Leader then Some (rf, [])
      else do {
        (rf1, prepared) \<leftarrow> prepareAll [0..<npeers rf] rf;
        Some (rf1, dispatchAll (me rf) prepared)
      })"

text \<open>The back-off loop: skip the entries of one term, at most down to the first index.\<close>

function backOff :: "int \<Rightarrow> int \<Rightarrow> ('c, 's) Raft \<Rightarrow> int option" where
  "backOff nowNextTerm backNextIndex rf =
     (case GetFirstLog rf of
        None \<Rightarrow> None
      | Some firstLog \<Rightarrow>
          if backNextIndex \<ge> leIndex firstLog
          then (case idx (rlog rf) (backNextIndex - leIndex firstLog) of
                  None \<Rightarrow> None
                | Some e \<Rightarrow>
                    if leTerm e = nowNextTerm then backOff nowNextTerm (backNextIndex - 1) rf
                    else Some backNextIndex)
          else Some backNextIndex)"
  by pat_completeness auto
termination
  by (relation "measure (\<lambda>(t, b, rf). case GetFirstLog rf of
        None \<Rightarrow> 0 | Some e \<Rightarrow> nat (b - leIndex e + 1))") auto

declare backOff.simps [simp del]

text \<open>The goroutine's second section, after \<open>sendLog\<close> returned true.\<close>

definition sendLog_failed :: "nat \<Rightarrow> int \<Rightarrow> ('c, 's) Raft \<Rightarrow> ('c, 's) Raft option" where
  "sendLog_failed i recodeNextIndex rf = do {
     ni \<leftarrow> idx (nextIndex rf) (int i);
     if ni = recodeNextIndex
     then do {
       firstLog \<leftarrow> GetFirstLog rf;
       lastLog \<leftarrow> GetLastLog rf;
       if ni - 1 \<le> leIndex firstLog
       then Some (rf\<lparr>nextIndex := (nextIndex rf)[i := leIndex firstLog]\<rparr>)
       else do {
         let back = (if ni - 1 > leIndex lastLog then leIndex lastLog else ni - 1);
         e \<leftarrow> idx (rlog rf) (back - leIndex firstLog);
         b \<leftarrow> backOff (leTerm e) back rf;
         Some (rf\<lparr>nextIndex := (nextIndex rf)[i := b + 1]\<rparr>)
       }
     }
     else Some rf
   }"

definition sendLog_succeeded :: "nat \<Rightarrow> 'c SendLogArgs \<Rightarrow> ('c, 's) Raft \<Rightarrow>
    (('c, 's) Raft \<times> effect list) option" where
  "sendLog_succeeded i args rf =
     (if length (slEntries args) > 0
      then do {
        lastEntry \<leftarrow> idx (slEntries args) (int (length (slEntries args)) - 1);
        mi \<leftarrow> idx (matchIndex rf) (int i);
        ni \<leftarrow> idx (nextIndex rf) (int i);
        let rf1 = (if leIndex lastEntry > mi
                   then rf\<lparr>matchIndex := (matchIndex rf)[i := leIndex lastEntry]\<rparr> else rf);
        let rf2 = (if leIndex lastEntry + 1 > ni
                   then rf1\<lparr>nextIndex := (nextIndex rf1)[i := leIndex lastEntry + 1]\<rparr>
                   else rf1);
        commitLoop (commitIndex rf2 + 1) rf2 []
      }
      else Some (rf, []))"

definition sendLog_recv :: "timer \<Rightarrow> nat \<Rightarrow> 'c SendLogArgs \<Rightarrow> int \<Rightarrow> SendLogReply \<Rightarrow>
    ('c, 's) Raft \<Rightarrow> (('c, 's) Raft \<times> effect list) option" where
  "sendLog_recv tm i args recodeNextIndex reply rf =
     (if slrTerm reply > currentTerm rf
      then Some (AddCurrentTerm (tm 0) (slrTerm reply) rf, [])
      else if state rf = Leader \<and> currentTerm rf = slTerm args
      then
        if slrSuccess reply then sendLog_succeeded i args rf
        else map_option (\<lambda>rf'. (rf', [])) (sendLog_failed i recodeNextIndex rf)
      else Some (rf, []))"

section \<open>The heartbeat round\<close>

text \<open>One iteration of \<open>heartBeat\<close>: the calls it starts, each with its peer.  The replies are not
  looked at.  \<open>Make\<close> does not start this loop; replication rounds have replaced it.\<close>

definition heartBeatRound :: "('c, 's) Raft \<Rightarrow> (nat \<times> HeartBeatArgs) list" where
  "heartBeatRound rf =
     (if state rf = Leader
      then map (\<lambda>i. (i, \<lparr>hbTerm = currentTerm rf, hbCandidateId = int (me rf)\<rparr>))
             (filter (\<lambda>i. i \<noteq> me rf) [0..<npeers rf])
      else [])"

section \<open>Elections (ticker)\<close>

text \<open>The local variables the goroutines of one election share.\<close>

record Election =
  elArgs :: RequestVoteArgs
  finishRequest :: int
  voteCount :: int
  rpcFailCount :: int

text \<open>The first critical section of an iteration; times are in nanoseconds.\<close>

definition ticker_start :: "int \<Rightarrow> timer \<Rightarrow> ('c, 's) Raft \<Rightarrow>
    (('c, 's) Raft \<times> Election option) option" where
  "ticker_start now tm rf =
     (if now - startElectionTime rf > electionInterval rf * 1000000 \<and>
         (state rf = Follower \<or> state rf = Candidate)
      then do {
        let rf1 = persist ((SetElectionTime (tm 0) 600 rf)\<lparr>
                    currentTerm := currentTerm rf + 1, state := Candidate,
                    voteFor := int (me rf)\<rparr>);
        (lastIndex, lastTerm) \<leftarrow>
          (if length (rlog rf1) = 0 then Some (-1, -1)
           else do {
             tempLog \<leftarrow> idx (rlog rf1) (int (length (rlog rf1)) - 1);
             Some (leIndex tempLog, leTerm tempLog)
           });
        Some (rf1, Some
          \<lparr>elArgs = \<lparr>rvTerm = currentTerm rf1, rvCandidateId = int (me rf1),
                     rvLastLogIndex = lastIndex, rvLastLogTerm = lastTerm\<rparr>,
           finishRequest = 1, voteCount = 1, rpcFailCount = 0\<rparr>)
      }
      else Some (rf, None))"

text \<open>The goroutine of one peer after its call; \<open>None\<close> stands for a failed RPC.\<close>

definition ticker_reply :: "timer \<Rightarrow> RequestVoteReply option \<Rightarrow> Election \<Rightarrow> ('c, 's) Raft \<Rightarrow>
    ('c, 's) Raft \<times> Election" where
  "ticker_reply tm answer el rf =
     (let el1 = el\<lparr>finishRequest := finishRequest el + 1\<rparr>
      in case answer of
        Some reply \<Rightarrow>
          (if rvrTerm reply > currentTerm rf
           then AddCurrentTerm (tm 0) (rvrTerm reply) rf else rf,
           if rvrVoteGranted reply then el1\<lparr>voteCount := voteCount el1 + 1\<rparr> else el1)
      | None \<Rightarrow> (rf, el1\<lparr>rpcFailCount := rpcFailCount el1 + 1\<rparr>))"

text \<open>The condition under which the election goroutine keeps waiting.\<close>

definition ticker_waits :: "nat \<Rightarrow> Election \<Rightarrow> bool" where
  "ticker_waits n el \<longleftrightarrow>
     voteCount el \<le> int (n div 2) \<and> finishRequest el < int n \<and>
     voteCount el + (int n - finishRequest el) > int (n div 2)"

text \<open>The election goroutine after the wait.\<close>

definition ticker_finish :: "Election \<Rightarrow> ('c, 's) Raft \<Rightarrow> ('c, 's) Raft option" where
  "ticker_finish el rf =
     (if currentTerm rf = rvTerm (elArgs el) \<and> state rf = Candidate \<and>
         voteCount el > int (npeers rf div 2)
      then resetRaftIndex (rf\<lparr>state := Leader\<rparr>)
      else Some rf)"

end
