(* ===== verification/Raft_Apply.thy ===== *)
theory Raft_Apply
  imports Raft_State
begin

text \<open>
  Delivery to the service (\<open>raft/raft.go\<close>): the \<open>applyTicket\<close> loop and the goroutine that
  \<open>RequestInstallSnapShot\<close> starts for an installed snapshot.  Both send on \<open>applyCh\<close> while they
  hold \<open>applySeqMu\<close>, and both wait on condition variables, so each is a small machine whose
  program points are the places where it can block or where another goroutine can run.
  \<open>Blocked\<close> is a point at which the goroutine cannot run (a taken mutex, a condition variable),
  \<open>Panics\<close> an index out of range.  The message log \<open>delivered\<close> is what the service receives: a
  message counts as delivered when its goroutine has built it, the channel only delays the
  sender, which keeps \<open>applySeqMu\<close> and so cannot be overtaken.
\<close>

datatype 'c applierPc =
    ATop                        \<comment> \<open>the loop head: \<open>rf.killed()\<close>, \<open>rf.mu.Lock()\<close>\<close>
  | AWait                       \<comment> \<open>inside \<open>rf.applyCond.Wait()\<close>\<close>
  | ACheck                      \<comment> \<open>woken up, holding \<open>rf.mu\<close>: the loop condition\<close>
  | AGot "'c LogEntry list"     \<comment> \<open>\<open>rf.applySeqMu.Lock()\<close>\<close>
  | ASeqCheck "'c LogEntry list" \<comment> \<open>holding \<open>applySeqMu\<close>: the second loop condition\<close>
  | ASeqWait "'c LogEntry list" \<comment> \<open>inside \<open>rf.applySeqCond.Wait()\<close>\<close>
  | ASeqWoken "'c LogEntry list" \<comment> \<open>signalled, reacquiring \<open>applySeqMu\<close>\<close>
  | ASend "'c LogEntry list" "'c LogEntry list" \<comment> \<open>all entries, entries still to send\<close>
  | AExit

datatype snapPc =
    SWant int int               \<comment> \<open>\<open>rf.applySeqMu.Lock()\<close>\<close>
  | SHold int int               \<comment> \<open>sending the snapshot message\<close>
  | SSent int int               \<comment> \<open>\<open>rf.mu.Lock()\<close> and the updates\<close>
  | SExit

datatype holder = HApplier | HSnap nat

record ('c, 's) ApplyState =
  pc :: "'c applierPc"
  snaps :: "snapPc list"
  seqMu :: "holder option"
  delivered :: "('c, 's) ApplyMsg list"

definition initApply :: "('c, 's) ApplyState" where
  "initApply = \<lparr>pc = ATop, snaps = [], seqMu = None, delivered = []\<rparr>"

definition commandMsg :: "'c LogEntry \<Rightarrow> ('c, 's) ApplyMsg" where
  "commandMsg e = \<lparr>amCommandValid = True, amCommand = leData e, amCommandIndex = leIndex e,
     amSnapshotValid = False, amSnapshot = [], amSnapshotTerm = 0, amSnapshotIndex = 0\<rparr>"

definition snapshotMsg :: "'s list \<Rightarrow> int \<Rightarrow> int \<Rightarrow> ('c, 's) ApplyMsg" where
  "snapshotMsg snap i t = \<lparr>amCommandValid = False, amCommand = None, amCommandIndex = 0,
     amSnapshotValid = True, amSnapshot = snap, amSnapshotTerm = t, amSnapshotIndex = i\<rparr>"

section \<open>Signals and spawned goroutines\<close>

definition signalApply :: "('c, 's) ApplyState \<Rightarrow> ('c, 's) ApplyState" where
  "signalApply ap = (if pc ap = AWait then ap\<lparr>pc := ACheck\<rparr> else ap)"

definition signalSeq :: "('c, 's) ApplyState \<Rightarrow> ('c, 's) ApplyState" where
  "signalSeq ap = (case pc ap of ASeqWait es \<Rightarrow> ap\<lparr>pc := ASeqWoken es\<rparr> | _ \<Rightarrow> ap)"

fun doEffect :: "effect \<Rightarrow> ('c, 's) ApplyState \<Rightarrow> ('c, 's) ApplyState" where
  "doEffect SignalApply ap = signalApply ap"
| "doEffect (SpawnSnapshot i t) ap = ap\<lparr>snaps := snaps ap @ [SWant i t]\<rparr>"
| "doEffect SpawnSendLog ap = ap"

definition doEffects :: "effect list \<Rightarrow> ('c, 's) ApplyState \<Rightarrow> ('c, 's) ApplyState" where
  "doEffects effs ap = fold doEffect effs ap"

section \<open>applyTicket\<close>

text \<open>The loop that collects the entries to apply, from index \<open>i\<close> through \<open>hi\<close>.\<close>

function gather :: "int \<Rightarrow> int \<Rightarrow> ('c, 's) Raft \<Rightarrow> 'c LogEntry list option" where
  "gather i hi rf =
     (if i \<le> hi
      then (case GetFirstLog rf of
              None \<Rightarrow> None
            | Some firstLog \<Rightarrow>
                (case idx (rlog rf) (i - leIndex firstLog) of
                   None \<Rightarrow> None
                 | Some e \<Rightarrow> map_option (\<lambda>es. e # es) (gather (i + 1) hi rf)))
      else Some [])"
  by pat_completeness auto
termination
  by (relation "measure (\<lambda>(i, hi, rf). nat (hi - i + 1))") auto

declare gather.simps [simp del]

text \<open>The section under \<open>rf.mu\<close>, from the first wait condition to the unlock.\<close>

definition applier_collect :: "('c, 's) Raft \<Rightarrow> ('c, 's) ApplyState \<Rightarrow>
    ('c, 's) ApplyState outcome" where
  "applier_collect rf ap =
     (case GetFirstLog rf of
        None \<Rightarrow> Panics
      | Some firstLog \<Rightarrow>
          if lastApplied rf \<ge> commitIndex rf \<or> lastApplied rf < leIndex firstLog
          then Runs (ap\<lparr>pc := AWait\<rparr>)
          else (case gather (lastApplied rf + 1) (commitIndex rf) rf of
                  None \<Rightarrow> Panics
                | Some es \<Rightarrow> Runs (ap\<lparr>pc := (if es = [] then ATop else AGot es)\<rparr>)))"

text \<open>The section under \<open>applySeqMu\<close> up to the send loop.  The early \<open>continue\<close> goes back to the
  loop head without an unlock, as the source does.\<close>

definition applier_seqCheck :: "'c LogEntry list \<Rightarrow> ('c, 's) Raft \<Rightarrow> ('c, 's) ApplyState \<Rightarrow>
    ('c, 's) ApplyState outcome" where
  "applier_seqCheck es rf ap =
     (case es of
        [] \<Rightarrow> Panics
      | firstLog # _ \<Rightarrow>
          if leIndex firstLog \<noteq> lastApplied rf + 1 \<and> leIndex firstLog > lastApplied rf
          then Runs (ap\<lparr>pc := ASeqWait es, seqMu := None\<rparr>)
          else if leIndex firstLog \<le> lastApplied rf then Runs (ap\<lparr>pc := ATop\<rparr>)
          else Runs (ap\<lparr>pc := ASend es es\<rparr>))"

fun applier_send :: "'c LogEntry list \<Rightarrow> 'c LogEntry list \<Rightarrow> ('c, 's) Raft \<Rightarrow>
    ('c, 's) ApplyState \<Rightarrow> ('c, 's) Raft \<times> ('c, 's) ApplyState" where
  "applier_send es (e # rest) rf ap =
     (rf, ap\<lparr>delivered := delivered ap @ [commandMsg e], pc := ASend es rest\<rparr>)"
| "applier_send es [] rf ap =
     ((if es \<noteq> [] \<and> leIndex (last es) > lastApplied rf
       then rf\<lparr>lastApplied := leIndex (last es)\<rparr> else rf),
      ap\<lparr>seqMu := None, pc := ATop\<rparr>)"

definition applier_step :: "('c, 's) Raft \<Rightarrow> ('c, 's) ApplyState \<Rightarrow>
    (('c, 's) Raft \<times> ('c, 's) ApplyState) outcome" where
  "applier_step rf ap =
     (let run = map_outcome (\<lambda>ap'. (rf, ap'))
      in case pc ap of
        ATop \<Rightarrow> if killed rf then Runs (rf, ap\<lparr>pc := AExit\<rparr>) else run (applier_collect rf ap)
      | AWait \<Rightarrow> Blocked
      | ACheck \<Rightarrow> run (applier_collect rf ap)
      | AGot es \<Rightarrow> if seqMu ap = None
                  then Runs (rf, ap\<lparr>seqMu := Some HApplier, pc := ASeqCheck es\<rparr>) else Blocked
      | ASeqCheck es \<Rightarrow> run (applier_seqCheck es rf ap)
      | ASeqWait es \<Rightarrow> Blocked
      | ASeqWoken es \<Rightarrow> if seqMu ap = None
                  then Runs (rf, ap\<lparr>seqMu := Some HApplier, pc := ASeqCheck es\<rparr>) else Blocked
      | ASend es rest \<Rightarrow> Runs (applier_send es rest rf ap)
      | AExit \<Rightarrow> Blocked)"

section \<open>The goroutine that delivers an installed snapshot\<close>

text \<open>The section under \<open>rf.mu\<close>: both indices only move forward; the signal is sent only when
  the commit index moves.\<close>

definition snap_update :: "int \<Rightarrow> ('c, 's) Raft \<Rightarrow> ('c, 's) Raft \<times> effect list" where
  "snap_update i rf =
     (let rf1 = (if i > lastApplied rf then rf\<lparr>lastApplied := i\<rparr> else rf)
      in if i > commitIndex rf1 then (rf1\<lparr>commitIndex := i\<rparr>, [SignalApply]) else (rf1, []))"

definition snap_step :: "nat \<Rightarrow> ('c, 's) Raft \<Rightarrow> ('c, 's) ApplyState \<Rightarrow>
    (('c, 's) Raft \<times> ('c, 's) ApplyState) outcome" where
  "snap_step j rf ap =
     (if j \<ge> length (snaps ap) then Blocked
      else case snaps ap ! j of
        SWant i t \<Rightarrow> if seqMu ap = None
          then Runs (rf, ap\<lparr>seqMu := Some (HSnap j), snaps := (snaps ap)[j := SHold i t]\<rparr>)
          else Blocked
      | SHold i t \<Rightarrow> Runs (rf, ap\<lparr>delivered := delivered ap @ [snapshotMsg (snapshot rf) i t],
                                  snaps := (snaps ap)[j := SSent i t]\<rparr>)
      | SSent i t \<Rightarrow> (let (rf', effs) = snap_update i rf in
          Runs (rf', signalSeq (doEffects effs
                  (ap\<lparr>seqMu := None, snaps := (snaps ap)[j := SExit]\<rparr>))))
      | SExit \<Rightarrow> Blocked)"

end
