(* ===== verification/Raft_Sys.thy ===== *)
theory Raft_Sys
  imports Raft_Rpc Raft_Leader Raft_Apply
begin

text \<open>
  A cluster of \<open>n\<close> peers running the code of \<open>raft/raft.go\<close>.  A node is a peer together with its
  goroutines: the elections in progress, the peers for which a snapshot transfer has been
  started, and the delivery goroutines.  Every critical section of the code is one step.

  The network is the set of messages sent so far: a step may read any of them, any number of
  times and in any order, or never, which covers the loss, delay and reordering that
  \<open>labrpc/labrpc.go\<close> simulates.  A message carries the values its goroutine keeps across the
  call.  A vote reply is consumed by the goroutine that waits for it, so it is counted once per
  peer, as in the code.  A crash loses everything but the stable storage and restarts the peer
  through \<open>Make\<close>.  The service calls \<open>Snapshot\<close> only with the index of a command it received.

  A step that would panic does not occur here: a panic ends the process, which is the crash step.
\<close>

datatype ('c, 's) msg =
    MVoteReq nat nat RequestVoteArgs
  | MVoteRep nat nat RequestVoteArgs RequestVoteReply
  | MLogReq nat nat "'c SendLogArgs" int
  | MLogRep nat nat "'c SendLogArgs" int SendLogReply
  | MSnapReq nat nat "'s RequestSnapShotArgs" int int
  | MSnapRep nat nat "'s RequestSnapShotArgs" int int RequestSnapShotReply

text \<open>A running election: the shared variables, the peers whose call has not returned, and whether
  the election goroutine has finished.\<close>

record Round =
  roEl :: Election
  roWaiting :: "nat set"
  roDone :: bool

record ('c, 's) node =
  nRf :: "('c, 's) Raft"
  nRounds :: "Round list"
  nSnapTo :: "nat set"
  nAp :: "('c, 's) ApplyState"

text \<open>\<open>history\<close> is a history variable: every message any service has ever received, which no
  step reads.\<close>

record ('c, 's) sys =
  nodes :: "nat \<Rightarrow> ('c, 's) node"
  net :: "('c, 's) msg set"
  history :: "('c, 's) ApplyMsg set"

definition setRf :: "nat \<Rightarrow> ('c, 's) Raft \<Rightarrow> effect list \<Rightarrow> ('c, 's) sys \<Rightarrow> ('c, 's) sys" where
  "setRf i rf effs sy = sy\<lparr>nodes := (nodes sy)(i :=
     (nodes sy i)\<lparr>nRf := rf, nAp := doEffects effs (nAp (nodes sy i))\<rparr>)\<rparr>"

definition send :: "('c, 's) msg set \<Rightarrow> ('c, 's) sys \<Rightarrow> ('c, 's) sys" where
  "send ms sy = sy\<lparr>net := net sy \<union> ms\<rparr>"

definition freshNode :: "('c, 's) Raft \<Rightarrow> ('c, 's) node" where
  "freshNode rf = \<lparr>nRf = rf, nRounds = [], nSnapTo = {}, nAp = initApply\<rparr>"

definition addRound :: "nat \<Rightarrow> Election \<Rightarrow> nat set \<Rightarrow> ('c, 's) sys \<Rightarrow> ('c, 's) sys" where
  "addRound i el W sy = sy\<lparr>nodes := (nodes sy)(i := (nodes sy i)\<lparr>nRounds :=
     nRounds (nodes sy i) @ [\<lparr>roEl = el, roWaiting = W, roDone = False\<rparr>]\<rparr>)\<rparr>"

definition setRound :: "nat \<Rightarrow> nat \<Rightarrow> Round \<Rightarrow> ('c, 's) sys \<Rightarrow> ('c, 's) sys" where
  "setRound i k r sy = sy\<lparr>nodes := (nodes sy)(i := (nodes sy i)\<lparr>nRounds :=
     (nRounds (nodes sy i))[k := r]\<rparr>)\<rparr>"

definition addSnapTo :: "nat \<Rightarrow> nat set \<Rightarrow> ('c, 's) sys \<Rightarrow> ('c, 's) sys" where
  "addSnapTo i ps sy = sy\<lparr>nodes := (nodes sy)(i := (nodes sy i)\<lparr>nSnapTo :=
     nSnapTo (nodes sy i) \<union> ps\<rparr>)\<rparr>"

definition setAp :: "nat \<Rightarrow> ('c, 's) Raft \<Rightarrow> ('c, 's) ApplyState \<Rightarrow> ('c, 's) sys \<Rightarrow> ('c, 's) sys" where
  "setAp i rf ap sy = sy\<lparr>nodes := (nodes sy)(i := (nodes sy i)\<lparr>nRf := rf, nAp := ap\<rparr>),
     history := history sy \<union> set (delivered ap)\<rparr>"

abbreviation peer :: "('c, 's) sys \<Rightarrow> nat \<Rightarrow> ('c, 's) Raft" where
  "peer sy i \<equiv> nRf (nodes sy i)"

definition logMsgs :: "nat \<Rightarrow> 'c dispatch list \<Rightarrow> ('c, 's) msg set" where
  "logMsgs i ds = {MLogReq i j a r | j a r. DoSendLog j a r \<in> set ds}"

definition snapPeers :: "'c dispatch list \<Rightarrow> nat set" where
  "snapPeers ds = {j. DoSnapShot j \<in> set ds}"

inductive step :: "nat \<Rightarrow> ('c, 's) sys \<Rightarrow> ('c, 's) sys \<Rightarrow> bool" for n :: nat where
  elect_start: "i < n \<Longrightarrow> ticker_start now tm (peer sy i) = Some (rf, Some el) \<Longrightarrow>
    step n sy (send {MVoteReq i j (elArgs el) | j. j < n \<and> j \<noteq> i}
      (addRound i el ({..<n} - {i}) (setRf i rf [] sy)))"
| vote_req: "MVoteReq i j args \<in> net sy \<Longrightarrow> RequestVote tm args (peer sy j) = Some (rf, reply) \<Longrightarrow>
    step n sy (send {MVoteRep i j args reply} (setRf j rf [] sy))"
| vote_rep: "MVoteRep i j args reply \<in> net sy \<Longrightarrow> k < length (nRounds (nodes sy i)) \<Longrightarrow>
    nRounds (nodes sy i) ! k = ro \<Longrightarrow> elArgs (roEl ro) = args \<Longrightarrow> j \<in> roWaiting ro \<Longrightarrow>
    ticker_reply tm (Some reply) (roEl ro) (peer sy i) = (rf, el) \<Longrightarrow>
    step n sy (setRound i k (ro\<lparr>roEl := el, roWaiting := roWaiting ro - {j}\<rparr>) (setRf i rf [] sy))"
| vote_fail: "i < n \<Longrightarrow> k < length (nRounds (nodes sy i)) \<Longrightarrow>
    nRounds (nodes sy i) ! k = ro \<Longrightarrow> j \<in> roWaiting ro \<Longrightarrow>
    ticker_reply tm None (roEl ro) (peer sy i) = (rf, el) \<Longrightarrow>
    step n sy (setRound i k (ro\<lparr>roEl := el, roWaiting := roWaiting ro - {j}\<rparr>) (setRf i rf [] sy))"
| elect_finish: "i < n \<Longrightarrow> k < length (nRounds (nodes sy i)) \<Longrightarrow>
    nRounds (nodes sy i) ! k = ro \<Longrightarrow> \<not> roDone ro \<Longrightarrow> \<not> ticker_waits n (roEl ro) \<Longrightarrow>
    ticker_finish (roEl ro) (peer sy i) = Some rf \<Longrightarrow>
    step n sy (setRound i k (ro\<lparr>roDone := True\<rparr>) (setRf i rf [] sy))"
| client: "i < n \<Longrightarrow> Start cmd (peer sy i) = Some (rf, res, effs) \<Longrightarrow>
    step n sy (setRf i rf effs sy)"
| replicate: "i < n \<Longrightarrow> sendLogTicketCore (peer sy i) = Some (rf, ds) \<Longrightarrow>
    step n sy (send (logMsgs i ds) (addSnapTo i (snapPeers ds) (setRf i rf [] sy)))"
| log_req: "MLogReq i j args r \<in> net sy \<Longrightarrow>
    RequestSendLog tm args (peer sy j) = Some (rf, reply, effs) \<Longrightarrow>
    step n sy (send {MLogRep i j args r reply} (setRf j rf effs sy))"
| log_rep: "MLogRep i j args r reply \<in> net sy \<Longrightarrow>
    sendLog_recv tm j args r reply (peer sy i) = Some (rf, effs) \<Longrightarrow>
    step n sy (setRf i rf effs sy)"
| snap_send: "i < n \<Longrightarrow> j \<in> nSnapTo (nodes sy i) \<Longrightarrow>
    sendSnapShot_send j (peer sy i) = Some (Some (args, ni, mi)) \<Longrightarrow>
    step n sy (send {MSnapReq i j args ni mi} sy)"
| snap_req: "MSnapReq i j args ni mi \<in> net sy \<Longrightarrow>
    RequestInstallSnapShot tm args (peer sy j) = Some (rf, reply, effs) \<Longrightarrow>
    step n sy (send {MSnapRep i j args ni mi reply} (setRf j rf effs sy))"
| snap_rep: "MSnapRep i j args ni mi reply \<in> net sy \<Longrightarrow>
    sendSnapShot_recv tm j args ni mi reply (peer sy i) = Some (rf, effs) \<Longrightarrow>
    step n sy (setRf i rf effs sy)"
| compact: "i < n \<Longrightarrow> m \<in> set (delivered (nAp (nodes sy i))) \<Longrightarrow> amCommandValid m \<Longrightarrow>
    Snapshot (amCommandIndex m) snap (peer sy i) = Some rf \<Longrightarrow>
    step n sy (setRf i rf [] sy)"
| applier: "i < n \<Longrightarrow> applier_step (peer sy i) (nAp (nodes sy i)) = Runs (rf, ap) \<Longrightarrow>
    step n sy (setAp i rf ap sy)"
| deliver_snap: "i < n \<Longrightarrow> snap_step k (peer sy i) (nAp (nodes sy i)) = Runs (rf, ap) \<Longrightarrow>
    step n sy (setAp i rf ap sy)"
| crash: "i < n \<Longrightarrow> Make now n i (persister (peer sy i)) = Some rf \<Longrightarrow>
    step n sy (sy\<lparr>nodes := (nodes sy)(i := freshNode rf)\<rparr>)"

text \<open>The cluster starts with blank stable storage on every peer.\<close>

definition initial :: "nat \<Rightarrow> ('c, 's) sys \<Rightarrow> bool" where
  "initial n sy \<longleftrightarrow> net sy = {} \<and> history sy = {} \<and>
     (\<forall>i < n. \<exists>now rf. Make now n i MakePersister = Some rf \<and> nodes sy i = freshNode rf)"

inductive reachable :: "nat \<Rightarrow> ('c, 's) sys \<Rightarrow> bool" for n :: nat where
  reach_init: "initial n sy \<Longrightarrow> reachable n sy"
| reach_step: "reachable n sy \<Longrightarrow> step n sy sy' \<Longrightarrow> reachable n sy'"

end
