(* ===== verification/Raft_Spec.thy ===== *)
theory Raft_Spec
  imports Go_Prelude
begin

text \<open>
  The protocol that \<open>raft/raft.go\<close> implements, without RPCs, timers, snapshots and stable storage:
  the abstract specification of the Raft component.  A log is the full list of (term, command)
  pairs, position 0 holding the dummy entry; \<open>tlog t\<close> is the log of the leader of term \<open>t\<close>,
  which only that leader extends; \<open>(q, t, k)\<close> in \<open>acks\<close> records that server \<open>q\<close> confirmed to the
  leader of term \<open>t\<close> that its log agrees with \<open>tlog t\<close> through position \<open>k\<close>; \<open>clog c t\<close> is the log
  with which \<open>c\<close> asked for votes in term \<open>t\<close>.  Quorums are a parameter; what the proofs need of
  them is the locale \<open>quorums\<close>, which the refinement interprets with the majorities of the peers.

  The main result is leader completeness (\<open>leader_complete\<close>), from which any two committed
  prefixes are comparable (\<open>chosen_comparable\<close>).
\<close>

section \<open>State and steps\<close>

type_synonym 'c alog = "(int \<times> 'c option) list"

record ('p, 'c) aState =
  cur :: "'p \<Rightarrow> int"
  vot :: "'p \<Rightarrow> int \<Rightarrow> 'p option"
  clog :: "'p \<Rightarrow> int \<Rightarrow> 'c alog option"
  alog :: "'p \<Rightarrow> 'c alog"
  tlog :: "int \<Rightarrow> 'c alog option"
  ldr :: "int \<Rightarrow> 'p option"
  acks :: "('p \<times> int \<times> nat) set"

definition aInit :: "('p, 'c) aState" where
  "aInit = \<lparr>cur = (\<lambda>_. 0), vot = (\<lambda>_ _. None), clog = (\<lambda>_ _. None),
            alog = (\<lambda>_. [(-1, None)]), tlog = (\<lambda>_. None), ldr = (\<lambda>_. None), acks = {}\<rparr>"

abbreviation lterm :: "'c alog \<Rightarrow> int" where
  "lterm L \<equiv> fst (last L)"

definition upToDate :: "'c alog \<Rightarrow> 'c alog \<Rightarrow> bool" where
  "upToDate C L \<longleftrightarrow> lterm C > lterm L \<or> (lterm C = lterm L \<and> length C \<ge> length L)"

definition aTimeout :: "'p \<Rightarrow> ('p, 'c) aState \<Rightarrow> ('p, 'c) aState" where
  "aTimeout s st = (let t = cur st s + 1 in
     st\<lparr>cur := (cur st)(s := t), vot := (vot st)(s := (vot st s)(t := Some s)),
        clog := (clog st)(s := (clog st s)(t := Some (alog st s)))\<rparr>)"

definition aTerm :: "'p \<Rightarrow> int \<Rightarrow> ('p, 'c) aState \<Rightarrow> ('p, 'c) aState" where
  "aTerm s t st = st\<lparr>cur := (cur st)(s := t)\<rparr>"

definition aVote :: "'p \<Rightarrow> 'p \<Rightarrow> ('p, 'c) aState \<Rightarrow> ('p, 'c) aState" where
  "aVote s c st = st\<lparr>vot := (vot st)(s := (vot st s)(cur st s := Some c))\<rparr>"

definition aElect :: "'p \<Rightarrow> ('p, 'c) aState \<Rightarrow> ('p, 'c) aState" where
  "aElect s st = st\<lparr>tlog := (tlog st)(cur st s := Some (alog st s)),
     ldr := (ldr st)(cur st s := Some s),
     acks := insert (s, cur st s, length (alog st s) - 1) (acks st)\<rparr>"

definition aAppend :: "'p \<Rightarrow> 'c option \<Rightarrow> ('p, 'c) aState \<Rightarrow> ('p, 'c) aState" where
  "aAppend s d st = (let L = alog st s @ [(cur st s, d)] in
     st\<lparr>alog := (alog st)(s := L), tlog := (tlog st)(cur st s := Some L),
        acks := insert (s, cur st s, length (alog st s)) (acks st)\<rparr>)"

definition aAccept :: "'p \<Rightarrow> nat \<Rightarrow> 'c alog \<Rightarrow> ('p, 'c) aState \<Rightarrow> ('p, 'c) aState" where
  "aAccept s k L st =
     st\<lparr>alog := (alog st)(s := if prefix (take (Suc k) L) (alog st s) then alog st s
                              else take (Suc k) L),
        acks := insert (s, cur st s, k) (acks st)\<rparr>"

inductive astep :: "('p set \<Rightarrow> bool) \<Rightarrow> ('p, 'c) aState \<Rightarrow> ('p, 'c) aState \<Rightarrow> bool"
  for Qm :: "'p set \<Rightarrow> bool"
where
  timeout: "astep Qm st (aTimeout s st)"
| newterm: "cur st s < t \<Longrightarrow> astep Qm st (aTerm s t st)"
| vote: "vot st s (cur st s) = None \<Longrightarrow> clog st c (cur st s) = Some C \<Longrightarrow>
    upToDate C (alog st s) \<Longrightarrow> astep Qm st (aVote s c st)"
| elect: "clog st s (cur st s) = Some (alog st s) \<Longrightarrow> tlog st (cur st s) = None \<Longrightarrow> Qm Q \<Longrightarrow>
    \<forall>q\<in>Q. vot st q (cur st s) = Some s \<Longrightarrow> astep Qm st (aElect s st)"
| append: "ldr st (cur st s) = Some s \<Longrightarrow> astep Qm st (aAppend s d st)"
| accept: "tlog st (cur st s) = Some L \<Longrightarrow> k < length L \<Longrightarrow> astep Qm st (aAccept s k L st)"

inductive areach :: "('p set \<Rightarrow> bool) \<Rightarrow> ('p, 'c) aState \<Rightarrow> bool"
  for Qm :: "'p set \<Rightarrow> bool"
where
  areach_init: "areach Qm aInit"
| areach_step: "areach Qm st \<Longrightarrow> astep Qm st st' \<Longrightarrow> areach Qm st'"

section \<open>What is committed\<close>

definition acked :: "('p, 'c) aState \<Rightarrow> 'p \<Rightarrow> int \<Rightarrow> nat \<Rightarrow> bool" where
  "acked st q t k \<longleftrightarrow> (\<exists>k' \<ge> k. (q, t, k') \<in> acks st)"

definition entryAt :: "('p, 'c) aState \<Rightarrow> int \<Rightarrow> nat \<Rightarrow> bool" where
  "entryAt st t k \<longleftrightarrow> (\<exists>L. tlog st t = Some L \<and> k < length L \<and> fst (L ! k) = t)"

text \<open>Position \<open>k\<close> of term \<open>t\<close>'s leader log is committed: an entry of that very term, confirmed
  by a quorum.\<close>

definition chosen :: "('p set \<Rightarrow> bool) \<Rightarrow> ('p, 'c) aState \<Rightarrow> int \<Rightarrow> nat \<Rightarrow> bool" where
  "chosen Qm st t k \<longleftrightarrow> entryAt st t k \<and> (\<exists>Q. Qm Q \<and> (\<forall>q\<in>Q. acked st q t k))"

text \<open>No quorum can confirm position \<open>k\<close> in term \<open>t\<close> any more.\<close>

definition doomed :: "('p set \<Rightarrow> bool) \<Rightarrow> ('p, 'c) aState \<Rightarrow> int \<Rightarrow> nat \<Rightarrow> bool" where
  "doomed Qm st t k \<longleftrightarrow> (\<exists>Q. Qm Q \<and> (\<forall>q\<in>Q. t < cur st q \<and> \<not> acked st q t k))"

definition safeAt :: "('p set \<Rightarrow> bool) \<Rightarrow> ('p, 'c) aState \<Rightarrow> int \<Rightarrow> nat \<Rightarrow> 'c alog \<Rightarrow> bool" where
  "safeAt Qm st t k X \<longleftrightarrow>
     (\<forall>L. tlog st t = Some L \<longrightarrow> prefix (take (Suc k) L) X) \<or> doomed Qm st t k"

section \<open>Invariants\<close>

definition wfLog :: "'c alog \<Rightarrow> bool" where
  "wfLog L \<longleftrightarrow> L \<noteq> [] \<and> L ! 0 = (-1, None) \<and>
     (\<forall>i j. i \<le> j \<longrightarrow> j < length L \<longrightarrow> fst (L ! i) \<le> fst (L ! j)) \<and>
     (\<forall>i < length L. 0 < i \<longrightarrow> 1 \<le> fst (L ! i))"

text \<open>Log matching: an entry of term \<open>u\<close> at position \<open>i\<close> stands on a prefix of \<open>u\<close>'s leader log.\<close>

definition matches :: "('p, 'c) aState \<Rightarrow> 'c alog \<Rightarrow> bool" where
  "matches st L \<longleftrightarrow> (\<forall>i < length L. 0 < i \<longrightarrow>
     (\<exists>U. tlog st (fst (L ! i)) = Some U \<and> prefix (take (Suc i) L) U))"

definition invVote :: "('p, 'c) aState \<Rightarrow> bool" where
  "invVote st \<longleftrightarrow> (\<forall>s t c. vot st s t = Some c \<longrightarrow> t \<le> cur st s \<and> clog st c t \<noteq> None)"

definition invCand :: "('p, 'c) aState \<Rightarrow> bool" where
  "invCand st \<longleftrightarrow> (\<forall>s t C. clog st s t = Some C \<longrightarrow>
     1 \<le> t \<and> t \<le> cur st s \<and> wfLog C \<and> matches st C \<and> lterm C < t \<and> vot st s t = Some s)"

definition invLog :: "('p, 'c) aState \<Rightarrow> bool" where
  "invLog st \<longleftrightarrow> (\<forall>s. wfLog (alog st s) \<and> matches st (alog st s) \<and>
     lterm (alog st s) \<le> cur st s \<and> 0 \<le> cur st s)"

definition invLeader :: "('p set \<Rightarrow> bool) \<Rightarrow> ('p, 'c) aState \<Rightarrow> bool" where
  "invLeader Qm st \<longleftrightarrow> (\<forall>t L. tlog st t = Some L \<longrightarrow>
     wfLog L \<and> matches st L \<and> lterm L \<le> t \<and> 1 \<le> t \<and>
     (\<exists>s Q. ldr st t = Some s \<and> t \<le> cur st s \<and> (cur st s = t \<longrightarrow> alog st s = L) \<and>
        Qm Q \<and> (\<forall>q\<in>Q. vot st q t = Some s)))"

definition invLdr :: "('p, 'c) aState \<Rightarrow> bool" where
  "invLdr st \<longleftrightarrow> (\<forall>t s. ldr st t = Some s \<longrightarrow> tlog st t \<noteq> None)"

definition invAck :: "('p, 'c) aState \<Rightarrow> bool" where
  "invAck st \<longleftrightarrow> (\<forall>q t k. (q, t, k) \<in> acks st \<longrightarrow>
     t \<le> cur st q \<and> (\<exists>L. tlog st t = Some L \<and> k < length L))"

definition invAckLog :: "('p set \<Rightarrow> bool) \<Rightarrow> ('p, 'c) aState \<Rightarrow> bool" where
  "invAckLog Qm st \<longleftrightarrow> (\<forall>q t k. acked st q t k \<longrightarrow> entryAt st t k \<longrightarrow>
     safeAt Qm st t k (alog st q))"

definition invVoteLog :: "('p set \<Rightarrow> bool) \<Rightarrow> ('p, 'c) aState \<Rightarrow> bool" where
  "invVoteLog Qm st \<longleftrightarrow> (\<forall>q t' c C t k. vot st q t' = Some c \<longrightarrow> clog st c t' = Some C \<longrightarrow>
     t < t' \<longrightarrow> acked st q t k \<longrightarrow> entryAt st t k \<longrightarrow> safeAt Qm st t k C)"

definition invComplete :: "('p set \<Rightarrow> bool) \<Rightarrow> ('p, 'c) aState \<Rightarrow> bool" where
  "invComplete Qm st \<longleftrightarrow> (\<forall>t t' L' k. tlog st t' = Some L' \<longrightarrow> t < t' \<longrightarrow> entryAt st t k \<longrightarrow>
     safeAt Qm st t k L')"

definition aInv :: "('p set \<Rightarrow> bool) \<Rightarrow> ('p, 'c) aState \<Rightarrow> bool" where
  "aInv Qm st \<longleftrightarrow> invVote st \<and> invCand st \<and> invLog st \<and> invLeader Qm st \<and> invLdr st \<and>
     invAck st \<and> invAckLog Qm st \<and> invVoteLog Qm st \<and> invComplete Qm st"


section \<open>Logs\<close>

lemma lterm_nth: "L \<noteq> [] \<Longrightarrow> lterm L = fst (L ! (length L - 1))"
  by (simp add: last_conv_nth)

lemma wfLogD:
  assumes "wfLog L"
  shows "L \<noteq> []" and "L ! 0 = (-1, None)"
    and "\<And>i j. i \<le> j \<Longrightarrow> j < length L \<Longrightarrow> fst (L ! i) \<le> fst (L ! j)"
    and "\<And>i. i < length L \<Longrightarrow> 0 < i \<Longrightarrow> 1 \<le> fst (L ! i)"
  using assms unfolding wfLog_def by blast+

lemma wfLog_lterm: "wfLog L \<Longrightarrow> i < length L \<Longrightarrow> fst (L ! i) \<le> lterm L"
  using wfLogD(3)[of L i "length L - 1"] by (simp add: lterm_nth wfLogD(1))

lemma wfLog_long: "wfLog L \<Longrightarrow> 1 \<le> lterm L \<Longrightarrow> 1 < length L"
  using wfLogD(1,2)[of L] by (cases L) (auto simp: last_conv_nth split: if_splits)

lemma wfLog_prefix: "wfLog L \<Longrightarrow> prefix M L \<Longrightarrow> M \<noteq> [] \<Longrightarrow> wfLog M"
  unfolding wfLog_def using prefix_length_le[of M L] prefix_nth[of M L]
  by (auto simp: order_le_less_trans)

lemma wfLog_snoc:
  assumes wf: "wfLog L" and t: "lterm L \<le> t" "1 \<le> t"
  shows "wfLog (L @ [(t, d)])"
proof -
  have "fst ((L @ [(t, d)]) ! i) \<le> fst ((L @ [(t, d)]) ! j)"
    if "i \<le> j" "j < length (L @ [(t, d)])" for i j
    using that wfLogD(3)[OF wf, of i j] wfLog_lterm[OF wf, of i] t
    by (auto simp: nth_append split: if_splits)
  moreover have "1 \<le> fst ((L @ [(t, d)]) ! i)" if "i < length (L @ [(t, d)])" "0 < i" for i
    using that wfLogD(4)[OF wf, of i] t by (auto simp: nth_append)
  ultimately show ?thesis
    using wfLogD(1,2)[OF wf] unfolding wfLog_def by (simp add: nth_append)
qed

lemma matches_prefix:
  assumes m: "matches st L" and p: "prefix M L"
  shows "matches st M"
  unfolding matches_def
proof (intro allI impI)
  fix i assume i: "i < length M" "0 < i"
  then have "i < length L" using prefix_length_le[OF p] by simp
  moreover have "M ! i = L ! i" using prefix_nth[OF p i(1)] .
  moreover have "take (Suc i) M = take (Suc i) L" using take_prefix_mono[OF p] i(1) by simp
  ultimately show "\<exists>U. tlog st (fst (M ! i)) = Some U \<and> prefix (take (Suc i) M) U"
    using m i(2) unfolding matches_def by metis
qed

lemma matches_whole:
  assumes "wfLog L" "matches st L" "1 \<le> lterm L"
  obtains U where "tlog st (lterm L) = Some U" "prefix L U"
proof -
  have len: "1 < length L" using wfLog_long[OF assms(1,3)] .
  then have ne: "L \<noteq> []" and lt: "length L - 1 < length L" "0 < length L - 1" by auto
  from assms(2) lt obtain U where
    "tlog st (fst (L ! (length L - 1))) = Some U" "prefix (take (Suc (length L - 1)) L) U"
    unfolding matches_def by blast
  then show ?thesis using that[of U] len ne by (simp add: lterm_nth)
qed

section \<open>Growth\<close>

text \<open>What every step does to terms, leader logs and confirmations.\<close>

definition grows :: "('p, 'c) aState \<Rightarrow> ('p, 'c) aState \<Rightarrow> bool" where
  "grows st st' \<longleftrightarrow> (\<forall>q. cur st q \<le> cur st' q) \<and>
     (\<forall>t U. tlog st t = Some U \<longrightarrow> (\<exists>U'. tlog st' t = Some U' \<and> prefix U U')) \<and>
     (\<forall>q t k. (q, t, k) \<in> acks st' \<longrightarrow> (q, t, k) \<in> acks st \<or> cur st q \<le> t)"

lemma grows_cur: "grows st st' \<Longrightarrow> cur st q \<le> cur st' q"
  and grows_acks: "grows st st' \<Longrightarrow> (q, t, k) \<in> acks st' \<Longrightarrow> (q, t, k) \<in> acks st \<or> cur st q \<le> t"
  by (auto simp: grows_def)

lemma grows_tlog:
  assumes "grows st st'" "tlog st t = Some U"
  obtains U' where "tlog st' t = Some U'" "prefix U U'"
  using assms unfolding grows_def by blast

lemma matches_grows: "grows st st' \<Longrightarrow> matches st L \<Longrightarrow> matches st' L"
  unfolding matches_def by (meson grows_tlog prefix_order.trans)

lemma doomed_grows:
  assumes g: "grows st st'" and d: "doomed Qm st t k"
  shows "doomed Qm st' t k"
proof -
  from d obtain Q where Q: "Qm Q" "\<And>q. q \<in> Q \<Longrightarrow> t < cur st q \<and> \<not> acked st q t k"
    unfolding doomed_def by blast
  have "t < cur st' q \<and> \<not> acked st' q t k" if "q \<in> Q" for q
    using Q(2)[OF that] grows_cur[OF g, of q] grows_acks[OF g, of q t]
    unfolding acked_def by fastforce
  with Q(1) show ?thesis unfolding doomed_def by blast
qed

lemma safeAt_grows:
  assumes g: "grows st st'" and e: "entryAt st t k" and s: "safeAt Qm st t k X"
    and p: "prefix X X'"
  shows "safeAt Qm st' t k X'"
proof (cases "doomed Qm st t k")
  case True
  then show ?thesis using doomed_grows[OF g] unfolding safeAt_def by blast
next
  case False
  from e obtain L where L: "tlog st t = Some L" "k < length L" unfolding entryAt_def by blast
  from grows_tlog[OF g L(1)] obtain L' where L': "tlog st' t = Some L'" "prefix L L'" .
  have "prefix (take (Suc k) L) X" using False s L(1) unfolding safeAt_def by blast
  moreover have "take (Suc k) L = take (Suc k) L'"
    using take_prefix_mono[OF L'(2)] L(2) by auto
  ultimately show ?thesis using p L'(1) unfolding safeAt_def by (metis option.inject prefix_order.trans)
qed

lemma safeAt_prefix: "safeAt Qm st t k X \<Longrightarrow> prefix X Y \<Longrightarrow> safeAt Qm st t k Y"
  unfolding safeAt_def by (meson prefix_order.trans)

text \<open>A log whose last term is later than an entry's reaches as far as the entry, when its term's leader log has the entry.\<close>

lemma later_log_reaches:
  assumes C: "wfLog C" "prefix C U" and L: "wfLog L" "k < length L" "fst (L ! k) < lterm C"
    and p: "prefix (take (Suc k) L) U"
  shows "prefix (take (Suc k) L) C"
proof -
  have "k < length C"
  proof (rule ccontr)
    assume "\<not> k < length C"
    then have le: "length C - 1 \<le> k" and lt: "length C - 1 < length C"
      using wfLogD(1)[OF C(1)] by auto
    have "C ! (length C - 1) = L ! (length C - 1)"
      using prefix_nth[OF C(2) lt] prefix_nth[OF p, of "length C - 1"] le L(2) by simp
    then have "lterm C \<le> fst (L ! k)"
      using wfLogD(3)[OF L(1) le L(2)] by (simp add: lterm_nth wfLogD(1)[OF C(1)])
    then show False using L(3) by simp
  qed
  then show ?thesis using p C(2) by (auto intro: prefix_comparable)
qed

text \<open>An up-to-date candidate log inherits what a voter's log has: the argument behind Raft's
  election restriction.\<close>

lemma safeAt_upToDate:
  assumes C: "wfLog C" "matches st C" and X: "wfLog X" "matches st X"
    and up: "upToDate C X" and cp: "invComplete Qm st" and ldr: "invLeader Qm st"
    and e: "entryAt st t k" and s: "safeAt Qm st t k X"
  shows "safeAt Qm st t k C"
proof (cases "doomed Qm st t k")
  case True
  then show ?thesis unfolding safeAt_def by blast
next
  case nd: False
  from e obtain L where L: "tlog st t = Some L" "k < length L" "fst (L ! k) = t"
    unfolding entryAt_def by blast
  have wfL: "wfLog L" and t: "1 \<le> t" using ldr L(1) unfolding invLeader_def by blast+
  have pX: "prefix (take (Suc k) L) X" using nd s L(1) unfolding safeAt_def by blast
  then have kX: "k < length X" using L(2) prefix_length_le by fastforce
  have "X ! k = L ! k" using prefix_nth[OF pX, of k] L(2) by simp
  then have tX: "t \<le> lterm X" using wfLog_lterm[OF X(1) kX] L(3) by simp
  then have "1 \<le> lterm X" using t by simp
  then obtain UX where UX: "tlog st (lterm X) = Some UX" "prefix X UX"
    using matches_whole[OF X] by blast
  have uC: "lterm X \<le> lterm C" using up unfolding upToDate_def by auto
  then have "1 \<le> lterm C" using \<open>1 \<le> lterm X\<close> by simp
  then obtain UC where UC: "tlog st (lterm C) = Some UC" "prefix C UC"
    using matches_whole[OF C] by blast
  show ?thesis
  proof (cases "lterm C = lterm X")
    case True
    then have "length X \<le> length C" using up unfolding upToDate_def by auto
    moreover have "UX = UC" using UX(1) UC(1) True by simp
    ultimately have "prefix X C" using prefix_comparable[of X UC C] UX(2) UC(2) by blast
    then show ?thesis using safeAt_prefix s by blast
  next
    case False
    then have less: "t < lterm C" using uC tX by simp
    then have "safeAt Qm st t k UC" using cp UC(1) e unfolding invComplete_def by blast
    then have pU: "prefix (take (Suc k) L) UC" using nd L(1) unfolding safeAt_def by blast
    have "prefix (take (Suc k) L) C" by (rule later_log_reaches[OF C(1) UC(2) wfL L(2) _ pU]) (use L(3) less in simp)
    then show ?thesis using L(1) unfolding safeAt_def by simp
  qed
qed


section \<open>Every step keeps the invariants\<close>

lemma aInvD:
  assumes "aInv Qm st"
  shows "invVote st" "invCand st" "invLog st" "invLeader Qm st" "invLdr st"
    "invAck st" "invAckLog Qm st" "invVoteLog Qm st" "invComplete Qm st"
  using assms by (auto simp: aInv_def)

lemma invVoteD: "invVote st \<Longrightarrow> vot st s t = Some c \<Longrightarrow> t \<le> cur st s \<and> clog st c t \<noteq> None"
  by (simp add: invVote_def)

lemma invCandD:
  assumes "invCand st" "clog st s t = Some C"
  shows "1 \<le> t" "t \<le> cur st s" "wfLog C" "matches st C" "lterm C < t" "vot st s t = Some s"
  using assms by (auto simp: invCand_def)

lemma invLogD:
  assumes "invLog st"
  shows "wfLog (alog st s)" "matches st (alog st s)" "lterm (alog st s) \<le> cur st s" "0 \<le> cur st s"
  using assms by (auto simp: invLog_def)

lemma invLeaderD:
  assumes "invLeader Qm st" "tlog st t = Some L"
  shows "wfLog L" "matches st L" "lterm L \<le> t" "1 \<le> t"
  using assms by (auto simp: invLeader_def)

lemma invLeaderE:
  assumes "invLeader Qm st" "tlog st t = Some L"
  obtains s Q where "ldr st t = Some s" "t \<le> cur st s" "cur st s = t \<Longrightarrow> alog st s = L"
    "Qm Q" "\<And>q. q \<in> Q \<Longrightarrow> vot st q t = Some s"
  using assms unfolding invLeader_def by blast

text \<open>The log of a sitting leader is the leader log of its term.\<close>

lemma leader_log:
  assumes "invLeader Qm st" "invLdr st" "ldr st (cur st s) = Some s"
  shows "tlog st (cur st s) = Some (alog st s)"
proof -
  from assms obtain L where L: "tlog st (cur st s) = Some L" unfolding invLdr_def by blast
  with invLeaderE[OF assms(1) L] assms(3) show ?thesis by (metis option.inject)
qed

lemma entryAt_cong: "tlog st' = tlog st \<Longrightarrow> entryAt st' = entryAt st"
  by (simp add: entryAt_def fun_eq_iff)

lemma acked_cong: "acks st' = acks st \<Longrightarrow> acked st' = acked st"
  by (simp add: acked_def fun_eq_iff)

lemma matches_cong: "tlog st' = tlog st \<Longrightarrow> matches st' = matches st"
  by (simp add: matches_def fun_eq_iff)

subsection \<open>Steps that leave the invariant's other parts alone\<close>

lemma frame_invLog:
  assumes g: "grows st st'" and e: "alog st' = alog st" and i: "invLog st"
  shows "invLog st'"
  unfolding invLog_def
proof
  fix s show "wfLog (alog st' s) \<and> matches st' (alog st' s) \<and>
      lterm (alog st' s) \<le> cur st' s \<and> 0 \<le> cur st' s"
    using invLogD[OF i, of s] grows_cur[OF g, of s] matches_grows[OF g] by (simp add: e)
qed

lemma frame_invAck:
  assumes g: "grows st st'" and e: "acks st' = acks st" and i: "invAck st"
  shows "invAck st'"
  unfolding invAck_def
proof (intro allI impI)
  fix q t k assume "(q, t, k) \<in> acks st'"
  then obtain L where L: "tlog st t = Some L" "k < length L" "t \<le> cur st q"
    using i e unfolding invAck_def by blast
  from grows_tlog[OF g L(1)] obtain L' where L': "tlog st' t = Some L'" "prefix L L'" .
  then have "k < length L'" using L(2) prefix_length_le[OF L'(2)] by simp
  then show "t \<le> cur st' q \<and> (\<exists>L. tlog st' t = Some L \<and> k < length L)"
    using L(3) grows_cur[OF g, of q] L'(1) by auto
qed

lemma frame_invAckLog:
  assumes g: "grows st st'" and e: "tlog st' = tlog st" "acks st' = acks st" "alog st' = alog st"
    and i: "invAckLog Qm st"
  shows "invAckLog Qm st'"
  unfolding invAckLog_def
proof (intro allI impI)
  fix q t k assume "acked st' q t k" "entryAt st' t k"
  then have a: "acked st q t k" and t: "entryAt st t k"
    by (simp_all add: acked_cong[OF e(2)] entryAt_cong[OF e(1)])
  then have "safeAt Qm st t k (alog st q)" using i unfolding invAckLog_def by blast
  then show "safeAt Qm st' t k (alog st' q)" using safeAt_grows[OF g t] e(3) by simp
qed

lemma frame_invComplete:
  assumes g: "grows st st'" and e: "tlog st' = tlog st" and i: "invComplete Qm st"
  shows "invComplete Qm st'"
  unfolding invComplete_def
proof (intro allI impI)
  fix t t' L' k assume L: "tlog st' t' = Some L'" "t < t'" and "entryAt st' t k"
  then have t: "entryAt st t k" by (simp add: entryAt_cong[OF e])
  then have "safeAt Qm st t k L'" using i L e unfolding invComplete_def by simp
  then show "safeAt Qm st' t k L'" using safeAt_grows[OF g t] by simp
qed

lemma frame_invLdr: "tlog st' = tlog st \<Longrightarrow> ldr st' = ldr st \<Longrightarrow> invLdr st \<Longrightarrow> invLdr st'"
  by (simp add: invLdr_def)

text \<open>Leader logs are untouched, votes are only added, and a sitting leader keeps its log.\<close>

lemma frame_invLeader:
  assumes g: "grows st st'" and e: "tlog st' = tlog st" "ldr st' = ldr st" and i: "invLeader Qm st"
    and v: "\<And>q t c. vot st q t = Some c \<Longrightarrow> vot st' q t = Some c"
    and l: "\<And>p t. ldr st t = Some p \<Longrightarrow> cur st' p = t \<Longrightarrow> t \<le> cur st p \<Longrightarrow>
              cur st p = t \<and> (tlog st t = Some (alog st p) \<longrightarrow> alog st' p = alog st p)"
  shows "invLeader Qm st'"
  unfolding invLeader_def
proof (intro allI impI)
  fix u L assume "tlog st' u = Some L"
  then have L: "tlog st u = Some L" by (simp add: e)
  from invLeaderE[OF i L] obtain p Q where
    p: "ldr st u = Some p" "u \<le> cur st p" "cur st p = u \<Longrightarrow> alog st p = L"
      "Qm Q" "\<And>q. q \<in> Q \<Longrightarrow> vot st q u = Some p" by blast
  have "cur st' p = u \<longrightarrow> alog st' p = L" using p(1-3) l[of u p] L by auto
  moreover have "u \<le> cur st' p" using p(2) grows_cur[OF g] order_trans by blast
  ultimately show "wfLog L \<and> matches st' L \<and> lterm L \<le> u \<and> 1 \<le> u \<and>
     (\<exists>s Q. ldr st' u = Some s \<and> u \<le> cur st' s \<and> (cur st' s = u \<longrightarrow> alog st' s = L) \<and>
        Qm Q \<and> (\<forall>q\<in>Q. vot st' q u = Some s))"
    using invLeaderD[OF i L] p(1,4) v p(5) e(2) matches_grows[OF g] by metis
qed

subsection \<open>Timeout, new term, vote\<close>

lemma aTimeout_eqs:
  "tlog (aTimeout s st) = tlog st" "acks (aTimeout s st) = acks st" "alog (aTimeout s st) = alog st"
  "ldr (aTimeout s st) = ldr st" "cur (aTimeout s st) = (cur st)(s := cur st s + 1)"
  "vot (aTimeout s st) = (vot st)(s := (vot st s)(cur st s + 1 := Some s))"
  "clog (aTimeout s st) = (clog st)(s := (clog st s)(cur st s + 1 := Some (alog st s)))"
  by (simp_all add: aTimeout_def Let_def)

lemma aTimeout_grows: "grows st (aTimeout s st)"
  by (auto simp: grows_def aTimeout_eqs)

text \<open>Nobody has voted or asked for votes in the term after a server's own on its behalf.\<close>

lemma next_term_fresh:
  assumes "invVote st" "invCand st"
  shows "vot st s (cur st s + 1) = None" "clog st s (cur st s + 1) = None"
    "vot st q (cur st s + 1) \<noteq> Some s"
proof -
  show "vot st s (cur st s + 1) = None" using invVoteD[OF assms(1), of s "cur st s + 1"] by force
  show c: "clog st s (cur st s + 1) = None" using invCandD(2)[OF assms(2), of s "cur st s + 1"] by force
  show "vot st q (cur st s + 1) \<noteq> Some s" using invVoteD[OF assms(1), of q "cur st s + 1" s] c by auto
qed

lemma aTimeout_invVote:
  assumes i: "invVote st"
  shows "invVote (aTimeout s st)"
  unfolding invVote_def
proof (intro allI impI)
  fix q u c assume v: "vot (aTimeout s st) q u = Some c"
  show "u \<le> cur (aTimeout s st) q \<and> clog (aTimeout s st) c u \<noteq> None"
  proof (cases "q = s \<and> u = cur st s + 1")
    case True
    then show ?thesis using v by (simp add: aTimeout_eqs)
  next
    case False
    then have "vot st q u = Some c" using v by (auto simp: aTimeout_eqs split: if_splits)
    from invVoteD[OF i this] show ?thesis by (auto simp: aTimeout_eqs)
  qed
qed

lemma aTimeout_invCand:
  assumes i: "invCand st" and l: "invLog st"
  shows "invCand (aTimeout s st)"
  unfolding invCand_def
proof (intro allI impI)
  fix q u C assume "clog (aTimeout s st) q u = Some C"
  then consider "q = s" "u = cur st s + 1" "C = alog st s"
    | "(q, u) \<noteq> (s, cur st s + 1)" "clog st q u = Some C"
    by (auto simp: aTimeout_eqs split: if_splits)
  then show "1 \<le> u \<and> u \<le> cur (aTimeout s st) q \<and> wfLog C \<and> matches (aTimeout s st) C \<and>
      lterm C < u \<and> vot (aTimeout s st) q u = Some q"
  proof cases
    case 1
    then show ?thesis using invLogD[OF l, of s] matches_grows[OF aTimeout_grows] by (simp add: aTimeout_eqs)
  next
    case 2
    then show ?thesis using invCandD[OF i 2(2)] matches_grows[OF aTimeout_grows] by (auto simp: aTimeout_eqs)
  qed
qed

lemma aTimeout_invVoteLog:
  assumes inv: "aInv Qm st"
  shows "invVoteLog Qm (aTimeout s st)"
  unfolding invVoteLog_def
proof (intro allI impI)
  note I = aInvD[OF inv]
  fix q t' c C u k
  assume v: "vot (aTimeout s st) q t' = Some c" and C: "clog (aTimeout s st) c t' = Some C" and u: "u < t'"
    and "acked (aTimeout s st) q u k" and "entryAt (aTimeout s st) u k"
  then have a: "acked st q u k" and e: "entryAt st u k"
    by (simp_all add: acked_cong[OF aTimeout_eqs(2)] entryAt_cong[OF aTimeout_eqs(1)])
  have "safeAt Qm st u k C"
  proof (cases "q = s \<and> t' = cur st s + 1")
    case True
    then have "C = alog st s" using v C by (simp add: aTimeout_eqs)
    then show ?thesis using I(7) a e True unfolding invAckLog_def by simp
  next
    case False
    then have v': "vot st q t' = Some c" using v by (auto simp: aTimeout_eqs split: if_splits)
    then have "clog st c t' = Some C"
      using C next_term_fresh(3)[OF I(1,2), of q s] by (auto simp: aTimeout_eqs split: if_splits)
    then show ?thesis using I(8) v' u a e unfolding invVoteLog_def by blast
  qed
  then show "safeAt Qm (aTimeout s st) u k C" using safeAt_grows[OF aTimeout_grows e] by blast
qed

lemma aTimeout_inv:
  assumes inv: "aInv Qm st"
  shows "aInv Qm (aTimeout s st)"
proof -
  note I = aInvD[OF inv] and g = aTimeout_grows[of st s] and eqs = aTimeout_eqs[of s st]
  have "invLeader Qm (aTimeout s st)"
    by (rule frame_invLeader[OF g eqs(1,4) I(4)]) (use next_term_fresh(1)[OF I(1,2), of s] in \<open>auto simp: eqs\<close>)
  then show ?thesis
    using aTimeout_invVote[OF I(1)] aTimeout_invCand[OF I(2,3)] frame_invLog[OF g eqs(3) I(3)]
      frame_invLdr[OF eqs(1,4) I(5)] frame_invAck[OF g eqs(2) I(6)] frame_invAckLog[OF g eqs(1-3) I(7)]
      aTimeout_invVoteLog[OF inv] frame_invComplete[OF g eqs(1) I(9)]
    unfolding aInv_def by blast
qed

lemma aTerm_inv:
  assumes inv: "aInv Qm st" and less: "cur st s < t"
  shows "aInv Qm (aTerm s t st)"
proof -
  define st' where "st' = aTerm s t st"
  note I = aInvD[OF inv]
  have eqs: "tlog st' = tlog st" "acks st' = acks st" "alog st' = alog st" "ldr st' = ldr st"
    "cur st' = (cur st)(s := t)" "vot st' = vot st" "clog st' = clog st"
    by (simp_all add: st'_def aTerm_def)
  have g: "grows st st'" using less by (auto simp: grows_def eqs)
  note gc = grows_cur[OF g]
  have 1: "invVote st'" using I(1) gc unfolding invVote_def by (metis eqs(6,7) order_trans)
  have 2: "invCand st'"
    unfolding invCand_def
  proof (intro allI impI)
    fix q u C assume "clog st' q u = Some C"
    then show "1 \<le> u \<and> u \<le> cur st' q \<and> wfLog C \<and> matches st' C \<and> lterm C < u \<and>
        vot st' q u = Some q"
      using invCandD[OF I(2), of q u C] gc[of q] matches_grows[OF g] eqs(6,7) by simp
  qed
  have 3: "invLog st'" by (rule frame_invLog[OF g eqs(3) I(3)])
  have 4: "invLeader Qm st'"
    by (rule frame_invLeader[OF g eqs(1,4) I(4)]) (use less in \<open>auto simp: eqs split: if_splits\<close>)
  have 8: "invVoteLog Qm st'"
    unfolding invVoteLog_def eqs(6,7) acked_cong[OF eqs(2)] entryAt_cong[OF eqs(1)]
    using I(8) safeAt_grows[OF g] unfolding invVoteLog_def by blast
  show ?thesis
    using 1 2 3 4 8 frame_invLdr[OF eqs(1,4) I(5)] frame_invAck[OF g eqs(2) I(6)]
      frame_invAckLog[OF g eqs(1-3) I(7)] frame_invComplete[OF g eqs(1) I(9)]
    unfolding aInv_def st'_def by blast
qed

lemma aVote_eqs:
  "tlog (aVote s c st) = tlog st" "acks (aVote s c st) = acks st" "alog (aVote s c st) = alog st"
  "ldr (aVote s c st) = ldr st" "cur (aVote s c st) = cur st"
  "vot (aVote s c st) = (vot st)(s := (vot st s)(cur st s := Some c))" "clog (aVote s c st) = clog st"
  by (simp_all add: aVote_def)

lemma aVote_grows: "grows st (aVote s c st)"
  by (auto simp: grows_def aVote_eqs)

lemma aVote_invVoteLog:
  assumes inv: "aInv Qm st" and C: "clog st c (cur st s) = Some C" and up: "upToDate C (alog st s)"
  shows "invVoteLog Qm (aVote s c st)"
  unfolding invVoteLog_def
proof (intro allI impI)
  note I = aInvD[OF inv]
  fix q t' d D u k
  assume v: "vot (aVote s c st) q t' = Some d" and D: "clog (aVote s c st) d t' = Some D" and u: "u < t'"
    and "acked (aVote s c st) q u k" and "entryAt (aVote s c st) u k"
  then have a: "acked st q u k" and e: "entryAt st u k"
    by (simp_all add: acked_cong[OF aVote_eqs(2)] entryAt_cong[OF aVote_eqs(1)])
  have "safeAt Qm st u k D"
  proof (cases "q = s \<and> t' = cur st s")
    case True
    then have [simp]: "D = C" using v D C by (simp add: aVote_eqs)
    have "safeAt Qm st u k (alog st s)" using I(7) a e True unfolding invAckLog_def by simp
    then show ?thesis
      using safeAt_upToDate[OF invCandD(3,4)[OF I(2) C] invLogD(1,2)[OF I(3)] up I(9,4) e] by simp
  next
    case False
    then have "vot st q t' = Some d" using v by (auto simp: aVote_eqs split: if_splits)
    then show ?thesis using I(8) D u a e unfolding invVoteLog_def aVote_eqs(7) by blast
  qed
  then show "safeAt Qm (aVote s c st) u k D" using safeAt_grows[OF aVote_grows e] by blast
qed

lemma aVote_inv:
  assumes inv: "aInv Qm st" and none: "vot st s (cur st s) = None"
    and C: "clog st c (cur st s) = Some C" and up: "upToDate C (alog st s)"
  shows "aInv Qm (aVote s c st)"
proof -
  note I = aInvD[OF inv] and g = aVote_grows[of st s c] and eqs = aVote_eqs[of s c st]
  have 1: "invVote (aVote s c st)" using I(1) C unfolding invVote_def eqs by auto
  have 2: "invCand (aVote s c st)"
    unfolding invCand_def
  proof (intro allI impI)
    fix q u D assume "clog (aVote s c st) q u = Some D"
    then show "1 \<le> u \<and> u \<le> cur (aVote s c st) q \<and> wfLog D \<and> matches (aVote s c st) D \<and> lterm D < u \<and>
        vot (aVote s c st) q u = Some q"
      using invCandD[OF I(2), of q u D] matches_grows[OF g] none by (auto simp: eqs)
  qed
  have 4: "invLeader Qm (aVote s c st)"
    by (rule frame_invLeader[OF g eqs(1,4) I(4)]) (use none in \<open>auto simp: eqs\<close>)
  show ?thesis
    using 1 2 4 frame_invLog[OF g eqs(3) I(3)] frame_invLdr[OF eqs(1,4) I(5)] frame_invAck[OF g eqs(2) I(6)]
      frame_invAckLog[OF g eqs(1-3) I(7)] aVote_invVoteLog[OF inv C up] frame_invComplete[OF g eqs(1) I(9)]
    unfolding aInv_def by blast
qed

subsection \<open>Election\<close>

lemma aElect_eqs:
  "tlog (aElect s st) = (tlog st)(cur st s := Some (alog st s))"
  "acks (aElect s st) = insert (s, cur st s, length (alog st s) - 1) (acks st)"
  "alog (aElect s st) = alog st" "ldr (aElect s st) = (ldr st)(cur st s := Some s)"
  "cur (aElect s st) = cur st" "vot (aElect s st) = vot st" "clog (aElect s st) = clog st"
  by (simp_all add: aElect_def)

lemma aElect_grows: "tlog st (cur st s) = None \<Longrightarrow> grows st (aElect s st)"
  by (auto simp: grows_def aElect_eqs)

text \<open>The log of a new leader has no entry of its term yet.\<close>

lemma aElect_entryAt:
  assumes inv: "aInv Qm st" and cand: "clog st s (cur st s) = Some (alog st s)"
    and e: "entryAt (aElect s st) u k"
  shows "entryAt st u k \<and> u \<noteq> cur st s"
proof -
  note cd = invCandD[OF aInvD(2)[OF inv] cand]
  have "u \<noteq> cur st s"
  proof
    assume "u = cur st s"
    then have "k < length (alog st s)" "fst (alog st s ! k) = cur st s"
      using e by (auto simp: entryAt_def aElect_eqs)
    then show False using wfLog_lterm[OF cd(3)] cd(5) by fastforce
  qed
  then show ?thesis using e by (auto simp: entryAt_def aElect_eqs)
qed

lemma aElect_acked: "acked (aElect s st) q u k \<Longrightarrow> u \<noteq> cur st s \<Longrightarrow> acked st q u k"
  by (auto simp: acked_def aElect_eqs)

lemma aElect_invLeader:
  assumes inv: "aInv Qm st" and cand: "clog st s (cur st s) = Some (alog st s)"
    and none: "tlog st (cur st s) = None" and Q: "Qm Q" "\<forall>q\<in>Q. vot st q (cur st s) = Some s"
  shows "invLeader Qm (aElect s st)"
  unfolding invLeader_def
proof (intro allI impI)
  note I = aInvD[OF inv] and mg = matches_grows[OF aElect_grows[OF none]]
  fix u L assume L: "tlog (aElect s st) u = Some L"
  show "wfLog L \<and> matches (aElect s st) L \<and> lterm L \<le> u \<and> 1 \<le> u \<and>
     (\<exists>p Q. ldr (aElect s st) u = Some p \<and> u \<le> cur (aElect s st) p \<and>
        (cur (aElect s st) p = u \<longrightarrow> alog (aElect s st) p = L) \<and> Qm Q \<and> (\<forall>q\<in>Q. vot (aElect s st) q u = Some p))"
  proof (cases "u = cur st s")
    case True
    then have "L = alog st s" using L by (simp add: aElect_eqs)
    then show ?thesis
      using True invCandD[OF I(2) cand] mg Q by (auto simp: aElect_eqs)
  next
    case False
    then have L': "tlog st u = Some L" using L by (simp add: aElect_eqs)
    from invLeaderE[OF I(4) L'] obtain p Q where
      p: "ldr st u = Some p" "u \<le> cur st p" "cur st p = u \<Longrightarrow> alog st p = L"
        "Qm Q" "\<And>q. q \<in> Q \<Longrightarrow> vot st q u = Some p" by blast
    then show ?thesis using invLeaderD[OF I(4) L'] mg False by (auto simp: aElect_eqs)
  qed
qed

text \<open>A quorum has voted for the new leader's log: either a voter has confirmed an earlier entry, which the log then has, or
  the voters keep the entry from being confirmed by a quorum.\<close>

lemma elected_log_safe:
  assumes inv: "aInv Qm st" and cand: "clog st s (cur st s) = Some (alog st s)"
    and Q: "Qm Q" "\<forall>q\<in>Q. vot st q (cur st s) = Some s" and u: "u < cur st s" "entryAt st u k"
  shows "safeAt Qm st u k (alog st s)"
proof (cases "\<exists>q\<in>Q. acked st q u k")
  case True
  then show ?thesis using aInvD(8)[OF inv] Q cand u unfolding invVoteLog_def by blast
next
  case False
  have "cur st s \<le> cur st q" if "q \<in> Q" for q
    using invVoteD[OF aInvD(1)[OF inv], of q "cur st s" s] Q(2) that by simp
  then show ?thesis using False Q(1) u(1) unfolding safeAt_def doomed_def by force
qed

lemma aElect_invComplete:
  assumes inv: "aInv Qm st" and cand: "clog st s (cur st s) = Some (alog st s)"
    and none: "tlog st (cur st s) = None" and Q: "Qm Q" "\<forall>q\<in>Q. vot st q (cur st s) = Some s"
  shows "invComplete Qm (aElect s st)"
  unfolding invComplete_def
proof (intro allI impI)
  fix u t' L' k assume L: "tlog (aElect s st) t' = Some L'" and u: "u < t'" and e: "entryAt (aElect s st) u k"
  note e' = aElect_entryAt[OF inv cand e]
  have "safeAt Qm st u k L'"
  proof (cases "t' = cur st s")
    case False
    then show ?thesis using aInvD(9)[OF inv] L u e' unfolding invComplete_def aElect_eqs by auto
  next
    case True
    then show ?thesis using L elected_log_safe[OF inv cand Q, of u k] u e' by (simp add: aElect_eqs)
  qed
  then show "safeAt Qm (aElect s st) u k L'" using safeAt_grows[OF aElect_grows[OF none]] e' by auto
qed

lemma aElect_invLogs:
  assumes inv: "aInv Qm st" and cand: "clog st s (cur st s) = Some (alog st s)"
    and none: "tlog st (cur st s) = None"
  shows "invAckLog Qm (aElect s st)" "invVoteLog Qm (aElect s st)"
proof -
  note I = aInvD[OF inv] and sg = safeAt_grows[OF aElect_grows[OF none]]
    and e' = aElect_entryAt[OF inv cand] and a' = aElect_acked[of s st]
  show "invAckLog Qm (aElect s st)"
    unfolding invAckLog_def
  proof (intro allI impI)
    fix q u k assume a: "acked (aElect s st) q u k" and e: "entryAt (aElect s st) u k"
    then have "safeAt Qm st u k (alog st q)" using I(7) e'[OF e] a' unfolding invAckLog_def by blast
    then show "safeAt Qm (aElect s st) u k (alog (aElect s st) q)" using sg e'[OF e] by (simp add: aElect_eqs(3))
  qed
  show "invVoteLog Qm (aElect s st)"
    unfolding invVoteLog_def aElect_eqs(6,7)
  proof (intro allI impI)
    fix q t' c C u k
    assume v: "vot st q t' = Some c" "clog st c t' = Some C" "u < t'"
      and a: "acked (aElect s st) q u k" and e: "entryAt (aElect s st) u k"
    then have "safeAt Qm st u k C" using I(8) e'[OF e] a' unfolding invVoteLog_def by blast
    then show "safeAt Qm (aElect s st) u k C" using sg e'[OF e] by auto
  qed
qed

lemma aElect_inv:
  assumes inv: "aInv Qm st" and cand: "clog st s (cur st s) = Some (alog st s)"
    and none: "tlog st (cur st s) = None" and Q: "Qm Q" and
    votes: "\<forall>q\<in>Q. vot st q (cur st s) = Some s"
  shows "aInv Qm (aElect s st)"
proof -
  note I = aInvD[OF inv] and g = aElect_grows[OF none] and eqs = aElect_eqs[of s st]
  have 1: "invVote (aElect s st)" using I(1) unfolding invVote_def eqs .
  have 2: "invCand (aElect s st)"
    using I(2) matches_grows[OF g] unfolding invCand_def eqs(5-7) by blast
  have 5: "invLdr (aElect s st)" using I(5) by (auto simp: invLdr_def eqs)
  have noack: "(q, cur st s, k) \<notin> acks st" for q k using I(6) none unfolding invAck_def by force
  have 6: "invAck (aElect s st)"
    using I(6) wfLogD(1)[OF invCandD(3)[OF I(2) cand]] noack unfolding invAck_def eqs by auto
  show ?thesis
    using 1 2 frame_invLog[OF g eqs(3) I(3)] aElect_invLeader[OF inv cand none Q votes] 5 6
      aElect_invLogs[OF inv cand none] aElect_invComplete[OF inv cand none Q votes]
    unfolding aInv_def by blast
qed

subsection \<open>Append\<close>

lemma aAppend_eqs:
  "tlog (aAppend s d st) = (tlog st)(cur st s := Some (alog st s @ [(cur st s, d)]))"
  "acks (aAppend s d st) = insert (s, cur st s, length (alog st s)) (acks st)"
  "alog (aAppend s d st) = (alog st)(s := alog st s @ [(cur st s, d)])"
  "ldr (aAppend s d st) = ldr st" "cur (aAppend s d st) = cur st" "vot (aAppend s d st) = vot st"
  "clog (aAppend s d st) = clog st"
  by (simp_all add: aAppend_def Let_def)

lemma aAppend_grows:
  assumes "tlog st (cur st s) = Some (alog st s)"
  shows "grows st (aAppend s d st)"
  using assms by (auto simp: grows_def aAppend_eqs)

lemma aAppend_log:
  assumes inv: "aInv Qm st" and old: "tlog st (cur st s) = Some (alog st s)"
  shows "wfLog (alog st s @ [(cur st s, d)])" "matches (aAppend s d st) (alog st s @ [(cur st s, d)])"
proof -
  note I = aInvD[OF inv]
  let ?L = "alog st s @ [(cur st s, d)]"
  show "wfLog ?L" by (rule wfLog_snoc[OF invLogD(1,3)[OF I(3)] invLeaderD(4)[OF I(4) old]])
  show "matches (aAppend s d st) ?L"
    unfolding matches_def
  proof (intro allI impI)
    fix i assume i: "i < length ?L" "0 < i"
    show "\<exists>U. tlog (aAppend s d st) (fst (?L ! i)) = Some U \<and> prefix (take (Suc i) ?L) U"
    proof (cases "i < length (alog st s)")
      case True
      then show ?thesis
        using matches_grows[OF aAppend_grows[OF old, of d] invLogD(2)[OF I(3), of s]] i(2)
        unfolding matches_def by (auto simp: nth_append)
    next
      case False
      then show ?thesis using i by (simp add: aAppend_eqs nth_append less_Suc_eq)
    qed
  qed
qed

lemma aAppend_entryAt:
  "tlog st (cur st s) = Some (alog st s) \<Longrightarrow> entryAt (aAppend s d st) u k \<Longrightarrow>
   entryAt st u k \<or> u = cur st s \<and> k = length (alog st s)"
  by (auto simp: entryAt_def aAppend_eqs nth_append split: if_splits)

lemma aAppend_acked: "acked (aAppend s d st) q u k \<Longrightarrow> acked st q u k \<or> q = s \<and> u = cur st s"
  by (auto simp: acked_def aAppend_eqs)

text \<open>A confirmation that was there before is of a position that was there before.\<close>

lemma acked_within:
  "invAck st \<Longrightarrow> tlog st t = Some L \<Longrightarrow> acked st q t k \<Longrightarrow> k < length L"
  unfolding invAck_def acked_def by fastforce

lemma aAppend_old:
  assumes "invAck st" "tlog st (cur st s) = Some (alog st s)" "acked (aAppend s d st) q u k"
    "entryAt (aAppend s d st) u k" "\<not> (q = s \<and> u = cur st s)"
  shows "acked st q u k" "entryAt st u k"
proof -
  show a: "acked st q u k" using aAppend_acked[OF assms(3)] assms(5) by blast
  show "entryAt st u k" using aAppend_entryAt[OF assms(2,4)] acked_within[OF assms(1,2), of q k] a by auto
qed

lemma aAppend_invLeader:
  assumes inv: "aInv Qm st" and ld: "ldr st (cur st s) = Some s"
    and old: "tlog st (cur st s) = Some (alog st s)"
  shows "invLeader Qm (aAppend s d st)"
  unfolding invLeader_def
proof (intro allI impI)
  note I = aInvD[OF inv] and eqs = aAppend_eqs[of s d st]
  fix u M assume M: "tlog (aAppend s d st) u = Some M"
  obtain M0 where M0: "tlog st u = Some M0" using M old by (auto simp: eqs split: if_splits)
  from invLeaderE[OF I(4) M0] obtain p Q where
    p: "ldr st u = Some p" "u \<le> cur st p" "cur st p = u \<Longrightarrow> alog st p = M0"
      "Qm Q" "\<And>q. q \<in> Q \<Longrightarrow> vot st q u = Some p" by blast
  have "wfLog M \<and> matches (aAppend s d st) M \<and> lterm M \<le> u \<and> 1 \<le> u"
    using M invLeaderD[OF I(4) M0] aAppend_log[OF inv old, of d] matches_grows[OF aAppend_grows[OF old, of d]] M0
    by (auto simp: eqs split: if_splits)
  moreover have "cur st p = u \<longrightarrow> alog (aAppend s d st) p = M"
    using p(1,3) ld M M0 by (auto simp: eqs split: if_splits)
  ultimately show "wfLog M \<and> matches (aAppend s d st) M \<and> lterm M \<le> u \<and> 1 \<le> u \<and>
     (\<exists>p Q. ldr (aAppend s d st) u = Some p \<and> u \<le> cur (aAppend s d st) p \<and>
        (cur (aAppend s d st) p = u \<longrightarrow> alog (aAppend s d st) p = M) \<and>
        Qm Q \<and> (\<forall>q\<in>Q. vot (aAppend s d st) q u = Some p))"
    using p by (auto simp: eqs)
qed

lemma aAppend_invLogs:
  assumes inv: "aInv Qm st" and old: "tlog st (cur st s) = Some (alog st s)"
  shows "invAckLog Qm (aAppend s d st)" "invVoteLog Qm (aAppend s d st)"
proof -
  note I = aInvD[OF inv] and g = aAppend_grows[OF old, of d] and bk = aAppend_old[OF aInvD(6)[OF inv] old]
  show "invAckLog Qm (aAppend s d st)"
    unfolding invAckLog_def
  proof (intro allI impI)
    fix q u k assume a: "acked (aAppend s d st) q u k" and e: "entryAt (aAppend s d st) u k"
    show "safeAt Qm (aAppend s d st) u k (alog (aAppend s d st) q)"
    proof (cases "q = s \<and> u = cur st s")
      case True
      then show ?thesis by (simp add: safeAt_def aAppend_eqs)
    next
      case False
      have "prefix (alog st q) (alog (aAppend s d st) q)" by (simp add: aAppend_eqs)
      then show ?thesis using I(7) bk[OF a e False] safeAt_grows[OF g] unfolding invAckLog_def by blast
    qed
  qed
  show "invVoteLog Qm (aAppend s d st)"
    unfolding invVoteLog_def aAppend_eqs(6,7)
  proof (intro allI impI)
    fix q t' c C u k
    assume v: "vot st q t' = Some c" and C: "clog st c t' = Some C" and u: "u < t'"
      and a: "acked (aAppend s d st) q u k" and e: "entryAt (aAppend s d st) u k"
    have "\<not> (q = s \<and> u = cur st s)" using invVoteD[OF I(1) v] u by auto
    note b = bk[OF a e this]
    show "safeAt Qm (aAppend s d st) u k C"
      using I(8) v C u b safeAt_grows[OF g b(2)] unfolding invVoteLog_def by blast
  qed
qed

text \<open>An entry that a leader appends after a quorum has moved to a later term cannot be confirmed any more.\<close>

lemma late_entry_doomed:
  assumes inv: "aInv Qm st" and old: "tlog st (cur st s) = Some (alog st s)"
    and M: "tlog st t' = Some M" "cur st s < t'"
  shows "doomed Qm (aAppend s d st) (cur st s) (length (alog st s))"
proof -
  note I = aInvD[OF inv]
  let ?k = "length (alog st s)"
  from invLeaderE[OF I(4) M(1)] obtain p Q where Q: "Qm Q" "\<And>q. q \<in> Q \<Longrightarrow> vot st q t' = Some p" by blast
  have "cur st s < cur (aAppend s d st) q \<and> \<not> acked (aAppend s d st) q (cur st s) ?k" if "q \<in> Q" for q
  proof -
    have c: "t' \<le> cur st q" using invVoteD[OF I(1) Q(2)[OF that]] by simp
    then have "q \<noteq> s" using M(2) by auto
    then show ?thesis
      using c M(2) acked_within[OF I(6) old, of q ?k] aAppend_acked[of s d st q "cur st s" ?k]
      by (auto simp: aAppend_eqs)
  qed
  then show ?thesis using Q(1) unfolding doomed_def by blast
qed

lemma aAppend_invComplete:
  assumes inv: "aInv Qm st" and old: "tlog st (cur st s) = Some (alog st s)"
  shows "invComplete Qm (aAppend s d st)"
  unfolding invComplete_def
proof (intro allI impI)
  fix u t' M k
  assume M: "tlog (aAppend s d st) t' = Some M" and u: "u < t'" and e: "entryAt (aAppend s d st) u k"
  show "safeAt Qm (aAppend s d st) u k M"
  proof (cases "entryAt st u k")
    case True
    obtain M0 where "tlog st t' = Some M0" "prefix M0 M"
      using M old by (auto simp: aAppend_eqs split: if_splits)
    then show ?thesis
      using aInvD(9)[OF inv] u True safeAt_grows[OF aAppend_grows[OF old] True] unfolding invComplete_def by blast
  next
    case False
    then have uk: "u = cur st s" "k = length (alog st s)" using aAppend_entryAt[OF old e] by blast+
    then have "tlog st t' = Some M" using M u by (auto simp: aAppend_eqs)
    then show ?thesis using late_entry_doomed[OF inv old] u uk unfolding safeAt_def by blast
  qed
qed

lemma aAppend_inv:
  assumes inv: "aInv Qm st" and ld: "ldr st (cur st s) = Some s"
  shows "aInv Qm (aAppend s d st)"
proof -
  note I = aInvD[OF inv] and eqs = aAppend_eqs[of s d st]
  have old: "tlog st (cur st s) = Some (alog st s)" by (rule leader_log[OF I(4,5) ld])
  note g = aAppend_grows[OF old, of d]
  have 1: "invVote (aAppend s d st)" using I(1) unfolding invVote_def eqs .
  have 2: "invCand (aAppend s d st)"
    using I(2) matches_grows[OF g] unfolding invCand_def eqs(5-7) by blast
  have 3: "invLog (aAppend s d st)"
    unfolding invLog_def
  proof
    fix q show "wfLog (alog (aAppend s d st) q) \<and> matches (aAppend s d st) (alog (aAppend s d st) q) \<and>
        lterm (alog (aAppend s d st) q) \<le> cur (aAppend s d st) q \<and> 0 \<le> cur (aAppend s d st) q"
      using invLogD[OF I(3), of q] matches_grows[OF g] aAppend_log[OF inv old, of d] by (auto simp: eqs)
  qed
  have 5: "invLdr (aAppend s d st)" using I(5) by (auto simp: invLdr_def eqs)
  have 6: "invAck (aAppend s d st)"
    using I(6) old unfolding invAck_def by (fastforce simp: eqs)
  show ?thesis
    using 1 2 3 5 6 aAppend_invLeader[OF inv ld old, of d] aAppend_invLogs[OF inv old, of d]
      aAppend_invComplete[OF inv old, of d]
    unfolding aInv_def by blast
qed

subsection \<open>Accept\<close>

text \<open>Taking over a prefix of the leader's log keeps what the server has confirmed in earlier
  terms and in this one.\<close>

lemma safeAt_accept:
  assumes cp: "invComplete Qm st" and L: "tlog st t = Some L" "k < length L"
    and u: "u \<le> t" "entryAt st u j" and s: "safeAt Qm st u j X"
  shows "safeAt Qm st u j (if prefix (take (Suc k) L) X then X else take (Suc k) L)"
proof (cases "prefix (take (Suc k) L) X \<or> doomed Qm st u j")
  case True
  then show ?thesis using s by (auto simp: safeAt_def)
next
  case False
  from u(2) obtain Lu where Lu: "tlog st u = Some Lu" "j < length Lu" unfolding entryAt_def by blast
  have pX: "prefix (take (Suc j) Lu) X" using s False Lu unfolding safeAt_def by blast
  have pL: "prefix (take (Suc j) Lu) L"
  proof (cases "u = t")
    case True
    then show ?thesis using L(1) Lu(1) by auto
  next
    case neq: False
    then have "safeAt Qm st u j L" using cp L(1) u unfolding invComplete_def by auto
    then show ?thesis using False Lu unfolding safeAt_def by blast
  qed
  have "j < k"
  proof (rule ccontr)
    assume "\<not> j < k"
    then have "prefix (take (Suc k) L) (take (Suc j) Lu)"
      using prefix_comparable[OF prefix_takeI pL, of "Suc k"] Lu(2) by simp
    then show False using pX False prefix_order.trans by blast
  qed
  then have "prefix (take (Suc j) Lu) (take (Suc k) L)"
    using prefix_comparable[OF pL prefix_takeI, of "Suc k"] L(2) Lu(2) by simp
  then show ?thesis using False Lu(1) by (simp add: safeAt_def)
qed

lemma aAccept_eqs:
  "tlog (aAccept s k L st) = tlog st" "acks (aAccept s k L st) = insert (s, cur st s, k) (acks st)"
  "alog (aAccept s k L st) =
     (alog st)(s := if prefix (take (Suc k) L) (alog st s) then alog st s else take (Suc k) L)"
  "ldr (aAccept s k L st) = ldr st" "cur (aAccept s k L st) = cur st" "vot (aAccept s k L st) = vot st"
  "clog (aAccept s k L st) = clog st"
  by (simp_all add: aAccept_def)

lemma aAccept_grows: "grows st (aAccept s k L st)"
  by (auto simp: grows_def aAccept_eqs)

lemma aAccept_acked:
  "acked (aAccept s k L st) q u j \<Longrightarrow> acked st q u j \<or> q = s \<and> u = cur st s \<and> j \<le> k"
  by (auto simp: acked_def aAccept_eqs)

lemma aAccept_log:
  assumes inv: "aInv Qm st" and L: "tlog st (cur st s) = Some L" and k: "k < length L"
  shows "wfLog (alog (aAccept s k L st) s) \<and> matches st (alog (aAccept s k L st) s) \<and>
    lterm (alog (aAccept s k L st) s) \<le> cur st s"
proof (cases "prefix (take (Suc k) L) (alog st s)")
  case True
  then show ?thesis using invLogD[OF aInvD(3)[OF inv], of s] by (simp add: aAccept_eqs)
next
  case False
  note ldrD = invLeaderD[OF aInvD(4)[OF inv] L]
  have ne: "take (Suc k) L \<noteq> []" using k by auto
  then have "last (take (Suc k) L) = L ! k" using k by (simp add: last_conv_nth)
  then have "lterm (take (Suc k) L) \<le> cur st s" using wfLog_lterm[OF ldrD(1) k] ldrD(3) by simp
  then show ?thesis
    using False wfLog_prefix[OF ldrD(1) _ ne] matches_prefix[OF ldrD(2)] by (simp add: aAccept_eqs)
qed

lemma aAccept_invAckLog:
  assumes inv: "aInv Qm st" and L: "tlog st (cur st s) = Some L" and k: "k < length L"
  shows "invAckLog Qm (aAccept s k L st)"
  unfolding invAckLog_def entryAt_cong[OF aAccept_eqs(1)]
proof (intro allI impI)
  note I = aInvD[OF inv]
  fix q u j assume a: "acked (aAccept s k L st) q u j" and e: "entryAt st u j"
  have "safeAt Qm st u j (alog (aAccept s k L st) q)"
  proof (cases "acked st q u j")
    case True
    then have s: "safeAt Qm st u j (alog st q)" using I(7) e unfolding invAckLog_def by blast
    have "u \<le> cur st q" using True I(6) unfolding invAck_def acked_def by auto
    then show ?thesis
      using s safeAt_accept[OF I(9) L k _ e, of "alog st s"] by (cases "q = s") (simp_all add: aAccept_eqs)
  next
    case False
    then have new: "q = s" "u = cur st s" "j \<le> k" using aAccept_acked[OF a] by blast+
    have "prefix (take (Suc k) L) (alog (aAccept s k L st) s)" by (simp add: aAccept_eqs)
    then have "prefix (take (Suc j) L) (alog (aAccept s k L st) s)"
      using prefix_take_mono[of "Suc j" "Suc k"] new(3) by auto
    then show ?thesis using new L by (simp add: safeAt_def)
  qed
  then show "safeAt Qm (aAccept s k L st) u j (alog (aAccept s k L st) q)"
    using safeAt_grows[OF aAccept_grows e] by blast
qed

lemma aAccept_invVoteLog:
  assumes inv: "aInv Qm st"
  shows "invVoteLog Qm (aAccept s k L st)"
  unfolding invVoteLog_def aAccept_eqs(6,7) entryAt_cong[OF aAccept_eqs(1)]
proof (intro allI impI)
  note I = aInvD[OF inv]
  fix q t' c C u j
  assume v: "vot st q t' = Some c" and C: "clog st c t' = Some C" and u: "u < t'"
    and a: "acked (aAccept s k L st) q u j" and e: "entryAt st u j"
  have "acked st q u j" using aAccept_acked[OF a] invVoteD[OF I(1) v] u by force
  then show "safeAt Qm (aAccept s k L st) u j C"
    using I(8) v C u e safeAt_grows[OF aAccept_grows e] unfolding invVoteLog_def by blast
qed

lemma aAccept_inv:
  assumes inv: "aInv Qm st" and L: "tlog st (cur st s) = Some L" and k: "k < length L"
  shows "aInv Qm (aAccept s k L st)"
proof -
  note I = aInvD[OF inv] and g = aAccept_grows[of st s k L] and eqs = aAccept_eqs[of s k L st]
  have 1: "invVote (aAccept s k L st)" using I(1) unfolding invVote_def eqs .
  have 2: "invCand (aAccept s k L st)"
    using I(2) matches_grows[OF g] unfolding invCand_def eqs(5-7) by blast
  have 3: "invLog (aAccept s k L st)"
    unfolding invLog_def
  proof
    fix q show "wfLog (alog (aAccept s k L st) q) \<and> matches (aAccept s k L st) (alog (aAccept s k L st) q) \<and>
        lterm (alog (aAccept s k L st) q) \<le> cur (aAccept s k L st) q \<and> 0 \<le> cur (aAccept s k L st) q"
      using invLogD[OF I(3), of q] aAccept_log[OF inv L k] matches_grows[OF g] by (cases "q = s") (auto simp: eqs)
  qed
  have 4: "invLeader Qm (aAccept s k L st)"
    by (rule frame_invLeader[OF g eqs(1,4) I(4)]) (use L in \<open>auto simp: eqs\<close>)
  have 6: "invAck (aAccept s k L st)" using I(6) L k unfolding invAck_def eqs by auto
  show ?thesis
    using 1 2 3 4 6 frame_invLdr[OF eqs(1,4) I(5)] aAccept_invAckLog[OF inv L k] aAccept_invVoteLog[OF inv, of s k L]
      frame_invComplete[OF g eqs(1) I(9)]
    unfolding aInv_def by blast
qed

section \<open>Reachable states\<close>

lemma aInit_inv: "aInv Qm aInit"
  by (auto simp: aInv_def aInit_def invVote_def invCand_def invLog_def invLeader_def invLdr_def
      invAck_def invAckLog_def invVoteLog_def invComplete_def wfLog_def matches_def acked_def)

lemma astep_inv: "astep Qm st st' \<Longrightarrow> aInv Qm st \<Longrightarrow> aInv Qm st'"
  by (induction rule: astep.induct)
     (simp_all add: aTimeout_inv aTerm_inv aVote_inv aElect_inv aAppend_inv aAccept_inv)

lemma areach_inv: "areach Qm st \<Longrightarrow> aInv Qm st"
  by (induction rule: areach.induct) (auto intro: aInit_inv astep_inv)

section \<open>Quorums and the safety of commitment\<close>

text \<open>A prefix that is committed with respect to a term no later than \<open>T\<close>.\<close>

definition committed :: "('p set \<Rightarrow> bool) \<Rightarrow> ('p, 'c) aState \<Rightarrow> int \<Rightarrow> 'c alog \<Rightarrow> bool" where
  "committed Qm st T P \<longleftrightarrow> P = [(-1, None)] \<or>
     (\<exists>t k L. t \<le> T \<and> chosen Qm st t k \<and> tlog st t = Some L \<and> P \<noteq> [] \<and> prefix P (take (Suc k) L))"

lemma committed_prefix:
  assumes "committed Qm st T P" "prefix P' P" "P' \<noteq> []"
  shows "committed Qm st T P'"
proof (cases "P = [(-1, None)]")
  case True
  then have "P' = [(-1, None)]" using assms(2,3) by (auto simp: prefix_Cons)
  then show ?thesis by (simp add: committed_def)
next
  case False
  then show ?thesis using assms unfolding committed_def by (meson prefix_order.trans)
qed

lemma committed_mono: "committed Qm st T P \<Longrightarrow> T \<le> T' \<Longrightarrow> committed Qm st T' P"
  unfolding committed_def by (meson order_trans)

lemma acked_grows: "acks st \<subseteq> acks st' \<Longrightarrow> acked st q t k \<Longrightarrow> acked st' q t k"
  by (auto simp: acked_def)

lemma chosen_grows:
  assumes g: "grows st st'" "acks st \<subseteq> acks st'" and c: "chosen Qm st t k"
  shows "chosen Qm st' t k"
proof -
  from c obtain L where L: "tlog st t = Some L" "k < length L" "fst (L ! k) = t"
    unfolding chosen_def entryAt_def by blast
  from grows_tlog[OF g(1) L(1)] obtain L' where "tlog st' t = Some L'" "prefix L L'" .
  then have "entryAt st' t k"
    using L prefix_nth[of L L' k] prefix_length_le[of L L'] unfolding entryAt_def by auto
  then show ?thesis using c acked_grows[OF g(2)] unfolding chosen_def by blast
qed

lemma committed_grows:
  assumes g: "grows st st'" "acks st \<subseteq> acks st'" and c: "committed Qm st T P"
  shows "committed Qm st' T P"
proof (cases "P = [(-1, None)]")
  case False
  then obtain t k L where *: "t \<le> T" "chosen Qm st t k" "tlog st t = Some L" "P \<noteq> []"
    "prefix P (take (Suc k) L)" using c unfolding committed_def by blast
  from grows_tlog[OF g(1) *(3)] obtain L' where L': "tlog st' t = Some L'" "prefix L L'" .
  have "k < length L" using *(2,3) unfolding chosen_def entryAt_def by auto
  then have "take (Suc k) L = take (Suc k) L'" using take_prefix_mono[OF L'(2)] by simp
  then show ?thesis using * L'(1) chosen_grows[OF g *(2)] unfolding committed_def by auto
qed (simp add: committed_def)

text \<open>Every step grows the state in the sense used above.\<close>

lemma astep_grows:
  assumes "astep Qm st st'" "aInv Qm st"
  shows "grows st st'" and "acks st \<subseteq> acks st'"
proof -
  note I = aInvD[OF assms(2)]
  show "grows st st'" using assms(1)
  proof cases
    case (append s d)
    then show ?thesis
      using leader_log[OF I(4,5) append(2)] by (auto simp: grows_def aAppend_def Let_def)
  qed (auto simp: grows_def aTimeout_def aTerm_def aVote_def aElect_def aAccept_def Let_def)
  show "acks st \<subseteq> acks st'" using assms(1)
    by cases (auto simp: aTimeout_def aTerm_def aVote_def aElect_def aAppend_def aAccept_def Let_def)
qed

locale quorums =
  fixes Qm :: "'p set \<Rightarrow> bool"
  assumes intersect: "Qm A \<Longrightarrow> Qm B \<Longrightarrow> A \<inter> B \<noteq> {}"
begin

lemma chosen_not_doomed: "chosen Qm st t k \<Longrightarrow> \<not> doomed Qm st t k"
  unfolding chosen_def doomed_def using intersect by blast

text \<open>Two candidates cannot both have a quorum of the votes of one term.\<close>

lemma one_winner:
  assumes "Qm A" "\<forall>q\<in>A. vot st q t = Some c" "Qm B" "\<forall>q\<in>B. vot st q t = Some c'"
  shows "c = c'"
  using intersect[OF assms(1,3)] assms(2,4) by fastforce

lemma leader_complete:
  assumes inv: "aInv Qm st" and ch: "chosen Qm st t k" and L: "tlog st t = Some L"
    and L': "tlog st t' = Some L'" and le: "t \<le> t'"
  shows "prefix (take (Suc k) L) L'"
proof (cases "t = t'")
  case True
  then show ?thesis using L L' by auto
next
  case False
  have "entryAt st t k" using ch by (simp add: chosen_def)
  then have "safeAt Qm st t k L'"
    using aInvD(9)[OF inv] L' le False unfolding invComplete_def by force
  then show ?thesis using chosen_not_doomed[OF ch] L unfolding safeAt_def by blast
qed

lemma committed_in_leader:
  assumes inv: "aInv Qm st" and c: "committed Qm st T P" and L': "tlog st T' = Some L'" "T \<le> T'"
  shows "prefix P L'"
proof (cases "P = [(-1, None)]")
  case True
  then show ?thesis using wfLogD(1,2)[OF invLeaderD(1)[OF aInvD(4)[OF inv] L'(1)]]
    by (cases L') auto
next
  case False
  then obtain t k L where *: "t \<le> T" "chosen Qm st t k" "tlog st t = Some L"
    "prefix P (take (Suc k) L)" using c unfolding committed_def by blast
  then show ?thesis using leader_complete[OF inv *(2,3) L'(1)] L'(2) prefix_order.trans
    by (meson order_trans)
qed

lemma committed_comparable:
  assumes inv: "aInv Qm st" and P: "committed Qm st T P" and P': "committed Qm st T' P'"
  shows "prefix P P' \<or> prefix P' P"
proof -
  have base: "prefix [(-1, None)] R" if R: "committed Qm st U R" for U R
  proof (cases "R = [(-1, None)]")
    case False
    then obtain t k L where *: "tlog st t = Some L" "R \<noteq> []" "prefix R (take (Suc k) L)"
      using R unfolding committed_def by blast
    have "L ! 0 = (-1, None)" using wfLogD(2)[OF invLeaderD(1)[OF aInvD(4)[OF inv] *(1)]] .
    then have "R ! 0 = (-1, None)" using prefix_nth[OF *(3), of 0] *(2) by simp
    then show ?thesis using *(2) by (cases R) auto
  qed simp
  show ?thesis
  proof (cases "P = [(-1, None)] \<or> P' = [(-1, None)]")
    case True
    then show ?thesis using base[OF P] base[OF P'] by auto
  next
    case False
    then obtain t k L where 1: "chosen Qm st t k" "tlog st t = Some L" "prefix P (take (Suc k) L)"
      using P unfolding committed_def by blast
    from False obtain t' k' L' where 2: "chosen Qm st t' k'" "tlog st t' = Some L'"
      "prefix P' (take (Suc k') L')" using P' unfolding committed_def by blast
    have "prefix P L" "prefix P' L'" using 1(3) 2(3) prefix_takeI prefix_order.trans by blast+
    moreover have "prefix P L'" if "t \<le> t'"
      using leader_complete[OF inv 1(1,2) 2(2) that] 1(3) prefix_order.trans by blast
    moreover have "prefix P' L" if "t' \<le> t"
      using leader_complete[OF inv 2(1,2) 1(2) that] 2(3) prefix_order.trans by blast
    ultimately show ?thesis
      using prefix_same_cases[of P L P'] prefix_same_cases[of P L' P'] by fastforce
  qed
qed

end

text \<open>The majorities of \<open>n\<close> peers.\<close>

definition majority :: "nat \<Rightarrow> nat set \<Rightarrow> bool" where
  "majority n Q \<longleftrightarrow> Q \<subseteq> {..<n} \<and> n div 2 < card Q"

lemma majority_intersect:
  assumes "majority n A" "majority n B"
  shows "A \<inter> B \<noteq> {}"
proof
  assume "A \<inter> B = {}"
  moreover have fin: "finite A" "finite B"
    using assms finite_subset[OF _ finite_lessThan] by (auto simp: majority_def)
  ultimately have "card (A \<union> B) = card A + card B" by (simp add: card_Un_disjoint)
  moreover have "card (A \<union> B) \<le> card {..<n}"
    using assms by (intro card_mono) (auto simp: majority_def)
  ultimately have "card A + card B \<le> n" by simp
  then show False using assms unfolding majority_def by linarith
qed

interpretation maj: quorums "majority n" for n
  by unfold_locales (rule majority_intersect)

end
