(* ===== verification/Raft_Refine.thy ===== *)
theory Raft_Refine
  imports Raft_Sys Raft_Spec
begin

text \<open>
  The code of \<open>raft/raft.go\<close> implements the protocol of \<open>Raft_Spec\<close>: a forward simulation from
  the cluster of \<open>Raft_Sys\<close>.  The abstract log of a server is its full log; the slice a peer
  holds is the part from its first index on, with a dummy in front (\<open>conc\<close>).
\<close>

section \<open>The slice of a full log that a peer holds\<close>

definition ent :: "'c alog \<Rightarrow> nat \<Rightarrow> 'c LogEntry" where
  "ent A p = \<lparr>leTerm = fst (A ! p), leIndex = int p, leData = snd (A ! p)\<rparr>"

definition conc :: "nat \<Rightarrow> 'c alog \<Rightarrow> 'c LogEntry list" where
  "conc f A = \<lparr>leTerm = fst (A ! f), leIndex = int f, leData = None\<rparr> #
     map (ent A) [Suc f..<length A]"

lemma ent_simps [simp]:
  "leTerm (ent A p) = fst (A ! p)" "leIndex (ent A p) = int p" "leData (ent A p) = snd (A ! p)"
  by (simp_all add: ent_def)

lemma length_conc [simp]: "f < length A \<Longrightarrow> length (conc f A) = length A - f"
  by (simp add: conc_def)

lemma conc_not_Nil [simp]: "conc f A \<noteq> []"
  by (simp add: conc_def)

lemma conc_nth: "0 < j \<Longrightarrow> j < length A - f \<Longrightarrow> conc f A ! j = ent A (f + j)"
  by (simp add: conc_def nth_Cons')

lemma conc_nth_term: "j < length A - f \<Longrightarrow> leTerm (conc f A ! j) = fst (A ! (f + j))"
  by (cases j) (simp_all add: conc_def nth_Cons')

lemma conc_nth_index: "j < length A - f \<Longrightarrow> leIndex (conc f A ! j) = int (f + j)"
  by (cases j) (simp_all add: conc_def nth_Cons')

lemma idx_conc_iff:
  assumes "f < length A"
  shows "idx (conc f A) (x - int f) = Some e \<longleftrightarrow>
    (\<exists>p. x = int p \<and> f \<le> p \<and> p < length A \<and> e = conc f A ! (p - f))"
proof
  assume "idx (conc f A) (x - int f) = Some e"
  then show "\<exists>p. x = int p \<and> f \<le> p \<and> p < length A \<and> e = conc f A ! (p - f)"
    using assms by (intro exI[of _ "nat x"]) (auto simp: idx_Some_iff nat_diff_distrib)
next
  assume "\<exists>p. x = int p \<and> f \<le> p \<and> p < length A \<and> e = conc f A ! (p - f)"
  then show "idx (conc f A) (x - int f) = Some e"
    using assms by (auto simp: idx_Some_iff nat_diff_distrib of_nat_diff)
qed

lemma idx_conc:
  assumes "f \<le> p" "p < length A"
  obtains e where "idx (conc f A) (int p - int f) = Some e" "leTerm e = fst (A ! p)"
    "leIndex e = int p"
proof -
  have "idx (conc f A) (int p - int f) = Some (conc f A ! (p - f))"
    using assms by (subst idx_conc_iff) auto
  then show ?thesis using that conc_nth_term[of "p - f" A f] conc_nth_index[of "p - f" A f] assms
    by simp
qed

lemma last_conc:
  assumes "f < length A"
  shows "leIndex (last (conc f A)) = int (length A) - 1" "leTerm (last (conc f A)) = lterm A"
proof -
  have ne: "A \<noteq> []" using assms by auto
  have "last (conc f A) = conc f A ! (length A - f - 1)" using assms by (simp add: last_conv_nth)
  then show "leIndex (last (conc f A)) = int (length A) - 1" "leTerm (last (conc f A)) = lterm A"
    using conc_nth_index[of "length A - f - 1" A f] conc_nth_term[of "length A - f - 1" A f] assms
      lterm_nth[OF ne] by (auto simp: of_nat_diff Suc_diff_Suc)
qed

lemma hd_conc: "idx (conc f A) 0 = Some \<lparr>leTerm = fst (A ! f), leIndex = int f, leData = None\<rparr>"
  by (simp add: conc_def)

lemma conc_prefix:
  assumes "f < length X" "prefix X Y" "length X \<le> m" "m \<le> length Y"
  shows "conc f X @ map (ent Y) [length X..<m] = conc f (take m Y)"
proof -
  have "[Suc f..<m] = [Suc f..<length X] @ [length X..<m]"
    using assms upt_add_eq_append[of "Suc f" "length X" "m - length X"] by simp
  moreover have "map (ent X) [Suc f..<length X] = map (ent (take m Y)) [Suc f..<length X]"
    using prefix_nth[OF assms(2)] assms(3) by (auto simp: ent_def)
  moreover have "map (ent Y) [length X..<m] = map (ent (take m Y)) [length X..<m]"
    by (auto simp: ent_def)
  ultimately show ?thesis using assms prefix_nth[OF assms(2), of f] by (simp add: conc_def)
qed

lemma take_conc:
  assumes "f \<le> p" "p < length A"
  shows "take (Suc (p - f)) (conc f A) = conc f (take (Suc p) A)"
proof -
  have "take (p - f) [Suc f..<length A] = [Suc f..<Suc p]" using assms by (simp add: take_upt)
  then show ?thesis using assms by (auto simp: conc_def take_map ent_def)
qed

lemma drop_conc:
  assumes "f \<le> p" "p < length A"
  shows "drop (Suc (p - f)) (conc f A) = map (ent A) [Suc p..<length A]"
  using assms by (simp add: conc_def drop_map)

section \<open>Abstract moves of one server\<close>

text \<open>What the other servers and the messages in flight see of an abstract move of server \<open>i\<close>.\<close>

definition ext :: "('p, 'c) aState \<Rightarrow> ('p, 'c) aState \<Rightarrow> bool" where
  "ext a a' \<longleftrightarrow> grows a a' \<and> acks a \<subseteq> acks a' \<and>
     (\<forall>s t c. vot a s t = Some c \<longrightarrow> vot a' s t = Some c) \<and>
     (\<forall>s t C. clog a s t = Some C \<longrightarrow> clog a' s t = Some C) \<and>
     (\<forall>s t. ldr a t = Some s \<longrightarrow> ldr a' t = Some s)"

definition moves :: "nat \<Rightarrow> nat \<Rightarrow> (nat, 'c) aState \<Rightarrow> (nat, 'c) aState \<Rightarrow> bool" where
  "moves n i a a' \<longleftrightarrow> (astep (majority n))\<^sup>*\<^sup>* a a' \<and> aInv (majority n) a' \<and> ext a a' \<and>
     (\<forall>j. j \<noteq> i \<longrightarrow> cur a' j = cur a j \<and> alog a' j = alog a j \<and> vot a' j = vot a j \<and>
        clog a' j = clog a j \<and> (\<forall>t. ldr a' t = Some j \<longrightarrow> ldr a t = Some j))"

lemma extD:
  assumes "ext a a'"
  shows "grows a a'" "acks a \<subseteq> acks a'" "vot a s t = Some c \<Longrightarrow> vot a' s t = Some c"
    "clog a s t = Some C \<Longrightarrow> clog a' s t = Some C" "ldr a t = Some s \<Longrightarrow> ldr a' t = Some s"
  using assms by (auto simp: ext_def)

lemma grows_trans: "grows a b \<Longrightarrow> acks a \<subseteq> acks b \<Longrightarrow> grows b c \<Longrightarrow> grows a c"
  unfolding grows_def by (meson order_trans prefix_order.trans)

lemma ext_trans: "ext a b \<Longrightarrow> ext b c \<Longrightarrow> ext a c"
  unfolding ext_def using grows_trans by (meson order_trans)

lemma ext_refl: "ext a a"
  by (auto simp: ext_def grows_def)

lemma moves_refl: "aInv (majority n) a \<Longrightarrow> moves n i a a"
  by (simp add: moves_def ext_refl)

lemma moves_trans: "moves n i a b \<Longrightarrow> moves n i b c \<Longrightarrow> moves n i a c"
  unfolding moves_def by (auto intro: ext_trans)

lemma movesD:
  assumes "moves n i a a'"
  shows "(astep (majority n))\<^sup>*\<^sup>* a a'" "aInv (majority n) a'" "ext a a'"
  using assms by (auto simp: moves_def)

lemma committed_ext: "ext a a' \<Longrightarrow> committed Qm a T P \<Longrightarrow> committed Qm a' T P"
  by (rule committed_grows[OF extD(1,2)])

lemma acked_ext: "ext a a' \<Longrightarrow> acked a q t k \<Longrightarrow> acked a' q t k"
  by (rule acked_grows[OF extD(2)])

lemma moves_timeout:
  assumes "aInv (majority n) a"
  shows "moves n i a (aTimeout i a)"
proof -
  note I = aInvD[OF assms]
  have st: "astep (majority n) a (aTimeout i a)" by (rule astep.timeout)
  have "vot a i (cur a i + 1) = None" using invVoteD[OF I(1), of i "cur a i + 1"] by force
  moreover have "clog a i (cur a i + 1) = None" using invCandD(2)[OF I(2), of i "cur a i + 1"] by force
  ultimately have "ext a (aTimeout i a)"
    using astep_grows[OF st assms] by (auto simp: ext_def aTimeout_def Let_def)
  then show ?thesis
    using st astep_inv[OF st assms] by (auto simp: moves_def aTimeout_def Let_def)
qed

lemma moves_term:
  assumes "aInv (majority n) a" "cur a i < t"
  shows "moves n i a (aTerm i t a)"
proof -
  have st: "astep (majority n) a (aTerm i t a)" by (rule astep.newterm[OF assms(2)])
  then show ?thesis
    using astep_grows[OF st assms(1)] astep_inv[OF st assms(1)]
    by (auto simp: moves_def ext_def aTerm_def)
qed

lemma moves_vote:
  assumes "aInv (majority n) a" "vot a i (cur a i) = None" "clog a c (cur a i) = Some C"
    "upToDate C (alog a i)"
  shows "moves n i a (aVote i c a)"
proof -
  have st: "astep (majority n) a (aVote i c a)" by (rule astep.vote[OF assms(2-4)])
  then show ?thesis
    using astep_grows[OF st assms(1)] astep_inv[OF st assms(1)] assms(2)
    by (auto simp: moves_def ext_def aVote_def)
qed

lemma moves_elect:
  assumes "aInv (majority n) a" "clog a i (cur a i) = Some (alog a i)" "tlog a (cur a i) = None"
    "majority n Q" "\<forall>q\<in>Q. vot a q (cur a i) = Some i"
  shows "moves n i a (aElect i a)"
proof -
  have st: "astep (majority n) a (aElect i a)" by (rule astep.elect[where Qm = "majority n", OF assms(2-5)])
  have "ldr a (cur a i) = None" using aInvD(5)[OF assms(1)] assms(3) unfolding invLdr_def by auto
  then show ?thesis
    using st astep_grows[OF st assms(1)] astep_inv[OF st assms(1)]
    by (auto simp: moves_def ext_def aElect_def)
qed

lemma moves_append:
  assumes "aInv (majority n) a" "ldr a (cur a i) = Some i"
  shows "moves n i a (aAppend i d a)"
proof -
  have st: "astep (majority n) a (aAppend i d a)" by (rule astep.append[OF assms(2)])
  then show ?thesis
    using astep_grows[OF st assms(1)] astep_inv[OF st assms(1)]
    by (auto simp: moves_def ext_def aAppend_def Let_def)
qed

lemma moves_accept:
  assumes "aInv (majority n) a" "tlog a (cur a i) = Some L" "k < length L"
  shows "moves n i a (aAccept i k L a)"
proof -
  have st: "astep (majority n) a (aAccept i k L a)" by (rule astep.accept[OF assms(2,3)])
  then show ?thesis
    using astep_grows[OF st assms(1)] astep_inv[OF st assms(1)]
    by (auto simp: moves_def ext_def aAccept_def)
qed

section \<open>The simulation relation\<close>

text \<open>The stable storage holds what \<open>Make\<close> needs to restore the peer.\<close>

definition synced :: "('c, 's) Raft \<Rightarrow> bool" where
  "synced rf \<longleftrightarrow> psSnapshot (persister rf) = snapshot rf \<and>
     (psRaftstate (persister rf) = [GInt (currentTerm rf), GInt (voteFor rf), GLog (rlog rf)] \<or>
      psRaftstate (persister rf) = [] \<and> currentTerm rf = 0 \<and> voteFor rf = -1 \<and>
        rlog rf = [dummyLog])"

definition rfC :: "nat \<Rightarrow> (nat, 'c) aState \<Rightarrow> nat \<Rightarrow> nat \<Rightarrow> ('c, 's) Raft \<Rightarrow> bool" where
  "rfC n a i f rf \<longleftrightarrow>
     (me rf = i \<and> npeers rf = n \<and> length (nextIndex rf) = n \<and> length (matchIndex rf) = n) \<and>
     currentTerm rf = cur a i \<and>
     voteFor rf = (case vot a i (cur a i) of None \<Rightarrow> -1 | Some c \<Rightarrow> int c) \<and>
     f < length (alog a i) \<and> rlog rf = conc f (alog a i) \<and>
     committed (majority n) a (cur a i) (take (Suc f) (alog a i)) \<and>
     0 \<le> commitIndex rf \<and> commitIndex rf < int (length (alog a i)) \<and>
     committed (majority n) a (cur a i) (take (Suc (nat (commitIndex rf))) (alog a i)) \<and>
     (state rf = Candidate \<longrightarrow> clog a i (cur a i) = Some (alog a i) \<and> ldr a (cur a i) \<noteq> Some i) \<and>
     (state rf = Leader \<longrightarrow> ldr a (cur a i) = Some i \<and>
        (\<forall>j < n. matchIndex rf ! j \<le> 0 \<or> acked a j (cur a i) (nat (matchIndex rf ! j))))"

definition rfR :: "nat \<Rightarrow> (nat, 'c) aState \<Rightarrow> nat \<Rightarrow> nat \<Rightarrow> ('c, 's) Raft \<Rightarrow> bool" where
  "rfR n a i f rf \<longleftrightarrow> rfC n a i f rf \<and> synced rf"

text \<open>An entry on its way to the service, and a message it has received, are committed entries.\<close>

definition goodEntry :: "'c alog \<Rightarrow> int \<Rightarrow> 'c LogEntry \<Rightarrow> bool" where
  "goodEntry A ci e \<longleftrightarrow> (\<exists>p. leIndex e = int p \<and> int p \<le> ci \<and> A ! p = (leTerm e, leData e))"

definition goodMsg :: "nat \<Rightarrow> (nat, 'c) aState \<Rightarrow> ('c, 's) ApplyMsg \<Rightarrow> bool" where
  "goodMsg n a m \<longleftrightarrow> (amCommandValid m \<longrightarrow> (\<exists>T P p. committed (majority n) a T P \<and>
     amCommandIndex m = int p \<and> p < length P \<and> snd (P ! p) = amCommand m))"

fun pcEntries :: "'c applierPc \<Rightarrow> 'c LogEntry set" where
  "pcEntries (AGot es) = set es"
| "pcEntries (ASeqCheck es) = set es"
| "pcEntries (ASeqWait es) = set es"
| "pcEntries (ASeqWoken es) = set es"
| "pcEntries (ASend es rest) = set es \<union> set rest"
| "pcEntries _ = {}"

fun snapIndex :: "snapPc \<Rightarrow> int option" where
  "snapIndex (SWant i t) = Some i"
| "snapIndex (SHold i t) = Some i"
| "snapIndex (SSent i t) = Some i"
| "snapIndex SExit = None"

definition apR :: "'c alog \<Rightarrow> int \<Rightarrow> nat \<Rightarrow> ('c, 's) ApplyState \<Rightarrow> bool" where
  "apR A ci f ap \<longleftrightarrow> (\<forall>e \<in> pcEntries (pc ap). goodEntry A ci e) \<and>
     (\<forall>m \<in> set (delivered ap). amCommandValid m \<longrightarrow>
        (\<exists>p. amCommandIndex m = int p \<and> int p \<le> ci \<and> snd (A ! p) = amCommand m)) \<and>
     (\<forall>sp \<in> set (snaps ap). \<forall>x. snapIndex sp = Some x \<longrightarrow> 0 \<le> x \<and> x \<le> int f)"

definition roundR :: "nat \<Rightarrow> (nat, 'c) aState \<Rightarrow> nat \<Rightarrow> Round \<Rightarrow> bool" where
  "roundR n a i ro \<longleftrightarrow> rvCandidateId (elArgs (roEl ro)) = int i \<and>
     (\<exists>V. V \<subseteq> {..<n} - roWaiting ro \<and> int (card V) = voteCount (roEl ro) \<and>
        (\<forall>v\<in>V. vot a v (rvTerm (elArgs (roEl ro))) = Some i)) \<and> roWaiting ro \<subseteq> {..<n}"

definition nodeR :: "nat \<Rightarrow> (nat, 'c) aState \<Rightarrow> nat \<Rightarrow> ('c, 's) node \<Rightarrow> bool" where
  "nodeR n a i nd \<longleftrightarrow> (\<exists>f. rfR n a i f (nRf nd) \<and>
       apR (alog a i) (commitIndex (nRf nd)) f (nAp nd)) \<and>
     (\<forall>ro \<in> set (nRounds nd). roundR n a i ro) \<and> nSnapTo nd \<subseteq> {..<n}"

fun msgR :: "nat \<Rightarrow> (nat, 'c) aState \<Rightarrow> ('c, 's) msg \<Rightarrow> bool" where
  "msgR n a (MVoteReq i j args) \<longleftrightarrow> i < n \<and> j < n \<and> (\<exists>C. clog a i (rvTerm args) = Some C \<and>
     rvCandidateId args = int i \<and> rvLastLogIndex args = int (length C) - 1 \<and>
     rvLastLogTerm args = lterm C)"
| "msgR n a (MVoteRep i j args reply) \<longleftrightarrow> i < n \<and> j < n \<and>
     (rvrVoteGranted reply \<longrightarrow> vot a j (rvTerm args) = Some i)"
| "msgR n a (MLogReq i j args r) \<longleftrightarrow> i < n \<and> j < n \<and> (\<exists>L p m. tlog a (slTerm args) = Some L \<and>
     p < m \<and> m \<le> length L \<and> slPrevLogIndex args = int p \<and> slPrevLogTerm args = fst (L ! p) \<and>
     slEntries args = map (ent L) [Suc p..<m] \<and>
     0 \<le> slLeaderCommit args \<and> slLeaderCommit args < int m \<and>
     committed (majority n) a (slTerm args) (take (Suc (nat (slLeaderCommit args))) L))"
| "msgR n a (MLogRep i j args r reply) \<longleftrightarrow> i < n \<and> j < n \<and>
     (slrSuccess reply \<longrightarrow> slEntries args \<noteq> [] \<longrightarrow>
        acked a j (slTerm args) (nat (leIndex (last (slEntries args)))))"
| "msgR n a (MSnapReq i j args ni mi) \<longleftrightarrow> i < n \<and> j < n \<and> (\<exists>L g. tlog a (rsTerm args) = Some L \<and>
     g < length L \<and> rsLastIncludedIndex args = int g \<and> rsLastIncludedTerm args = fst (L ! g) \<and>
     committed (majority n) a (rsTerm args) (take (Suc g) L))"
| "msgR n a (MSnapRep i j args ni mi reply) \<longleftrightarrow> i < n \<and> j < n \<and>
     (rsrTerm reply \<le> rsTerm args \<longrightarrow>
        acked a j (rsTerm args) (nat (rsLastIncludedIndex args)))"

definition sysR :: "nat \<Rightarrow> ('c, 's) sys \<Rightarrow> (nat, 'c) aState \<Rightarrow> bool" where
  "sysR n sy a \<longleftrightarrow> (\<forall>i < n. nodeR n a i (nodes sy i)) \<and> (\<forall>m \<in> net sy. msgR n a m) \<and>
     (\<forall>m \<in> history sy. goodMsg n a m)"

section \<open>Frame lemmas\<close>

lemma rfCD:
  assumes "rfC n a i f rf"
  shows "me rf = i" "npeers rf = n" "length (nextIndex rf) = n" "length (matchIndex rf) = n"
    "currentTerm rf = cur a i"
    "voteFor rf = (case vot a i (cur a i) of None \<Rightarrow> -1 | Some c \<Rightarrow> int c)"
    "f < length (alog a i)" "rlog rf = conc f (alog a i)"
    "committed (majority n) a (cur a i) (take (Suc f) (alog a i))"
    "0 \<le> commitIndex rf" "commitIndex rf < int (length (alog a i))"
    "committed (majority n) a (cur a i) (take (Suc (nat (commitIndex rf))) (alog a i))"
    "state rf = Candidate \<Longrightarrow> clog a i (cur a i) = Some (alog a i) \<and> ldr a (cur a i) \<noteq> Some i"
    "state rf = Leader \<Longrightarrow> ldr a (cur a i) = Some i"
    "state rf = Leader \<Longrightarrow> j < n \<Longrightarrow>
       matchIndex rf ! j \<le> 0 \<or> acked a j (cur a i) (nat (matchIndex rf ! j))"
  using assms by (auto simp: rfC_def)

lemma rfC_SetElectionTime [simp]: "rfC n a i f (SetElectionTime tm k rf) = rfC n a i f rf"
  by (simp add: rfC_def SetElectionTime_def)

lemma rfC_persist [simp]: "rfC n a i f (persist rf) = rfC n a i f rf"
  by (simp add: rfC_def persist_def)

lemma rfC_lastApplied [simp]: "rfC n a i f (rf\<lparr>lastApplied := x\<rparr>) = rfC n a i f rf"
  by (simp add: rfC_def)

lemma rfC_snapshot [simp]: "rfC n a i f (rf\<lparr>snapshot := x\<rparr>) = rfC n a i f rf"
  by (simp add: rfC_def)

lemma rfC_nextIndex [simp]:
  "length xs = length (nextIndex rf) \<Longrightarrow> rfC n a i f (rf\<lparr>nextIndex := xs\<rparr>) = rfC n a i f rf"
  by (simp add: rfC_def)

lemma rfC_Follower: "rfC n a i f rf \<Longrightarrow> rfC n a i f (rf\<lparr>state := Follower\<rparr>)"
  by (simp add: rfC_def)

lemma synced_persist [simp]: "synced (persist rf)"
  by (simp add: synced_def persist_def Save_def)

lemma synced_SetElectionTime [simp]: "synced (SetElectionTime tm k rf) = synced rf"
  by (simp add: synced_def SetElectionTime_def)

lemma synced_upd [simp]:
  "synced (rf\<lparr>lastApplied := x\<rparr>) = synced rf" "synced (rf\<lparr>nextIndex := ns\<rparr>) = synced rf"
  "synced (rf\<lparr>matchIndex := ns\<rparr>) = synced rf" "synced (rf\<lparr>commitIndex := x\<rparr>) = synced rf"
  "synced (rf\<lparr>state := s\<rparr>) = synced rf"
  by (simp_all add: synced_def)

text \<open>A peer whose server an abstract move leaves alone stays related.\<close>

lemma rfC_frame:
  assumes r: "rfC n a i f rf" and e: "ext a a'" and c: "cur a' i = cur a i"
    and l: "alog a' i = alog a i" and v: "vot a' i (cur a i) = vot a i (cur a i)"
    and d: "ldr a' (cur a i) = Some i \<Longrightarrow> ldr a (cur a i) = Some i"
  shows "rfC n a' i f rf"
proof -
  note R = rfCD[OF r]
  have "\<forall>j < n. matchIndex rf ! j \<le> 0 \<or> acked a' j (cur a i) (nat (matchIndex rf ! j))"
    if "state rf = Leader"
    using R(15)[OF that] acked_ext[OF e] by blast
  moreover have "clog a' i (cur a i) = Some (alog a i) \<and> ldr a' (cur a i) \<noteq> Some i"
    if "state rf = Candidate"
    using R(13)[OF that] extD(4)[OF e] d by blast
  moreover have "ldr a' (cur a i) = Some i" if "state rf = Leader"
    using extD(5)[OF e R(14)[OF that]] .
  ultimately show ?thesis
    unfolding rfC_def c l v
    by (simp add: R(1-8,10,11) committed_ext[OF e R(9)] committed_ext[OF e R(12)])
qed

lemma roundR_ext: "ext a a' \<Longrightarrow> roundR n a i ro \<Longrightarrow> roundR n a' i ro"
  unfolding roundR_def using extD(3) by metis

lemma nodeR_frame:
  assumes m: "moves n i a a'" and j: "j \<noteq> i" and r: "nodeR n a j nd"
  shows "nodeR n a' j nd"
proof -
  note e = movesD(3)[OF m]
  have o: "cur a' j = cur a j" "alog a' j = alog a j" "vot a' j = vot a j"
    "\<And>t. ldr a' t = Some j \<Longrightarrow> ldr a t = Some j"
    using m j by (auto simp: moves_def)
  from r obtain f where "rfR n a j f (nRf nd)" "apR (alog a j) (commitIndex (nRf nd)) f (nAp nd)"
    unfolding nodeR_def by blast
  then show ?thesis
    using r rfC_frame[OF _ e o(1,2)] o roundR_ext[OF e] unfolding nodeR_def rfR_def by metis
qed

lemma grows_tlog_take:
  assumes "grows a a'" "tlog a t = Some L" "k \<le> length L"
  obtains L' where "tlog a' t = Some L'" "prefix L L'" "take k L' = take k L"
  using grows_tlog[OF assms(1,2)] take_prefix_mono assms(3) by metis

lemma ent_prefix: "prefix L L' \<Longrightarrow> p < length L \<Longrightarrow> ent L' p = ent L p"
  by (simp add: ent_def prefix_nth)

lemma msgR_ext:
  assumes e: "ext a a'" and r: "msgR n a m"
  shows "msgR n a' m"
proof (cases m)
  case (MVoteReq i j args)
  then show ?thesis using r extD(4)[OF e] by auto
next
  case (MVoteRep i j args reply)
  then show ?thesis using r extD(3)[OF e] by auto
next
  case (MLogRep i j args r' reply)
  then show ?thesis using r acked_ext[OF e] by auto
next
  case (MSnapRep i j args ni mi reply)
  then show ?thesis using r acked_ext[OF e] by auto
next
  case (MLogReq i j args rc)
  with r obtain L p m' where 1: "tlog a (slTerm args) = Some L" "p < m'" "m' \<le> length L"
    "slPrevLogIndex args = int p" "slPrevLogTerm args = fst (L ! p)"
    "slEntries args = map (ent L) [Suc p..<m']" "0 \<le> slLeaderCommit args"
    "slLeaderCommit args < int m'"
    "committed (majority n) a (slTerm args) (take (Suc (nat (slLeaderCommit args))) L)" by auto
  obtain L' where L': "tlog a' (slTerm args) = Some L'" "prefix L L'"
    using grows_tlog[OF extD(1)[OF e] 1(1)] .
  have "map (ent L) [Suc p..<m'] = map (ent L') [Suc p..<m']"
    using ent_prefix[OF L'(2)] 1(3) by auto
  moreover have "L ! p = L' ! p" using prefix_nth[OF L'(2)] 1(2,3) by simp
  moreover have "take (Suc (nat (slLeaderCommit args))) L = take (Suc (nat (slLeaderCommit args))) L'"
    using take_prefix_mono[OF L'(2)] 1(3,7,8) by simp
  moreover have "m' \<le> length L'" using 1(3) prefix_length_le[OF L'(2)] by simp
  moreover have "i < n \<and> j < n" using MLogReq r by simp
  ultimately show ?thesis
    using 1 L'(1) committed_ext[OF e 1(9)] unfolding MLogReq msgR.simps
    by (intro conjI exI[of _ L'] exI[of _ p] exI[of _ m']) simp_all
next
  case (MSnapReq i j args ni mi)
  with r obtain L g where 1: "tlog a (rsTerm args) = Some L" "g < length L"
    "rsLastIncludedIndex args = int g" "rsLastIncludedTerm args = fst (L ! g)"
    "committed (majority n) a (rsTerm args) (take (Suc g) L)" by auto
  obtain L' where L': "tlog a' (rsTerm args) = Some L'" "prefix L L'"
    using grows_tlog[OF extD(1)[OF e] 1(1)] .
  moreover have "L ! g = L' ! g" using prefix_nth[OF L'(2)] 1(2) by simp
  moreover have "take (Suc g) L = take (Suc g) L'" using take_prefix_mono[OF L'(2)] 1(2) by simp
  moreover have "g < length L'" using 1(2) prefix_length_le[OF L'(2)] by simp
  moreover have "i < n \<and> j < n" using MSnapReq r by simp
  ultimately show ?thesis
    using 1 L'(1) committed_ext[OF e 1(5)] unfolding MSnapReq msgR.simps
    by (intro conjI exI[of _ L'] exI[of _ g]) simp_all
qed

lemma goodMsg_ext: "ext a a' \<Longrightarrow> goodMsg n a m \<Longrightarrow> goodMsg n a' m"
  unfolding goodMsg_def using committed_ext by metis

text \<open>A step of node \<open>i\<close> matched by an abstract move of server \<open>i\<close>.\<close>

lemma sysR_update:
  assumes r: "sysR n sy a" and m: "moves n i a a'"
    and nd: "\<And>j. j \<noteq> i \<Longrightarrow> nodes sy' j = nodes sy j" and ni: "i < n \<Longrightarrow> nodeR n a' i (nodes sy' i)"
    and ms: "\<And>x. x \<in> net sy' \<Longrightarrow> x \<in> net sy \<or> msgR n a' x"
    and hs: "\<And>x. x \<in> history sy' \<Longrightarrow> x \<in> history sy \<or> goodMsg n a' x"
  shows "sysR n sy' a'"
  unfolding sysR_def
proof (intro conjI allI impI ballI)
  fix j assume j: "j < n"
  show "nodeR n a' j (nodes sy' j)"
  proof (cases "j = i")
    case True
    then show ?thesis using ni j by simp
  next
    case False
    then show ?thesis using nodeR_frame[OF m False, of "nodes sy j"] r j nd[OF False] by (simp add: sysR_def)
  qed
next
  fix x assume "x \<in> net sy'"
  then show "msgR n a' x" using ms[of x] r msgR_ext[OF movesD(3)[OF m], of n x]
    by (auto simp: sysR_def)
next
  fix x assume "x \<in> history sy'"
  then show "goodMsg n a' x" using hs[of x] r goodMsg_ext[OF movesD(3)[OF m], of n x]
    by (auto simp: sysR_def)
qed

end
