(* ===== verification/Raft_Sim.thy ===== *)
theory Raft_Sim
  imports Raft_Refine
begin

text \<open>
  The simulation of \<open>Raft_Refine\<close>, operation by operation: each handler, reply and timer section
  of \<open>raft/raft.go\<close> is matched by an abstract move of its server (\<open>simStep\<close>).  On the way every
  operation is shown to keep the entries through the commit index and never to lower the
  commit index or the first index.
\<close>

definition simStep :: "nat \<Rightarrow> nat \<Rightarrow> (nat, 'c) aState \<Rightarrow> nat \<Rightarrow> ('c, 's) Raft \<Rightarrow>
    (nat, 'c) aState \<Rightarrow> nat \<Rightarrow> ('c, 's) Raft \<Rightarrow> bool" where
  "simStep n i a f rf a' f' rf' \<longleftrightarrow> moves n i a a' \<and> rfR n a' i f' rf' \<and> f \<le> f' \<and>
     commitIndex rf \<le> commitIndex rf' \<and>
     take (Suc (nat (commitIndex rf))) (alog a' i) = take (Suc (nat (commitIndex rf))) (alog a i)"

lemma simStepI:
  "moves n i a a' \<Longrightarrow> rfR n a' i f' rf' \<Longrightarrow> f \<le> f' \<Longrightarrow> commitIndex rf \<le> commitIndex rf' \<Longrightarrow>
   take (Suc (nat (commitIndex rf))) (alog a' i) = take (Suc (nat (commitIndex rf))) (alog a i) \<Longrightarrow>
   simStep n i a f rf a' f' rf'"
  by (simp add: simStep_def)

lemma simStepD:
  assumes "simStep n i a f rf a' f' rf'"
  shows "moves n i a a'" "aInv (majority n) a'" "rfR n a' i f' rf'" "f \<le> f'"
    "commitIndex rf \<le> commitIndex rf'"
    "take (Suc (nat (commitIndex rf))) (alog a' i) = take (Suc (nat (commitIndex rf))) (alog a i)"
  using assms movesD(2) by (auto simp: simStep_def)

lemma simStep_trans:
  assumes 1: "simStep n i a f rf b g rg" and 2: "simStep n i b g rg c h rh"
  shows "simStep n i a f rf c h rh"
proof (rule simStepI)
  show "moves n i a c" by (rule moves_trans[OF simStepD(1)[OF 1] simStepD(1)[OF 2]])
  show "take (Suc (nat (commitIndex rf))) (alog c i) = take (Suc (nat (commitIndex rf))) (alog a i)"
    using take_eq_take_mono[OF simStepD(6)[OF 2], of "Suc (nat (commitIndex rf))"]
      simStepD(5,6)[OF 1] by simp
qed (use simStepD(3,4,5)[OF 1] simStepD(3,4,5)[OF 2] in auto)

text \<open>A step that changes nothing the abstraction sees.\<close>

lemma simStep_stutter:
  "aInv (majority n) a \<Longrightarrow> rfR n a i f rf' \<Longrightarrow> commitIndex rf' = commitIndex rf \<Longrightarrow>
   simStep n i a f rf a f rf'"
  by (simp add: simStep_def moves_refl)

lemma rfR_first:
  "rfC n a i f rf \<Longrightarrow>
   GetFirstLog rf = Some \<lparr>leTerm = fst (alog a i ! f), leIndex = int f, leData = None\<rparr>"
  by (simp add: GetFirstLog_def rfCD(8) hd_conc)

lemma rfR_last:
  assumes "rfC n a i f rf"
  obtains e where "GetLastLog rf = Some e" "leIndex e = int (length (alog a i)) - 1"
    "leTerm e = lterm (alog a i)"
  using that[of "last (rlog rf)"] last_conc[OF rfCD(7)[OF assms]]
  by (simp add: GetLastLog_def rfCD(8)[OF assms])

section \<open>Terms and votes\<close>

text \<open>The first lines of every handler: adopt a larger term.\<close>

definition raised :: "nat \<Rightarrow> int \<Rightarrow> (nat, 'c) aState \<Rightarrow> (nat, 'c) aState" where
  "raised i t a = (if cur a i < t then aTerm i t a else a)"

lemma AddCurrentTerm_sim:
  assumes inv: "aInv (majority n) a" and r: "rfR n a i f rf"
  shows "simStep n i a f rf (raised i t a) f (AddCurrentTerm tm t rf)"
proof (cases "cur a i < t")
  case False
  then show ?thesis
    using r rfCD(5)[of n a i f rf] inv
    by (simp add: raised_def AddCurrentTerm_def rfR_def simStep_stutter)
next
  case True
  define a' where "a' = aTerm i t a"
  have ra: "raised i t a = a'" using True by (simp add: raised_def a'_def)
  note R = rfCD[OF conjunct1[OF r[unfolded rfR_def]]]
  have m: "moves n i a a'" using moves_term[OF inv True] by (simp add: a'_def)
  note e = movesD(3)[OF m]
  have eqs: "cur a' i = t" "alog a' i = alog a i" "vot a' = vot a"
    by (simp_all add: a'_def aTerm_def)
  have "vot a i t = None" using invVoteD[OF aInvD(1)[OF inv], of i t] True by force
  then have "rfR n a' i f (AddCurrentTerm tm t rf)"
    using True R(1-5,7,8,10,11) committed_mono[OF committed_ext[OF e R(9)], of t]
      committed_mono[OF committed_ext[OF e R(12)], of t]
    by (simp add: rfR_def AddCurrentTerm_def rfC_def eqs SetElectionTime_def)
  then show ?thesis
    using m eqs(2) by (simp add: simStep_def AddCurrentTerm_def ra)
qed

lemma raise_sim:
  assumes inv: "aInv (majority n) a" and r: "rfR n a i f rf" and t: "currentTerm rf \<le> t"
  shows "simStep n i a f rf (raised i t a) f
      (if t > currentTerm rf then AddCurrentTerm tm t rf else rf)"
    and "cur (raised i t a) i = t"
proof -
  have c: "currentTerm rf = cur a i" using r rfCD(5) unfolding rfR_def by blast
  have "(if t > currentTerm rf then AddCurrentTerm tm t rf else rf) = AddCurrentTerm tm t rf"
    by (simp add: AddCurrentTerm_def)
  then show "simStep n i a f rf (raised i t a) f
      (if t > currentTerm rf then AddCurrentTerm tm t rf else rf)"
    using AddCurrentTerm_sim[OF inv r, of t tm] by simp
  show "cur (raised i t a) i = t" using c t by (simp add: raised_def aTerm_def)
qed

lemma grantVote_sim:
  assumes inv: "aInv (majority n) a" and r: "rfC n a i f rf"
    and v: "voteFor rf = int c \<or> (voteFor rf = -1 \<and> clog a c (cur a i) = Some C \<and>
              upToDate C (alog a i))"
  obtains a' where "simStep n i a f rf a' f (grantVote tm (rf\<lparr>voteFor := int c\<rparr>))"
    "vot a' i (cur a i) = Some c"
proof -
  note R = rfCD[OF r]
  have old: "vot a i (cur a i) = (if voteFor rf = -1 then None else Some (nat (voteFor rf)))"
    using R(6) by (auto split: option.splits)
  show ?thesis
  proof (cases "voteFor rf = -1")
    case False
    then have vf: "voteFor rf = int c" "vot a i (cur a i) = Some c" using v old by auto
    then have "rfR n a i f (grantVote tm (rf\<lparr>voteFor := int c\<rparr>))"
      using r by (simp add: rfR_def grantVote_def rfC_def SetElectionTime_def)
    then show ?thesis
      using that[of a] vf(2) inv by (simp add: simStep_stutter grantVote_def)
  next
    case True
    then have C: "clog a c (cur a i) = Some C" "upToDate C (alog a i)" using v by auto
    have none: "vot a i (cur a i) = None" using old True by simp
    have m: "moves n i a (aVote i c a)" by (rule moves_vote[OF inv none C])
    note e = movesD(3)[OF m]
    have "rfR n (aVote i c a) i f (grantVote tm (rf\<lparr>voteFor := int c\<rparr>))"
      using R(1-5,7,8,10,11) committed_ext[OF e R(9)] committed_ext[OF e R(12)]
      by (simp add: rfR_def grantVote_def rfC_def SetElectionTime_def aVote_def)
    then show ?thesis
      using that[of "aVote i c a"] m by (simp add: simStep_def grantVote_def aVote_def)
  qed
qed

lemma RequestVote_sim:
  assumes inv: "aInv (majority n) a" and r: "rfR n a j f rf"
    and C: "clog a i (rvTerm args) = Some C" "rvCandidateId args = int i"
      "rvLastLogIndex args = int (length C) - 1" "rvLastLogTerm args = lterm C"
    and h: "RequestVote tm args rf = Some (rf', reply)"
  obtains a' where "simStep n j a f rf a' f rf'"
    "rvrVoteGranted reply \<Longrightarrow> vot a' j (rvTerm args) = Some i"
proof (cases "rvTerm args < currentTerm rf")
  case True
  then have "rf' = rf" "\<not> rvrVoteGranted reply" using h by (auto simp: RequestVote_def)
  then show ?thesis using that[of a] simStep_stutter[OF inv r] by simp
next
  case False
  let ?T = "rvTerm args"
  define rf1 where "rf1 = (if ?T > currentTerm rf then AddCurrentTerm (tm 0) ?T rf else rf)"
  define a1 where "a1 = raised j ?T a"
  have s1: "simStep n j a f rf a1 f rf1" and c1: "cur a1 j = ?T"
    using raise_sim(1)[OF inv r, of ?T "tm 0"] raise_sim(2)[OF inv r, of ?T] False by (simp_all add: rf1_def a1_def)
  have r1: "rfC n a1 j f rf1" and inv1: "aInv (majority n) a1"
    using simStepD(2,3)[OF s1] by (simp_all add: rfR_def)
  have C1: "clog a1 i (cur a1 j) = Some C"
    using extD(4)[OF movesD(3)[OF simStepD(1)[OF s1]] C(1)] c1 by simp
  obtain lst where lst: "GetLastLog rf1 = Some lst" "leIndex lst = int (length (alog a1 j)) - 1"
    "leTerm lst = lterm (alog a1 j)" using rfR_last[OF r1] .
  have ne: "rlog rf1 \<noteq> []" by (simp add: rfCD(8)[OF r1])
  have up: "upToDate C (alog a1 j)"
    if "lterm C > leTerm lst \<or> (lterm C = leTerm lst \<and> int (length C) - 1 \<ge> leIndex lst)"
    using that lst by (auto simp: upToDate_def)
  consider (grant) "rf' = grantVote (tm 1) (rf1\<lparr>voteFor := int i\<rparr>)"
      "voteFor rf1 = int i \<or> (voteFor rf1 = -1 \<and> upToDate C (alog a1 j))"
    | (refuse) "rf' = rf1" "\<not> rvrVoteGranted reply"
    using h False ne lst up C(2-4) unfolding RequestVote_def Let_def rf1_def[symmetric]
    by (fastforce split: if_splits)
  then show ?thesis
  proof cases
    case grant
    obtain a' where "simStep n j a1 f rf1 a' f rf'" "vot a' j (cur a1 j) = Some i"
      using grantVote_sim[OF inv1 r1, of i C "tm 1"] grant C1 by blast
    then show ?thesis using that simStep_trans[OF s1] c1 by auto
  next
    case refuse
    then show ?thesis using that[of a1] s1 by simp
  qed
qed

section \<open>Taking over the leader's log\<close>

lemma committed_prefix_of_leader:
  "aInv (majority n) a \<Longrightarrow> committed (majority n) a (cur a j) P \<Longrightarrow>
   tlog a (cur a j) = Some L \<Longrightarrow> prefix P L"
  by (rule maj.committed_in_leader[where T = "cur a j" and T' = "cur a j"]) simp_all

text \<open>Two logs with the same term at the same position agree through it.\<close>

lemma log_matching:
  assumes "matches st X" "matches st Y" "p < length X" "p < length Y" "fst (X ! p) = fst (Y ! p)"
    and "X ! 0 = Y ! 0"
  shows "take (Suc p) X = take (Suc p) Y"
proof (cases "p = 0")
  case True
  then show ?thesis using assms by (auto simp: take_Suc hd_conv_nth)
next
  case False
  then obtain U V where "tlog st (fst (X ! p)) = Some U" "prefix (take (Suc p) X) U"
    "tlog st (fst (Y ! p)) = Some V" "prefix (take (Suc p) Y) V"
    using assms(1-4) unfolding matches_def by blast
  then have "prefix (take (Suc p) X) U" "prefix (take (Suc p) Y) U" using assms(5) by auto
  then show ?thesis
    using assms(3,4) prefix_same_take[of "take (Suc p) X" U] prefix_same_take[of "take (Suc p) Y" U]
    by simp
qed

lemma alog_matches_leader:
  assumes inv: "aInv (majority n) a" and L: "tlog a (cur a j) = Some L"
    and p: "p < length (alog a j)" "p < length L" "fst (alog a j ! p) = fst (L ! p)"
  shows "take (Suc p) (alog a j) = take (Suc p) L"
proof -
  note I = aInvD[OF inv]
  have "alog a j ! 0 = L ! 0"
    using wfLogD(2)[OF invLogD(1)[OF I(3)]] wfLogD(2)[OF invLeaderD(1)[OF I(4) L]] by simp
  then show ?thesis
    using log_matching[OF invLogD(2)[OF I(3)] invLeaderD(2)[OF I(4) L] p] by blast
qed

lemma take_eq_prefix: "take m L = take m A \<Longrightarrow> prefix (take m L) A"
  by (simp add: take_is_prefix)

text \<open>The log already contains the first \<open>m\<close> entries of the leader's log.\<close>

lemma accept_same:
  assumes inv: "aInv (majority n) a" and r: "rfC n a j f rf" and L: "tlog a (cur a j) = Some L"
    and m: "0 < m" "m \<le> length L" and p: "prefix (take m L) (alog a j)"
  obtains a' where "moves n j a a'" "rfC n a' j f rf" "cur a' j = cur a j"
    "alog a' j = alog a j" "acked a' j (cur a j) (m - 1)" "tlog a' = tlog a"
proof -
  define a' where "a' = aAccept j (m - 1) L a"
  have mv: "moves n j a a'" using moves_accept[OF inv L, of "m - 1"] m by (simp add: a'_def)
  have eqs: "cur a' = cur a" "alog a' j = alog a j" "vot a' = vot a" "ldr a' = ldr a"
    "tlog a' = tlog a" and ack: "(j, cur a j, m - 1) \<in> acks a'"
    using p m by (auto simp: a'_def aAccept_def)
  have "rfC n a' j f rf" using rfC_frame[OF r movesD(3)[OF mv]] eqs by simp
  then show ?thesis using that[of a'] mv eqs ack by (auto simp: acked_def)
qed

text \<open>The log does not contain them: it becomes those \<open>m\<close> entries.\<close>

lemma accept_new:
  assumes inv: "aInv (majority n) a" and r: "rfC n a j f rf" and L: "tlog a (cur a j) = Some L"
    and m: "m \<le> length L" and p: "\<not> prefix (take m L) (alog a j)"
    and f': "f \<le> f'" "f' < m" "committed (majority n) a (cur a j) (take (Suc f') L)"
    and st: "state rf \<noteq> Candidate"
  obtains a' where "moves n j a a'" "rfC n a' j f' (rf\<lparr>rlog := conc f' (take m L)\<rparr>)"
    "take (Suc (nat (commitIndex rf))) (alog a' j) = take (Suc (nat (commitIndex rf))) (alog a j)"
    "cur a' j = cur a j" "acked a' j (cur a j) (m - 1)" "alog a' j = take m L" "tlog a' = tlog a"
proof -
  note R = rfCD[OF r] and I = aInvD[OF inv]
  define ci where "ci = nat (commitIndex rf)"
  define a' where "a' = aAccept j (m - 1) L a"
  have m0: "0 < m" using f'(2) by simp
  have mv: "moves n j a a'" using moves_accept[OF inv L, of "m - 1"] m m0 by (simp add: a'_def)
  have eqs: "cur a' = cur a" "alog a' j = take m L" "vot a' = vot a" "ldr a' = ldr a"
    "tlog a' = tlog a" and ack: "(j, cur a j, m - 1) \<in> acks a'"
    using p m0 by (auto simp: a'_def aAccept_def)
  have ciA: "ci < length (alog a j)" using R(10,11) by (simp add: ci_def)
  have pc: "prefix (take (Suc ci) (alog a j)) L"
    using committed_prefix_of_leader[OF inv R(12) L] by (simp add: ci_def)
  have "ci < m"
  proof (rule ccontr)
    assume "\<not> ci < m"
    then have "prefix (take m L) (take (Suc ci) (alog a j))"
      using prefix_comparable[OF prefix_takeI pc, of m] ciA by simp
    then show False using p prefix_order.trans prefix_takeI by blast
  qed
  then have ct: "take (Suc ci) (take m L) = take (Suc ci) (alog a j)"
    using take_prefix_mono[OF pc, of "Suc ci"] ciA by simp
  have "state rf \<noteq> Leader"
  proof
    assume "state rf = Leader"
    then have "L = alog a j" using leader_log[OF I(4,5) R(14)] L by simp
    then show False using p by simp
  qed
  moreover have "take (Suc f') (take m L) = take (Suc f') L" using f'(2) by simp
  ultimately have "rfC n a' j f' (rf\<lparr>rlog := conc f' (take m L)\<rparr>)"
    using R(1-6,10) f' m \<open>ci < m\<close> st committed_ext[OF movesD(3)[OF mv] f'(3)]
      committed_ext[OF movesD(3)[OF mv] R(12)] ct
    unfolding rfC_def by (simp add: eqs ci_def nat_less_iff)
  then show ?thesis using that[of a'] mv ct eqs ack by (auto simp: ci_def acked_def)
qed

end
