(* ===== verification/Raft_SimLog.thy ===== *)
theory Raft_SimLog
  imports Raft_Sim
begin

text \<open>
  The simulation for the two handlers that write a follower's log: \<open>RequestSendLog\<close> and
  \<open>RequestInstallSnapShot\<close>.  Both take over a part of the leader's log: the abstract move is
  \<open>aAccept\<close>, which leaves the log alone when it already holds that part.
\<close>

section \<open>RequestSendLog\<close>

lemma dropThrough_ent:
  assumes "q \<le> Suc f" "Suc f < m"
  shows "dropThrough (int f) W (map (ent L) [q..<m]) = map (ent L) [Suc f..<m]"
  using assms
proof (induction "Suc f - q" arbitrary: q)
  case 0
  then have "q = Suc f" by simp
  then show ?case using 0 by (simp add: upt_conv_Cons)
next
  case (Suc k)
  then have "map (ent L) [q..<m] = ent L q # map (ent L) [Suc q..<m]" by (simp add: upt_conv_Cons)
  then show ?case using Suc(1)[of "Suc q"] Suc(2-4) by simp
qed

lemma idx_last_map: "q < m \<Longrightarrow>
  idx (map (ent L) [q..<m]) (int (length (map (ent L) [q..<m])) - 1) = Some (ent L (m - 1))"
  by (cases m) (auto simp: idx_Some_iff nth_append)

text \<open>The arguments after the rewriting block again name a part of the leader's log.\<close>

lemma trimArgs_cases:
  assumes t: "trimArgs firstLog args = Some res" and f: "leIndex firstLog = int f"
    and p: "p < m" "slPrevLogIndex args = int p" "slEntries args = map (ent L) [Suc p..<m]"
  obtains (covered) "res = Inl ()" "m \<le> Suc f" "Suc p < m"
    | (heartbeat) "res = Inr args" "p < f" "m = Suc p"
    | (part) args' p0 where "res = Inr args'" "f \<le> p0" "p0 < m" "slPrevLogIndex args' = int p0"
        "slEntries args' = map (ent L) [Suc p0..<m]" "slLeaderCommit args' = slLeaderCommit args"
        "p0 = p \<and> slPrevLogTerm args' = slPrevLogTerm args \<or> p0 = f"
proof (cases "p < f \<and> Suc p < m")
  case False
  then have "res = Inr args" using t f p(2,3) by (auto simp: trimArgs_def)
  then show ?thesis using that(2) that(3)[of args p] False p by (cases "p < f") auto
next
  case True
  then have lst: "idx (slEntries args) (int (length (slEntries args)) - 1) = Some (ent L (m - 1))"
    using p(3) idx_last_map[of "Suc p" m L] by simp
  show ?thesis
  proof (cases "m \<le> Suc f")
    case le: True
    then have "res = Inl ()" using t f True p lst by (auto simp: trimArgs_def)
    then show ?thesis using that(1) le True by blast
  next
    case gt: False
    then have "res = Inr (args\<lparr>slEntries := map (ent L) [Suc f..<m],
        slPrevLogIndex := leIndex firstLog, slPrevLogTerm := leTerm firstLog\<rparr>)"
      using t f True p lst dropThrough_ent[of "Suc p" f m "slEntries args" L]
      by (auto simp: trimArgs_def)
    then show ?thesis using that(3)[of _ f] gt f by simp
  qed
qed

lemma rlog_at:
  assumes "rfC n a j f rf" "f \<le> p" "p < length (alog a j)"
  shows "idx (rlog rf) (int p - int f) = Some (conc f (alog a j) ! (p - f))"
    and "leTerm (conc f (alog a j) ! (p - f)) = fst (alog a j ! p)"
  using assms idx_conc_iff[of f "alog a j" "int p"] conc_nth_term[of "p - f" "alog a j" f]
    rfCD(8)[OF assms(1)] by (auto simp: diff_less_mono)

lemma appendEntries_kept:
  assumes r: "rfC n a j f rf" and p: "f \<le> p" "p < m" "m \<le> length L" and pre: "prefix (take m L) (alog a j)"
    and args: "slEntries args = map (ent L) [Suc p..<m]" and h: "appendEntries args rf = Some rf'"
  shows "rf' = rf" "take m (alog a j) = take m L"
proof -
  obtain lst where lst: "GetLastLog rf = Some lst" "leIndex lst = int (length (alog a j)) - 1"
    using rfR_last[OF r] by metis
  have len: "m \<le> length (alog a j)" using prefix_length_le[OF pre] p(3) by simp
  show eq: "take m (alog a j) = take m L" using prefix_same_take[OF pre] p(3) by simp
  have e: "idx (rlog rf) (int m - 1 - int f) = Some (conc f (alog a j) ! (m - 1 - f))"
    "leTerm (conc f (alog a j) ! (m - 1 - f)) = fst (alog a j ! (m - 1))"
    using rlog_at[OF r, of "m - 1"] p(1,2) len by (simp_all add: of_nat_diff)
  have "alog a j ! (m - 1) = L ! (m - 1)" using take_eq_nth[OF eq] p(2) by simp
  then show "rf' = rf"
    using h e lst rfR_first[OF r] args len p(2) idx_last_map[of "Suc p" m L]
    by (auto simp: appendEntries_def of_nat_diff split: if_splits)
qed

lemma appendEntries_new:
  assumes inv: "aInv (majority n) a" and r: "rfC n a j f rf" and L: "tlog a (cur a j) = Some L"
    and p: "f \<le> p" "p < m" "m \<le> length L" "p < length (alog a j)"
      "take (Suc p) (alog a j) = take (Suc p) L"
    and args: "slPrevLogIndex args = int p" "slEntries args = map (ent L) [Suc p..<m]"
    and h: "appendEntries args rf = Some rf'" and npre: "\<not> prefix (take m L) (alog a j)"
  shows "rf' = rf\<lparr>rlog := conc f (take m L)\<rparr>"
proof -
  obtain lst where lst: "GetLastLog rf = Some lst" "leIndex lst = int (length (alog a j)) - 1"
    using rfR_last[OF r] by metis
  have m: "Suc p < m"
    using npre p(2,5) take_is_prefix[of "Suc p" "alog a j"] by (cases "m = Suc p") auto
  have "leTerm e \<noteq> fst (L ! (m - 1))"
    if "idx (rlog rf) (int m - 1 - int f) = Some e" "m \<le> length (alog a j)" for e
  proof
    assume "leTerm e = fst (L ! (m - 1))"
    moreover have "leTerm e = fst (alog a j ! (m - 1))"
      using that rlog_at[OF r, of "m - 1"] p(1,2) by (simp add: of_nat_diff)
    ultimately have "take (Suc (m - 1)) (alog a j) = take (Suc (m - 1)) L"
      using alog_matches_leader[OF inv L, of "m - 1"] that(2) p(2,3) by simp
    then show False using npre take_eq_prefix[of m L "alog a j"] p(2) by simp
  qed
  then have "rf' = rf\<lparr>rlog := take (Suc (p - f)) (rlog rf) @ slEntries args\<rparr>"
    using h lst rfR_first[OF r] args m idx_last_map[of "Suc p" m L] p(1)
    by (auto simp: appendEntries_def of_nat_diff slice_to_def nat_add_distrib nat_diff_distrib Suc_diff_le
        split: if_splits bind_splits)
  moreover have "take (Suc (p - f)) (rlog rf) = conc f (take (Suc p) L)"
    using take_conc[OF p(1,4)] p(5) rfCD(8)[OF r] by simp
  ultimately show ?thesis
    using conc_prefix[of f "take (Suc p) L" L m] p m args(2) by (simp add: take_is_prefix)
qed

lemma appendEntries_sim:
  assumes inv: "aInv (majority n) a" and r: "rfC n a j f rf" and L: "tlog a (cur a j) = Some L"
    and p: "f \<le> p" "p < m" "m \<le> length L" "p < length (alog a j)"
      "take (Suc p) (alog a j) = take (Suc p) L"
    and args: "slPrevLogIndex args = int p" "slEntries args = map (ent L) [Suc p..<m]"
    and st: "state rf \<noteq> Candidate" and h: "appendEntries args rf = Some rf'"
  obtains a' where "moves n j a a'" "rfC n a' j f rf'" "commitIndex rf' = commitIndex rf"
    "take (Suc (nat (commitIndex rf))) (alog a' j) = take (Suc (nat (commitIndex rf))) (alog a j)"
    "cur a' j = cur a j" "acked a' j (cur a j) (m - 1)" "take m (alog a' j) = take m L"
    "tlog a' = tlog a"
proof (cases "prefix (take m L) (alog a j)")
  case True
  note kept = appendEntries_kept[OF r p(1-3) True args(2) h]
  obtain a' where "moves n j a a'" "rfC n a' j f rf" "cur a' j = cur a j"
    "alog a' j = alog a j" "acked a' j (cur a j) (m - 1)" "tlog a' = tlog a"
    using accept_same[OF inv r L _ p(3) True] p(2) by auto
  then show ?thesis using that[of a'] kept by simp
next
  case False
  note rf' = appendEntries_new[OF inv r L p args h False]
  have "take (Suc f) L = take (Suc f) (alog a j)" using take_eq_take_mono[OF p(5), of "Suc f"] p(1) by simp
  then have "committed (majority n) a (cur a j) (take (Suc f) L)" using rfCD(9)[OF r] by simp
  then obtain a' where "moves n j a a'" "rfC n a' j f rf'"
    "take (Suc (nat (commitIndex rf))) (alog a' j) = take (Suc (nat (commitIndex rf))) (alog a j)"
    "cur a' j = cur a j" "acked a' j (cur a j) (m - 1)" "alog a' j = take m L" "tlog a' = tlog a"
    using accept_new[OF inv r L p(3) False, of f] p(1,2) st rf' by auto
  then show ?thesis using that[of a'] rf' by simp
qed

lemma followCommit_sim:
  assumes r: "rfR n a j f rf" and m: "take m (alog a j) = take m L" "m \<le> length L"
    and lc: "0 \<le> lc" "lc < int m" "committed (majority n) a (cur a j) (take (Suc (nat lc)) L)"
    and h: "followCommit lc rf = Some (rf', effs)"
  shows "rfR n a j f rf'" "commitIndex rf \<le> commitIndex rf'" "set effs \<subseteq> {SignalApply}"
proof -
  have rC: "rfC n a j f rf" using r by (simp add: rfR_def)
  obtain lst where lst: "GetLastLog rf = Some lst" "leIndex lst = int (length (alog a j)) - 1"
    using rfR_last[OF rC] by metis
  have len: "m \<le> length (alog a j)" using arg_cong[OF m(1), of length] m(2) by simp
  have eq: "rf' = (if lc > commitIndex rf then rf\<lparr>commitIndex := lc\<rparr> else rf)"
    and effs: "set effs \<subseteq> {SignalApply}"
    using h lst len lc(2) by (auto simp: followCommit_def min_def split: if_splits)
  have "take (Suc (nat lc)) (alog a j) = take (Suc (nat lc)) L"
    using take_eq_take_mono[OF m(1), of "Suc (nat lc)"] lc by simp
  then show "rfR n a j f rf'"
    using r rfCD[OF rC] lc len unfolding eq rfR_def rfC_def by simp
  show "commitIndex rf \<le> commitIndex rf'" "set effs \<subseteq> {SignalApply}"
    using eq effs by auto
qed

text \<open>The part of the handler after the consistency check.\<close>

lemma sendLogTail_sim:
  assumes inv: "aInv (majority n) a" and r: "rfR n a j f rf" and L: "tlog a (cur a j) = Some L"
    and p: "f \<le> p" "p < m" "m \<le> length L" "p < length (alog a j)"
      "take (Suc p) (alog a j) = take (Suc p) L"
    and args: "slPrevLogIndex args = int p" "slEntries args = map (ent L) [Suc p..<m]"
    and lc: "0 \<le> lc" "lc < int m" "committed (majority n) a (cur a j) (take (Suc (nat lc)) L)"
    and st: "state rf \<noteq> Candidate" and h: "appendEntries args rf = Some rf1"
      "followCommit lc (persist rf1) = Some (rf', effs)"
  obtains a' where "simStep n j a f rf a' f rf'" "acked a' j (cur a j) (m - 1)"
    "set effs \<subseteq> {SignalApply}"
proof -
  have rC: "rfC n a j f rf" using r by (simp add: rfR_def)
  obtain a' where a': "moves n j a a'" "rfC n a' j f rf1" "commitIndex rf1 = commitIndex rf"
    "take (Suc (nat (commitIndex rf))) (alog a' j) = take (Suc (nat (commitIndex rf))) (alog a j)"
    "cur a' j = cur a j" "acked a' j (cur a j) (m - 1)" "take m (alog a' j) = take m L"
    "tlog a' = tlog a"
    using appendEntries_sim[OF inv rC L p args st h(1)] .
  have "rfR n a' j f (persist rf1)" using a'(2) by (simp add: rfR_def)
  note F = followCommit_sim[OF this a'(7) p(3) lc(1,2) _ h(2)]
  have c: "committed (majority n) a' (cur a' j) (take (Suc (nat lc)) L)"
    using committed_ext[OF movesD(3)[OF a'(1)] lc(3)] a'(5) by simp
  show ?thesis
    using that[of a'] a'(1,3,4,6) F[OF c] by (simp add: simStep_def)
qed

lemma sendLogBody_cases:
  assumes r: "rfC n a j f rf"
    and p: "p < m" "slPrevLogIndex args = int p" "slPrevLogTerm args = fst (L ! p)"
      "slEntries args = map (ent L) [Suc p..<m]"
    and h: "sendLogBody args rf = Some (rf', ok, effs)"
    and rf1: "rf1 = (if state rf = Candidate then rf\<lparr>state := Follower\<rparr> else rf)"
  obtains (refuse) "rf' = rf" "\<not> ok" "effs = []"
    | (covered) "rf' = rf" "effs = []" "m \<le> Suc f"
    | (heartbeat) "p < f" "m = Suc p" "followCommit (slLeaderCommit args) (persist rf1) = Some (rf', effs)"
    | (part) args' p0 rf2 where "f \<le> p0" "p0 < m" "p0 < length (alog a j)"
        "slPrevLogIndex args' = int p0" "slEntries args' = map (ent L) [Suc p0..<m]"
        "p0 = f \<or> fst (alog a j ! p0) = fst (L ! p0)" "appendEntries args' rf1 = Some rf2"
        "followCommit (slLeaderCommit args) (persist rf2) = Some (rf', effs)"
proof -
  note R = rfCD[OF r] and fst = rfR_first[OF r]
  obtain lst where lst: "GetLastLog rf = Some lst" "leIndex lst = int (length (alog a j)) - 1"
    using rfR_last[OF r] by metis
  show ?thesis
  proof (cases "p < length (alog a j)")
    case False
    then show ?thesis using h lst p(2) refuse by (simp add: sendLogBody_def)
  next
    case True
    obtain res where res: "trimArgs \<lparr>leTerm = fst (alog a j ! f), leIndex = int f, leData = None\<rparr> args
        = Some res"
      using h lst fst True p(2) by (auto simp: sendLogBody_def split: bind_splits)
    show ?thesis
    proof (cases rule: trimArgs_cases[OF res _ p(1,2,4), of f, simplified, consumes 0,
          case_names covered heartbeat part])
      case covered
      then show ?thesis using that(2) h lst fst True p(2) res by (simp add: sendLogBody_def)
    next
      case heartbeat
      then have "appendEntries args rf1 = Some rf1" using p(4) by (simp add: appendEntries_def)
      then show ?thesis using that(3) h lst fst True p(2) res heartbeat rf1
        by (auto simp: sendLogBody_def split: bind_splits)
    next
      case (part args' p0)
      have p0: "p0 < length (alog a j)" using part(7) True R(7) by auto
      note e = rlog_at[OF r part(2) p0]
      have "rf' = rf \<and> \<not> ok \<and> effs = [] \<or>
        (p0 = f \<or> fst (alog a j ! p0) = slPrevLogTerm args') \<and>
        (\<exists>rf2. appendEntries args' rf1 = Some rf2 \<and>
          followCommit (slLeaderCommit args') (persist rf2) = Some (rf', effs))"
        using h lst fst True p(2) res part(1,2,4) e rf1
        by (auto simp: sendLogBody_def split: bind_splits if_splits)
      then show ?thesis using that(1) that(4)[of p0 args'] part p0 p(3) by auto
    qed
  qed
qed

lemma sendLogBody_sim:
  assumes inv: "aInv (majority n) a" and r: "rfR n a j f rf" and L: "tlog a (cur a j) = Some L"
    and p: "p < m" "m \<le> length L" "slPrevLogIndex args = int p" "slPrevLogTerm args = fst (L ! p)"
      "slEntries args = map (ent L) [Suc p..<m]"
    and lc: "0 \<le> slLeaderCommit args" "slLeaderCommit args < int m"
      "committed (majority n) a (cur a j) (take (Suc (nat (slLeaderCommit args))) L)"
    and h: "sendLogBody args rf = Some (rf', ok, effs)"
  obtains a' where "simStep n j a f rf a' f rf'" "set effs \<subseteq> {SignalApply}"
    "ok \<and> slEntries args \<noteq> [] \<longrightarrow> acked a' j (cur a j) (m - 1)"
proof -
  have rC: "rfC n a j f rf" using r by (simp add: rfR_def)
  note R = rfCD[OF rC]
  define rf1 where "rf1 = (if state rf = Candidate then rf\<lparr>state := Follower\<rparr> else rf)"
  have r1: "rfR n a j f rf1" "state rf1 \<noteq> Candidate" "commitIndex rf1 = commitIndex rf"
    using r rfC_Follower by (auto simp: rf1_def rfR_def)
  have first: "take (Suc f) (alog a j) = take (Suc f) L"
    using prefix_same_take[OF committed_prefix_of_leader[OF inv R(9) L]] R(7) by simp
  show ?thesis
  proof (cases rule: sendLogBody_cases[OF rC p(1,3-5) h rf1_def, consumes 0,
        case_names refuse covered heartbeat part])
    case refuse
    then show ?thesis using that[of a] simStep_stutter[OF inv r] by simp
  next
    case covered
    have "prefix (take m L) (alog a j)"
      using take_eq_prefix take_eq_take_mono[OF first covered(3)] by metis
    then obtain a' where "moves n j a a'" "rfC n a' j f rf" "alog a' j = alog a j"
      "acked a' j (cur a j) (m - 1)"
      using accept_same[OF inv rC L _ p(2)] p(1) by auto
    then show ?thesis using that[of a'] covered r by (simp add: simStep_def rfR_def)
  next
    case heartbeat
    have "rfR n a j f (persist rf1)" using r1(1) by (simp add: rfR_def)
    note F = followCommit_sim[OF this _ p(2) lc heartbeat(3)]
    have "take m (alog a j) = take m L" using take_eq_take_mono[OF first] heartbeat(1,2) by simp
    from F[OF this] show ?thesis
      using that[of a] heartbeat(2) p(5) r1(3) inv by (simp add: simStep_def moves_refl)
  next
    case (part args' p0 rf2)
    have "take (Suc p0) (alog a j) = take (Suc p0) L"
      using part(2,3,6) first alog_matches_leader[OF inv L part(3)] p(2) by fastforce
    then obtain a' where "simStep n j a f rf1 a' f rf'" "acked a' j (cur a j) (m - 1)"
      "set effs \<subseteq> {SignalApply}"
      using sendLogTail_sim[OF inv r1(1) L part(1,2) p(2) part(3) _ part(4,5) lc r1(2) part(7,8)] by blast
    then show ?thesis using that[of a'] r1(3) by (simp add: simStep_def)
  qed
qed

lemma raised_tlog [simp]: "tlog (raised j t a) = tlog a"
  by (simp add: raised_def aTerm_def)

lemma RequestSendLog_sim:
  assumes inv: "aInv (majority n) a" and r: "rfR n a j f rf" and m: "msgR n a (MLogReq i j args rc)"
    and h: "RequestSendLog tm args rf = Some (rf', reply, effs)"
  obtains a' where "simStep n j a f rf a' f rf'" "set effs \<subseteq> {SignalApply}"
    "msgR n a' (MLogRep i j args rc reply)"
proof (cases "slTerm args < currentTerm rf")
  case True
  then have "rf' = rf" "effs = []" "\<not> slrSuccess reply"
    using h by (auto simp: RequestSendLog_def sendLogDone_def)
  then show ?thesis using that[of a] simStep_stutter[OF inv r] m by simp
next
  case False
  define rf1 where "rf1 = (if slTerm args > currentTerm rf
    then AddCurrentTerm (tm 0) (slTerm args) rf else rf)"
  define a1 where "a1 = raised j (slTerm args) a"
  have s1: "simStep n j a f rf a1 f rf1" and c1: "cur a1 j = slTerm args"
    using raise_sim(1)[OF inv r, of "slTerm args" "tm 0"] raise_sim(2)[OF inv r, of "slTerm args"] False
    by (simp_all add: rf1_def a1_def)
  from m obtain L p q where L: "tlog a (slTerm args) = Some L"
    and p: "p < q" "q \<le> length L" "slPrevLogIndex args = int p" "slPrevLogTerm args = fst (L ! p)"
      "slEntries args = map (ent L) [Suc p..<q]"
    and lc: "0 \<le> slLeaderCommit args" "slLeaderCommit args < int q"
      "committed (majority n) a (slTerm args) (take (Suc (nat (slLeaderCommit args))) L)"
    by auto
  have L1: "tlog a1 (cur a1 j) = Some L" using L c1 by (simp add: a1_def)
  have lc1: "committed (majority n) a1 (cur a1 j) (take (Suc (nat (slLeaderCommit args))) L)"
    using committed_ext[OF movesD(3)[OF simStepD(1)[OF s1]] lc(3)] c1 by simp
  obtain rf2 ok where b: "sendLogBody args rf1 = Some (rf2, ok, effs)"
    and d: "sendLogDone (tm 1) args ok rf2 = (rf', reply)"
    using h False by (auto simp: RequestSendLog_def rf1_def Let_def split: bind_splits prod.splits)
  obtain a' where s2: "simStep n j a1 f rf1 a' f rf2" and effs: "set effs \<subseteq> {SignalApply}"
    and ack: "ok \<and> slEntries args \<noteq> [] \<longrightarrow> acked a' j (cur a1 j) (q - 1)"
    using sendLogBody_sim[OF simStepD(2,3)[OF s1] L1 p lc(1,2) lc1 b] .
  have "simStep n j a f rf a' f rf'"
    using simStep_trans[OF s1 s2] d by (auto simp: simStep_def sendLogDone_def rfR_def)
  moreover have "nat (leIndex (last (slEntries args))) = q - 1" if "slEntries args \<noteq> []"
    using that p(5) by (simp add: last_map nat_diff_distrib)
  then have "msgR n a' (MLogRep i j args rc reply)"
    using m ack c1 d by (auto simp: sendLogDone_def)
  ultimately show ?thesis using that effs by blast
qed

section \<open>RequestInstallSnapShot\<close>

lemma installSnapShot_cases:
  assumes r: "rfC n a j f rf" and g: "rsLastIncludedIndex args = int g"
    and h: "installSnapShot tm args rf = Some (rf', effs)"
  obtains (discard) "rf' = rf" "effs = []"
      "g \<le> f \<or> g < length (alog a j) \<and> fst (alog a j ! g) = rsLastIncludedTerm args"
    | (replace) "rf' = SetElectionTime tm 200
              (rf\<lparr>rlog := [\<lparr>leTerm = rsLastIncludedTerm args, leIndex = int g, leData = None\<rparr>],
                  snapshot := rsData args\<rparr>)"
      "effs = [SpawnSnapshot (int g) (rsLastIncludedTerm args)]"
      "f < g" "g \<ge> length (alog a j) \<or> fst (alog a j ! g) \<noteq> rsLastIncludedTerm args"
proof -
  note R = rfCD[OF r] and fst = rfR_first[OF r]
  obtain lst where lst: "GetLastLog rf = Some lst" "leIndex lst = int (length (alog a j)) - 1"
    using rfR_last[OF r] by metis
  show ?thesis
  proof (cases "f < g \<and> g < length (alog a j)")
    case True
    then show ?thesis
      using h lst fst g rlog_at[OF r, of g] that by (auto simp: installSnapShot_def split: if_splits)
  next
    case False
    then show ?thesis
      using h lst fst g that by (auto simp: installSnapShot_def split: if_splits)
  qed
qed

lemma installSnapShot_sim:
  assumes inv: "aInv (majority n) a" and r: "rfR n a j f rf" and L: "tlog a (cur a j) = Some L"
    and g: "g < length L" "rsLastIncludedIndex args = int g" "rsLastIncludedTerm args = fst (L ! g)"
      "committed (majority n) a (cur a j) (take (Suc g) L)"
    and st: "state rf \<noteq> Candidate" and h: "installSnapShot tm args rf = Some (rf', effs)"
  obtains a' f' where "simStep n j a f rf a' f' (persist rf')" "acked a' j (cur a j) g"
    "set effs \<subseteq> {SpawnSnapshot (int g) t | t. g \<le> f'}"
proof -
  have rC: "rfC n a j f rf" using r by (simp add: rfR_def)
  note R = rfCD[OF rC]
  have first: "take (Suc f) (alog a j) = take (Suc f) L"
    using prefix_same_take[OF committed_prefix_of_leader[OF inv R(9) L]] R(7) by simp
  show ?thesis
  proof (cases rule: installSnapShot_cases[OF rC g(2) h, consumes 0, case_names discard replace])
    case discard
    have "take (Suc g) (alog a j) = take (Suc g) L"
      using discard(3) take_eq_take_mono[OF first, of "Suc g"] alog_matches_leader[OF inv L _ g(1)] g(3) by auto
    then have "prefix (take (Suc g) L) (alog a j)" using take_eq_prefix by metis
    then obtain a' where "moves n j a a'" "rfC n a' j f rf" "alog a' j = alog a j"
      "acked a' j (cur a j) g"
      using accept_same[OF inv rC L, of "Suc g"] g(1) by auto
    then show ?thesis using that[of a' f] discard by (simp add: simStep_def rfR_def)
  next
    case replace
    have np: "\<not> prefix (take (Suc g) L) (alog a j)"
    proof
      assume pre: "prefix (take (Suc g) L) (alog a j)"
      then have "g < length (alog a j)" using prefix_length_le[OF pre] g(1) by simp
      then show False using replace(4) prefix_nth[OF pre, of g] g(1,3) by simp
    qed
    have len: "Suc g \<le> length L" and fg: "f \<le> g" "g < Suc g" using g(1) replace(3) by auto
    obtain a' where a': "moves n j a a'"
      "rfC n a' j g (rf\<lparr>rlog := conc g (take (Suc g) L)\<rparr>)"
      "take (Suc (nat (commitIndex rf))) (alog a' j) = take (Suc (nat (commitIndex rf))) (alog a j)"
      "acked a' j (cur a j) g"
      using accept_new[OF inv rC L len np fg g(4) st] by (metis diff_Suc_1)
    have "conc g (take (Suc g) L) =
        [\<lparr>leTerm = rsLastIncludedTerm args, leIndex = int g, leData = None\<rparr>]"
      using g(1,3) by (simp add: conc_def)
    moreover have "rfC n a' j g (persist rf')"
      using a'(2) replace(1) by (simp add: calculation)
    ultimately show ?thesis
      using that[of a' g] a' replace by (simp add: simStep_def rfR_def)
  qed
qed

lemma RequestInstallSnapShot_sim:
  assumes inv: "aInv (majority n) a" and r: "rfR n a j f rf" and m: "msgR n a (MSnapReq i j args ni mi)"
    and h: "RequestInstallSnapShot tm args rf = Some (rf', reply, effs)"
  obtains a' f' where "simStep n j a f rf a' f' rf'" "msgR n a' (MSnapRep i j args ni mi reply)"
    "set effs \<subseteq> {SpawnSnapshot (int g) t | g t. g \<le> f'}"
proof (cases "rsTerm args < currentTerm rf")
  case True
  then have "rf' = persist rf" "effs = []" "rsrTerm reply > rsTerm args"
    using h by (auto simp: RequestInstallSnapShot_def)
  then show ?thesis
    using that[of a f] simStep_stutter[OF inv, of j f "persist rf" rf] r m by (simp add: rfR_def)
next
  case False
  define rf1 where "rf1 = (if rsTerm args > currentTerm rf
    then AddCurrentTerm (tm 0) (rsTerm args) rf else rf)"
  define rf2 where "rf2 = (if state rf1 = Candidate then rf1\<lparr>state := Follower\<rparr> else rf1)"
  define a1 where "a1 = raised j (rsTerm args) a"
  have s1: "simStep n j a f rf a1 f rf1" and c1: "cur a1 j = rsTerm args"
    using raise_sim(1)[OF inv r, of "rsTerm args" "tm 0"] raise_sim(2)[OF inv r, of "rsTerm args"] False
    by (simp_all add: rf1_def a1_def)
  have "rfR n a1 j f rf2" "commitIndex rf2 = commitIndex rf1"
    using simStepD(3)[OF s1] rfC_Follower by (auto simp: rf2_def rfR_def)
  then have s2: "simStep n j a f rf a1 f rf2" using s1 by (simp add: simStep_def)
  from m obtain L g where L: "tlog a (rsTerm args) = Some L"
    and g: "g < length L" "rsLastIncludedIndex args = int g" "rsLastIncludedTerm args = fst (L ! g)"
      "committed (majority n) a (rsTerm args) (take (Suc g) L)"
    by auto
  have L1: "tlog a1 (cur a1 j) = Some L" using L c1 by (simp add: a1_def)
  have g1: "committed (majority n) a1 (cur a1 j) (take (Suc g) L)"
    using committed_ext[OF movesD(3)[OF simStepD(1)[OF s1]] g(4)] c1 by simp
  obtain rf3 where b: "installSnapShot (tm 1) args rf2 = Some (rf3, effs)" "rf' = persist rf3"
    using h False unfolding RequestInstallSnapShot_def Let_def rf1_def[symmetric] rf2_def[symmetric]
    by (auto split: bind_splits)
  have st: "state rf2 \<noteq> Candidate" by (simp add: rf2_def)
  obtain a' f' where "simStep n j a1 f rf2 a' f' rf'" "acked a' j (cur a1 j) g"
    "set effs \<subseteq> {SpawnSnapshot (int g) t | t. g \<le> f'}"
    using installSnapShot_sim[OF simStepD(2,3)[OF s2] L1 g(1-3) g1 st b(1)] b(2) by blast
  then show ?thesis using that[of a' f'] simStep_trans[OF s2] m c1 g(2) by fastforce
qed

end
