(* ===== verification/Raft_SimLeader.thy ===== *)
theory Raft_SimLeader
  imports Raft_SimLog
begin

text \<open>
  The simulation for the sending side: the commit loop, replies to replication and snapshot
  requests, replication rounds, elections, \<open>Start\<close>, \<open>Snapshot\<close> and \<open>Make\<close>.
\<close>

section \<open>Advancing the commit index\<close>

lemma matchCount_card: "matchCount b mi = card {j. j < length mi \<and> b \<le> mi ! j}"
  by (simp add: matchCount_def length_filter_conv_card)

text \<open>An entry of the leader's term that a majority of the match indices cover is committed.\<close>

lemma quorum_committed:
  assumes inv: "aInv (majority n) a" and r: "rfC n a i f rf" and st: "state rf = Leader"
    and b: "0 < b" "b < length (alog a i)" "fst (alog a i ! b) = cur a i"
    and c: "n div 2 < matchCount (int b) (matchIndex rf)"
  shows "committed (majority n) a (cur a i) (take (Suc b) (alog a i))"
proof -
  note R = rfCD[OF r] and I = aInvD[OF inv]
  have L: "tlog a (cur a i) = Some (alog a i)" by (rule leader_log[OF I(4,5) R(14)[OF st]])
  let ?Q = "{j. j < n \<and> int b \<le> matchIndex rf ! j}"
  have "majority n ?Q" using c R(4) by (auto simp: majority_def matchCount_card)
  moreover have "acked a j (cur a i) b" if j: "j \<in> ?Q" for j
  proof -
    have "acked a j (cur a i) (nat (matchIndex rf ! j))" using R(15)[OF st, of j] j b(1) by auto
    moreover have "b \<le> nat (matchIndex rf ! j)" using j by (simp add: le_nat_iff)
    ultimately show ?thesis unfolding acked_def using order_trans by blast
  qed
  ultimately have "chosen (majority n) a (cur a i) b"
    using L b unfolding chosen_def entryAt_def by blast
  then show ?thesis
    using L b(2) unfolding committed_def
    by (intro disjI2 exI[of _ "cur a i"] exI[of _ b] exI[of _ "alog a i"]) auto
qed

lemma commitLoop_sim:
  assumes "commitLoop b rf effs = Some (rf', effs')" "aInv (majority n) a" "rfR n a i f rf"
    "state rf = Leader" "0 < b"
  shows "rfR n a i f rf' \<and> commitIndex rf \<le> commitIndex rf' \<and> set effs' \<subseteq> set effs \<union> {SignalApply}"
  using assms
proof (induction b rf effs arbitrary: rf' effs' rule: commitLoop.induct)
  case (1 b rf effs)
  have rC: "rfC n a i f rf" using 1(5) by (simp add: rfR_def)
  note R = rfCD[OF rC] and fst = rfR_first[OF rC]
  obtain lst where lst: "GetLastLog rf = Some lst" "leIndex lst = int (length (alog a i)) - 1"
    using rfR_last[OF rC] by metis
  consider (stop) "rf' = rf" "effs' = effs"
    | (skip) "b \<le> leIndex lst" "\<not> matchCount b (matchIndex rf) \<le> npeers rf div 2"
        "commitLoop (b + 1) rf effs = Some (rf', effs')"
        "(if b > commitIndex rf then do {
            firstLog \<leftarrow> GetFirstLog rf;
            e \<leftarrow> idx (rlog rf) (b - leIndex firstLog);
            Some (currentTerm rf = leTerm e) } else Some False) = Some False"
    | (commit) e where "b \<le> leIndex lst" "\<not> matchCount b (matchIndex rf) \<le> npeers rf div 2"
        "b > commitIndex rf" "idx (rlog rf) (b - int f) = Some e" "currentTerm rf = leTerm e"
        "commitLoop (b + 1) (rf\<lparr>commitIndex := b\<rparr>) (effs @ [SignalApply]) = Some (rf', effs')"
    using 1(3) lst fst by (subst (asm) commitLoop.simps) (auto split: if_splits bind_splits option.splits bool.splits)
  then show ?case
  proof cases
    case stop
    then show ?thesis using 1(5) by auto
  next
    case skip
    show ?thesis using 1(2)[OF lst(1) skip(1,2,4) refl skip(3) 1(4-6)] 1(7) by auto
  next
    case (commit e)
    obtain p where p: "b = int p" "f \<le> p" "p < length (alog a i)" "leTerm e = fst (alog a i ! p)"
      using commit(4) idx_conc_iff[OF R(7), of b e] R(8) rlog_at(2)[OF rC] by auto
    have "committed (majority n) a (cur a i) (take (Suc p) (alog a i))"
      using quorum_committed[OF 1(4) rC 1(6), of p] p commit(2,5) 1(7) R(2,5) by simp
    then have "rfR n a i f (rf\<lparr>commitIndex := b\<rparr>)"
      using 1(5) R p by (simp add: rfR_def rfC_def)
    then show ?thesis
      using 1(1)[OF lst(1) commit(1,2) _ refl commit(6) 1(4)] commit fst 1(6,7) by auto
  qed
qed

section \<open>Replies\<close>

lemma nth_update: "k < length xs \<Longrightarrow> xs[j := x] ! k = (if k = j then x else xs ! k)"
  by simp

lemma rfR_matchIndex:
  assumes "rfR n a i f rf" "acked a j (cur a i) (nat x)"
  shows "rfR n a i f (rf\<lparr>matchIndex := (matchIndex rf)[j := x]\<rparr>)"
  using assms by (auto simp: rfR_def rfC_def nth_update)

lemma rfR_nextIndex:
  "rfR n a i f rf \<Longrightarrow> rfR n a i f (rf\<lparr>nextIndex := (nextIndex rf)[j := x]\<rparr>)"
  by (simp add: rfR_def)

lemma commitFrom_sim:
  assumes inv: "aInv (majority n) a" and r: "rfR n a i f rf2" and st: "state rf2 = Leader"
    and c: "commitIndex rf2 = commitIndex rf"
    and h: "commitLoop (commitIndex rf2 + 1) rf2 [] = Some (rf', effs)"
  shows "simStep n i a f rf a f rf'" "set effs \<subseteq> {SignalApply}"
proof -
  have "0 < commitIndex rf2 + 1" using r rfCD(10)[of n a i f rf2] by (simp add: rfR_def)
  from commitLoop_sim[OF h inv r st this]
  show "simStep n i a f rf a f rf'" "set effs \<subseteq> {SignalApply}"
    using c inv by (simp_all add: simStep_def moves_refl)
qed

lemma sendLog_succeeded_sim:
  assumes inv: "aInv (majority n) a" and r: "rfR n a i f rf" and st: "state rf = Leader"
    and ack: "slEntries args \<noteq> [] \<Longrightarrow> acked a j (cur a i) (nat (leIndex (last (slEntries args))))"
    and h: "sendLog_succeeded j args rf = Some (rf', effs)"
  shows "simStep n i a f rf a f rf'" "set effs \<subseteq> {SignalApply}"
proof -
  have "simStep n i a f rf a f rf' \<and> set effs \<subseteq> {SignalApply}"
  proof (cases "slEntries args = []")
    case True
    then show ?thesis using h simStep_stutter[OF inv r] by (simp add: sendLog_succeeded_def)
  next
    case False
    define x where "x = leIndex (last (slEntries args))"
    obtain mi ni where mi: "idx (matchIndex rf) (int j) = Some mi" "idx (nextIndex rf) (int j) = Some ni"
      using h False by (auto simp: sendLog_succeeded_def split: bind_splits)
    define rf1 where "rf1 = (if x > mi then rf\<lparr>matchIndex := (matchIndex rf)[j := x]\<rparr> else rf)"
    define rf2 where "rf2 = (if x + 1 > ni
      then rf1\<lparr>nextIndex := (nextIndex rf1)[j := x + 1]\<rparr> else rf1)"
    have c: "commitLoop (commitIndex rf2 + 1) rf2 [] = Some (rf', effs)"
      using h False mi unfolding sendLog_succeeded_def rf2_def rf1_def x_def
      by (simp add: idx_last Let_def)
    have "rfR n a i f rf1" using r rfR_matchIndex[OF r ack[OF False]] by (simp add: rf1_def x_def)
    then have "rfR n a i f rf2" using rfR_nextIndex by (auto simp: rf2_def)
    then show ?thesis
      using commitFrom_sim[OF inv _ _ _ c] st by (simp add: rf2_def rf1_def)
  qed
  then show "simStep n i a f rf a f rf'" "set effs \<subseteq> {SignalApply}" by auto
qed

lemma sendLog_failed_sim:
  assumes "aInv (majority n) a" "rfR n a i f rf" "sendLog_failed j rc rf = Some rf'"
  shows "simStep n i a f rf a f rf'"
proof -
  obtain xs where "rf' = rf \<or> rf' = rf\<lparr>nextIndex := (nextIndex rf)[j := xs]\<rparr>"
    using assms(3) by (auto simp: sendLog_failed_def Let_def split: bind_splits if_splits)
  then show ?thesis using simStep_stutter[OF assms(1)] assms(2) rfR_nextIndex by fastforce
qed

lemma sendLog_recv_sim:
  assumes inv: "aInv (majority n) a" and r: "rfR n a i f rf"
    and m: "msgR n a (MLogRep i j args rc reply)"
    and h: "sendLog_recv tm j args rc reply rf = Some (rf', effs)"
  obtains a' where "simStep n i a f rf a' f rf'" "set effs \<subseteq> {SignalApply}"
proof -
  have c: "currentTerm rf = cur a i" using r rfCD(5) unfolding rfR_def by blast
  consider (higher) "rf' = AddCurrentTerm (tm 0) (slrTerm reply) rf" "effs = []"
    | (ok) "state rf = Leader" "cur a i = slTerm args" "slrSuccess reply"
        "sendLog_succeeded j args rf = Some (rf', effs)"
    | (failed) "sendLog_failed j rc rf = Some rf'" "effs = []"
    | (stale) "rf' = rf" "effs = []"
    using h c by (auto simp: sendLog_recv_def split: if_splits)
  then show ?thesis
  proof cases
    case higher
    then show ?thesis using that AddCurrentTerm_sim[OF inv r, of "slrTerm reply" "tm 0"] by simp
  next
    case ok
    then show ?thesis using that sendLog_succeeded_sim[OF inv r ok(1) _ ok(4)] m by auto
  next
    case failed
    then show ?thesis using that sendLog_failed_sim[OF inv r failed(1)] by simp
  next
    case stale
    then show ?thesis using that simStep_stutter[OF inv r refl] by simp
  qed
qed

lemma sendSnapShot_recv_sim:
  assumes inv: "aInv (majority n) a" and r: "rfR n a i f rf"
    and m: "msgR n a (MSnapRep i j args ni mi reply)"
    and h: "sendSnapShot_recv tm j args ni mi reply rf = Some (rf', effs)"
  obtains a' where "simStep n i a f rf a' f rf'" "set effs \<subseteq> {SignalApply}"
proof -
  have c: "currentTerm rf = cur a i" using r rfCD(5) unfolding rfR_def by blast
  consider (higher) "rsrTerm reply > cur a i"
    | (stale) "rsrTerm reply \<le> cur a i" "\<not> (state rf = Leader \<and> cur a i = rsTerm args)"
    | (ok) "rsrTerm reply \<le> cur a i" "state rf = Leader" "cur a i = rsTerm args" by linarith
  then show ?thesis
  proof cases
    case higher
    then have "rf' = AddCurrentTerm (tm 0) (rsrTerm reply) rf" "effs = []"
      using h c by (simp_all add: sendSnapShot_recv_def)
    then show ?thesis using that AddCurrentTerm_sim[OF inv r, of "rsrTerm reply" "tm 0"] by simp
  next
    case stale
    then have "rf' = rf" "effs = []" using h c by (auto simp: sendSnapShot_recv_def)
    then show ?thesis using that simStep_stutter[OF inv r refl] by simp
  next
    case ok
    let ?x = "rsLastIncludedIndex args"
    obtain ni' mi' where x: "idx (nextIndex rf) (int j) = Some ni'" "idx (matchIndex rf) (int j) = Some mi'"
      using h ok c by (auto simp: sendSnapShot_recv_def split: bind_splits)
    define rf1 where "rf1 = (if ni' = ni \<and> ?x + 1 > ni'
      then rf\<lparr>nextIndex := (nextIndex rf)[j := ?x + 1]\<rparr> else rf)"
    define rf2 where "rf2 = (if mi' = mi \<and> ?x > mi'
      then rf1\<lparr>matchIndex := (matchIndex rf1)[j := ?x]\<rparr> else rf1)"
    have l: "commitLoop (commitIndex rf2 + 1) rf2 [] = Some (rf', effs)"
      using h ok x c unfolding sendSnapShot_recv_def Let_def rf1_def rf2_def by simp
    have ack: "acked a j (cur a i) (nat ?x)" using m ok(1,3) by simp
    have "rfR n a i f rf1" using r rfR_nextIndex[OF r] by (simp add: rf1_def)
    from this rfR_matchIndex[OF this ack] have "rfR n a i f rf2" by (simp add: rf2_def)
    moreover have "state rf2 = Leader" "commitIndex rf2 = commitIndex rf"
      using ok(2) by (simp_all add: rf1_def rf2_def)
    ultimately show ?thesis using that commitFrom_sim[OF inv _ _ _ l] by blast
  qed
qed

section \<open>Replication rounds\<close>

lemma prepareSendLog_cases:
  assumes r: "rfC n a i f rf" and h: "prepareSendLog k rf = Some (rf', args, rc)"
  obtains (self) "k = i" "rf' = rf" | (snap) "rf' = rf" "slShouldSendSnapShot args"
    | (log) ni e es where "idx (rlog rf) (ni - int f - 1) = Some e"
        "slice_from (rlog rf) (ni - int f) = Some es"
        "rf' = rf\<lparr>nextIndex := (nextIndex rf)[k := ni]\<rparr>" "slTerm args = cur a i"
        "slPrevLogIndex args = leIndex e" "slPrevLogTerm args = leTerm e" "slEntries args = es"
        "slLeaderCommit args = commitIndex rf"
proof (cases "k = me rf")
  case True
  then show ?thesis using that(1) h rfCD(1)[OF r] by (simp add: prepareSendLog_def)
next
  case False
  note fst = rfR_first[OF r]
  obtain ni0 where ni0: "idx (nextIndex rf) (int k) = Some ni0"
    using h False fst by (auto simp: prepareSendLog_def split: bind_splits)
  let ?t = "fst (alog a i ! f)"
  show ?thesis
  proof (cases "?t \<noteq> -1 \<and> ni0 \<le> int f")
    case True
    then show ?thesis using that(2) h False ni0 fst by (auto simp: prepareSendLog_def)
  next
    case no: False
    define ni1 where "ni1 = (if ?t = -1 \<and> ni0 = int f then int f + 1 else ni0)"
    define ni where "ni = (if ni1 < 0 then 0 else ni1)"
    have "do {
        e \<leftarrow> idx (rlog rf) (ni - int f - 1);
        es \<leftarrow> slice_from (rlog rf) (ni - int f);
        Some (rf\<lparr>nextIndex := (nextIndex rf)[k := ni]\<rparr>,
            \<lparr>slTerm = currentTerm rf, slLeaderId = int (me rf),
             slPrevLogIndex = leIndex e, slPrevLogTerm = leTerm e,
             slEntries = es, slLeaderCommit = commitIndex rf,
             slMsgType = (if length es = 0 then HeartBeatMsgType else LogMsgType),
             slShouldSendSnapShot = False\<rparr>, ni) } = Some (rf', args, rc)"
      using h False ni0 fst no by (auto simp: prepareSendLog_def Let_def ni_def ni1_def cong: if_cong)
    then obtain e es where e: "idx (rlog rf) (ni - int f - 1) = Some e"
        "slice_from (rlog rf) (ni - int f) = Some es"
        "rf' = rf\<lparr>nextIndex := (nextIndex rf)[k := ni]\<rparr>"
      and args: "args = \<lparr>slTerm = currentTerm rf, slLeaderId = int (me rf),
             slPrevLogIndex = leIndex e, slPrevLogTerm = leTerm e,
             slEntries = es, slLeaderCommit = commitIndex rf,
             slMsgType = (if length es = 0 then HeartBeatMsgType else LogMsgType),
             slShouldSendSnapShot = False\<rparr>"
      by (auto simp: bind_eq_Some_conv)
    show ?thesis by (rule that(3)[OF e]) (simp_all add: args rfCD(5)[OF r])
  qed
qed

lemma prepareSendLog_sim:
  assumes inv: "aInv (majority n) a" and r: "rfR n a i f rf" and st: "state rf = Leader"
    and i: "i < n" "k < n" and h: "prepareSendLog k rf = Some (rf', args, rc)"
  shows "rfR n a i f rf'" "state rf' = Leader" "commitIndex rf' = commitIndex rf"
    "k \<noteq> i \<Longrightarrow> \<not> slShouldSendSnapShot args \<Longrightarrow> msgR n a (MLogReq i k args rc)"
proof -
  have rC: "rfC n a i f rf" using r by (simp add: rfR_def)
  note R = rfCD[OF rC] and fst = rfR_first[OF rC] and I = aInvD[OF inv]
  have L: "tlog a (cur a i) = Some (alog a i)" by (rule leader_log[OF I(4,5) R(14)[OF st]])
  have "rfR n a i f rf' \<and> state rf' = Leader \<and> commitIndex rf' = commitIndex rf \<and>
    (k \<noteq> i \<longrightarrow> \<not> slShouldSendSnapShot args \<longrightarrow> msgR n a (MLogReq i k args rc))"
  proof (cases rule: prepareSendLog_cases[OF rC h, consumes 0, case_names self snap log])
    case (log ni e es)
    have "idx (conc f (alog a i)) (ni - 1 - int f) = Some e"
      using log(1) R(8) by (metis diff_right_commute)
    then obtain p where p: "ni - 1 = int p" "f \<le> p" "p < length (alog a i)"
      "e = conc f (alog a i) ! (p - f)"
      using idx_conc_iff[OF R(7), of "ni - 1" e] by auto
    have "leIndex e = int p" "leTerm e = fst (alog a i ! p)"
      using conc_nth_index[of "p - f" "alog a i" f] conc_nth_term[of "p - f" "alog a i" f] p
      by (simp_all add: diff_less_mono)
    moreover have "nat (ni - int f) = Suc (p - f)" using p(1,2) by linarith
    then have "es = map (ent (alog a i)) [Suc p..<length (alog a i)]"
      using log(2) drop_conc[OF p(2,3)] R(8) by (auto simp: slice_from_def split: if_splits)
    ultimately have "msgR n a (MLogReq i k args rc)"
      using log i L R(10-12) p(3) by (auto intro!: exI[of _ p] exI[of _ "length (alog a i)"])
    then show ?thesis using log(3) rfR_nextIndex[OF r] st by simp
  qed (use r st in auto)
  then show "rfR n a i f rf'" "state rf' = Leader" "commitIndex rf' = commitIndex rf"
    "k \<noteq> i \<Longrightarrow> \<not> slShouldSendSnapShot args \<Longrightarrow> msgR n a (MLogReq i k args rc)" by auto
qed

lemma prepareAll_sim:
  assumes "prepareAll ks rf = Some (rf', ps)" "aInv (majority n) a" "rfR n a i f rf"
    "state rf = Leader" "i < n" "set ks \<subseteq> {..<n}"
  shows "rfR n a i f rf' \<and> commitIndex rf' = commitIndex rf \<and> length ps = length ks \<and>
    (\<forall>k args rc. (k, args, rc) \<in> set (zip ks ps) \<longrightarrow> k \<noteq> i \<longrightarrow> \<not> slShouldSendSnapShot args \<longrightarrow>
      msgR n a (MLogReq i k args rc))"
  using assms
proof (induction ks arbitrary: rf rf' ps)
  case (Cons k ks)
  from Cons(2) obtain rf1 args rc ps' where 1: "prepareSendLog k rf = Some (rf1, args, rc)"
    "prepareAll ks rf1 = Some (rf', ps')" "ps = (args, rc) # ps'"
    by (auto split: bind_splits)
  have "k < n" "set ks \<subseteq> {..<n}" using Cons(7) by auto
  note P = prepareSendLog_sim[OF Cons(3,4,5,6) \<open>k < n\<close> 1(1)]
  show ?case
    using Cons(1)[OF 1(2) Cons(3) P(1,2) Cons(6) \<open>set ks \<subseteq> {..<n}\<close>] P(3,4) 1(3) by simp
qed simp

lemma dispatchAll_sound:
  "DoSendLog j args rc \<in> set (dispatchAll self ps) \<Longrightarrow>
     (j, args, rc) \<in> set (zip [0..<length ps] ps) \<and> j \<noteq> self \<and> \<not> slShouldSendSnapShot args"
  "DoSnapShot j \<in> set (dispatchAll self ps) \<Longrightarrow> j < length ps"
  by (auto simp: dispatchAll_def set_zip split: if_splits)

lemma sendLogTicketCore_sim:
  assumes inv: "aInv (majority n) a" and r: "rfR n a i f rf" and i: "i < n"
    and h: "sendLogTicketCore rf = Some (rf', ds)"
  shows "simStep n i a f rf a f rf'" "x \<in> logMsgs i ds \<Longrightarrow> msgR n a x" "snapPeers ds \<subseteq> {..<n}"
proof -
  have "simStep n i a f rf a f rf' \<and> (\<forall>x \<in> logMsgs i ds. msgR n a x) \<and> snapPeers ds \<subseteq> {..<n}"
  proof (cases "state rf = Leader")
    case True
    have R: "me rf = i" "npeers rf = n" using r rfCD(1,2) unfolding rfR_def by blast+
    from h True obtain ps where ps: "prepareAll [0..<n] rf = Some (rf', ps)" "ds = dispatchAll i ps"
      using R by (auto simp: sendLogTicketCore_def split: bind_splits)
    have "set [0..<n] \<subseteq> {..<n}" by auto
    note Q = prepareAll_sim[OF ps(1) inv r True i this]
    have P: "rfR n a i f rf'" "commitIndex rf' = commitIndex rf" using Q by auto
    have len: "length ps = n" using conjunct1[OF conjunct2[OF conjunct2[OF Q]]] by simp
    have "\<forall>x \<in> logMsgs i ds. msgR n a x"
      using conjunct2[OF conjunct2[OF conjunct2[OF Q]]] len dispatchAll_sound(1)[of _ _ _ i ps] ps(2)
      unfolding logMsgs_def by blast
    moreover have "snapPeers ds \<subseteq> {..<n}"
      using len dispatchAll_sound(2)[of _ i ps] ps(2) unfolding snapPeers_def by blast
    ultimately show ?thesis using simStep_stutter[OF inv P(1,2)] by blast
  next
    case False
    then have "rf' = rf" "ds = []" using h by (auto simp: sendLogTicketCore_def)
    then show ?thesis using simStep_stutter[OF inv r refl] by (simp add: logMsgs_def snapPeers_def)
  qed
  then show "simStep n i a f rf a f rf'" "x \<in> logMsgs i ds \<Longrightarrow> msgR n a x" "snapPeers ds \<subseteq> {..<n}"
    by auto
qed

lemma sendSnapShot_send_sim:
  assumes inv: "aInv (majority n) a" and r: "rfC n a i f rf" and i: "i < n" "j < n"
    and h: "sendSnapShot_send j rf = Some (Some (args, ni, mi))"
  shows "msgR n a (MSnapReq i j args ni mi)"
proof -
  note R = rfCD[OF r] and fst = rfR_first[OF r] and I = aInvD[OF inv]
  have st: "state rf = Leader" using h by (auto simp: sendSnapShot_send_def split: if_splits)
  have L: "tlog a (cur a i) = Some (alog a i)" by (rule leader_log[OF I(4,5) R(14)[OF st]])
  show ?thesis
    using h st fst L R(5,7,9) i
    by (auto simp: sendSnapShot_send_def split: bind_splits intro!: exI[of _ f])
qed

section \<open>Elections\<close>

lemma ticker_start_sim:
  assumes inv: "aInv (majority n) a" and r: "rfR n a i f rf" and i: "i < n"
    and h: "ticker_start now tm rf = Some (rf', Some el)"
  obtains a' where "simStep n i a f rf a' f rf'" "vot a' i (rvTerm (elArgs el)) = Some i"
    "voteCount el = 1" "rvCandidateId (elArgs el) = int i"
    "\<forall>j < n. msgR n a' (MVoteReq i j (elArgs el))"
proof -
  have rC: "rfC n a i f rf" using r by (simp add: rfR_def)
  note R = rfCD[OF rC] and I = aInvD[OF inv]
  define a' where "a' = aTimeout i a"
  have m: "moves n i a a'" unfolding a'_def by (rule moves_timeout[OF inv])
  note e = movesD(3)[OF m]
  define rf1 where "rf1 = persist ((SetElectionTime (tm 0) 600 rf)\<lparr>
    currentTerm := currentTerm rf + 1, state := Candidate, voteFor := int (me rf)\<rparr>)"
  obtain lst where lst: "GetLastLog rf = Some lst" "leIndex lst = int (length (alog a i)) - 1"
    "leTerm lst = lterm (alog a i)" using rfR_last[OF rC] .
  have "rlog rf \<noteq> []" by (simp add: R(8))
  then have rf': "rf' = rf1" and el: "elArgs el = \<lparr>rvTerm = cur a i + 1, rvCandidateId = int i,
      rvLastLogIndex = int (length (alog a i)) - 1, rvLastLogTerm = lterm (alog a i)\<rparr>"
      "voteCount el = 1"
    using h lst R(1,5) unfolding ticker_start_def Let_def rf1_def[symmetric]
    by (auto simp: rf1_def GetLastLog_def split: if_splits)
  have eqs: "cur a' i = cur a i + 1" "alog a' i = alog a i" "vot a' i (cur a i + 1) = Some i"
    "clog a' i (cur a i + 1) = Some (alog a i)" "ldr a' = ldr a"
    by (simp_all add: a'_def aTimeout_def Let_def)
  have "ldr a (cur a i + 1) \<noteq> Some i"
  proof
    assume l: "ldr a (cur a i + 1) = Some i"
    then obtain L where "tlog a (cur a i + 1) = Some L" using I(5) unfolding invLdr_def by blast
    then have "cur a i + 1 \<le> cur a i" using I(4) l unfolding invLeader_def by fastforce
    then show False by simp
  qed
  then have "rfC n a' i f rf1"
    using R(1-5,7,8,10,11) committed_mono[OF committed_ext[OF e R(9)], of "cur a i + 1"]
      committed_mono[OF committed_ext[OF e R(12)], of "cur a i + 1"]
    by (simp add: rfC_def rf1_def eqs)
  then have "simStep n i a f rf a' f rf'"
    using m by (simp add: simStep_def rfR_def rf' eqs rf1_def)
  then show ?thesis using that[of a'] el i eqs by simp
qed

lemma ticker_reply_sim:
  assumes inv: "aInv (majority n) a" and r: "rfR n a i f rf"
    and h: "ticker_reply tm answer el rf = (rf', el')"
  obtains a' where "simStep n i a f rf a' f rf'" "elArgs el' = elArgs el"
    "voteCount el' = voteCount el + (if \<exists>reply. answer = Some reply \<and> rvrVoteGranted reply then 1 else 0)"
proof (cases answer)
  case None
  then have "rf' = rf" "elArgs el' = elArgs el" "voteCount el' = voteCount el"
    using h by (auto simp: ticker_reply_def)
  then show ?thesis using that[of a] simStep_stutter[OF inv r refl] None by simp
next
  case (Some reply)
  then have "rf' = AddCurrentTerm (tm 0) (rvrTerm reply) rf" "elArgs el' = elArgs el"
    "voteCount el' = voteCount el + (if rvrVoteGranted reply then 1 else 0)"
    using h by (auto simp: ticker_reply_def AddCurrentTerm_def Let_def split: if_splits)
  then show ?thesis
    using that AddCurrentTerm_sim[OF inv r, of "rvrTerm reply" "tm 0"] Some by auto
qed

lemma resetRaftIndex_eq:
  assumes "rlog rf = conc f A" "f < length A" "length (nextIndex rf) = n" "0 < n"
  shows "resetRaftIndex rf = Some (rf\<lparr>nextIndex := replicate n (int (length A)),
    matchIndex := map (\<lambda>k. if k = me rf then int (length A) - 1 else 0) [0..<n]\<rparr>)"
proof -
  define lst where "lst = last (rlog rf)"
  have ne: "rlog rf \<noteq> []" by (simp add: assms(1))
  have lst: "GetLastLog rf = Some lst" "leIndex lst = int (length A) - 1"
    using last_conc(1)[OF assms(2)] ne by (simp_all add: GetLastLog_def lst_def assms(1))
  have "nextIndex rf \<noteq> []" using assms(3,4) by auto
  moreover have "idx (rlog rf) 0 = Some lst" if "length (rlog rf) = 1"
    using lst(1) that by (simp add: GetLastLog_def)
  moreover have "map (\<lambda>_. x) (nextIndex rf) = replicate n x" for x :: int
    using assms(3) by (simp add: map_replicate_const)
  ultimately show ?thesis
    using lst assms(3) by (auto simp: resetRaftIndex_def GetLastLog_def)
qed

lemma ticker_finish_sim:
  assumes inv: "aInv (majority n) a" and r: "rfR n a i f rf" and i: "i < n"
    and ro: "roundR n a i ro" and h: "ticker_finish (roEl ro) rf = Some rf'"
  obtains a' where "simStep n i a f rf a' f rf'"
proof (cases "currentTerm rf = rvTerm (elArgs (roEl ro)) \<and> state rf = Candidate \<and>
    voteCount (roEl ro) > int (npeers rf div 2)")
  case False
  then have "rf' = rf" using h by (simp add: ticker_finish_def split: if_splits)
  then show ?thesis using that[of a] simStep_stutter[OF inv r refl] by simp
next
  case True
  have rC: "rfC n a i f rf" using r by (simp add: rfR_def)
  note R = rfCD[OF rC] and I = aInvD[OF inv]
  from ro obtain V where V: "V \<subseteq> {..<n}" "int (card V) = voteCount (roEl ro)"
    "\<forall>v\<in>V. vot a v (cur a i) = Some i"
    using True R(5) unfolding roundR_def by auto
  have maj: "majority n V" using V(1,2) True R(2) by (simp add: majority_def)
  have cand: "clog a i (cur a i) = Some (alog a i)" "ldr a (cur a i) \<noteq> Some i"
    using R(13) True by auto
  have none: "tlog a (cur a i) = None"
  proof (rule ccontr)
    assume "tlog a (cur a i) \<noteq> None"
    then obtain s Q where "ldr a (cur a i) = Some s" "majority n Q" "\<forall>q\<in>Q. vot a q (cur a i) = Some s"
      using I(4) unfolding invLeader_def by blast
    then show False using maj.one_winner[OF maj V(3)] cand(2) by blast
  qed
  define a' where "a' = aElect i a"
  have m: "moves n i a a'" unfolding a'_def by (rule moves_elect[OF inv cand(1) none maj V(3)])
  note e = movesD(3)[OF m]
  have eqs: "cur a' = cur a" "alog a' = alog a" "vot a' = vot a" "ldr a' (cur a i) = Some i"
    and ack: "(i, cur a i, length (alog a i) - 1) \<in> acks a'"
    by (simp_all add: a'_def aElect_def)
  define rf1 where "rf1 = rf\<lparr>state := Leader,
    nextIndex := replicate n (int (length (alog a i))),
    matchIndex := map (\<lambda>k. if k = i then int (length (alog a i)) - 1 else 0) [0..<n]\<rparr>"
  have "rf' = rf1"
    using h True resetRaftIndex_eq[of "rf\<lparr>state := Leader\<rparr>" f "alog a i" n] R(1,3,7,8) i
    by (simp add: ticker_finish_def rf1_def)
  moreover have "rfC n a' i f rf1"
    using R(1-8,10,11) committed_ext[OF e R(9)] committed_ext[OF e R(12)] ack
    by (auto simp: rfC_def rf1_def eqs acked_def nat_diff_distrib)
  ultimately have "simStep n i a f rf a' f rf'"
    using m r by (simp add: simStep_def rfR_def eqs rf1_def synced_def)
  then show ?thesis by (rule that)
qed

section \<open>Client commands, compaction and restart\<close>

lemma Start_sim:
  assumes inv: "aInv (majority n) a" and r: "rfR n a i f rf"
    and h: "Start cmd rf = Some (rf', res, effs)"
  obtains a' where "simStep n i a f rf a' f rf'" "set effs \<subseteq> {SpawnSendLog}"
proof (cases "state rf = Leader")
  case False
  then show ?thesis using that[of a] simStep_stutter[OF inv r refl] h by (simp add: Start_def)
next
  case True
  have rC: "rfC n a i f rf" using r by (simp add: rfR_def)
  note R = rfCD[OF rC]
  define A' where "A' = alog a i @ [(cur a i, cmd)]"
  define e where "e = \<lparr>leTerm = cur a i, leIndex = int (length (alog a i)), leData = cmd\<rparr>"
  define a' where "a' = aAppend i cmd a"
  have m: "moves n i a a'" unfolding a'_def by (rule moves_append[OF inv R(14)[OF True]])
  note x = movesD(3)[OF m]
  have eqs: "cur a' = cur a" "alog a' i = A'" "vot a' = vot a" "ldr a' = ldr a"
    and ack: "(i, cur a i, length (alog a i)) \<in> acks a'"
    by (simp_all add: a'_def A'_def aAppend_def Let_def)
  obtain lst where lst: "GetLastLog rf = Some lst" "leIndex lst = int (length (alog a i)) - 1"
    using rfR_last[OF rC] by metis
  have "rlog rf @ [e] = conc f A'"
    using conc_prefix[OF R(7), of A' "length A'"] R(8) by (simp add: A'_def e_def ent_def)
  then have rf': "rf' = persist (rf\<lparr>rlog := conc f A',
      matchIndex := (matchIndex rf)[i := int (length (alog a i))]\<rparr>)" and effs: "effs = [SpawnSendLog]"
    using h True lst R(1,5) by (auto simp: Start_def set_idx_def Let_def e_def split: bind_splits if_splits)
  have acked_here: "acked a' i (cur a i) (length (alog a i))" using ack by (auto simp: acked_def)
  have "\<forall>j < n. (matchIndex rf)[i := int (length (alog a i))] ! j \<le> 0 \<or>
      acked a' j (cur a i) (nat ((matchIndex rf)[i := int (length (alog a i))] ! j))"
    using R(15)[OF True] acked_ext[OF x] acked_here R(4) by (simp add: nth_update) blast
  then have "rfC n a' i f rf'"
    using R(1-7,10,11) committed_ext[OF x R(9)] committed_ext[OF x R(12)] True R(14)
    by (simp add: rfC_def rf' eqs A'_def)
  then have "simStep n i a f rf a' f rf'"
    using m R(10,11) by (simp add: simStep_def rfR_def rf' eqs A'_def)
  then show ?thesis using that effs by simp
qed

lemma Snapshot_sim:
  assumes inv: "aInv (majority n) a" and r: "rfR n a i f rf" and c: "index \<le> commitIndex rf"
    and h: "Snapshot index snap rf = Some rf'"
  obtains f' where "simStep n i a f rf a f' rf'"
proof (cases "index \<le> int f")
  case True
  have rC: "rfC n a i f rf" using r by (simp add: rfR_def)
  obtain lst where "GetLastLog rf = Some lst" using rfR_last[OF rC] by metis
  then have "rf' = rf" using h True rfR_first[OF rC] by (simp add: Snapshot_def)
  then show ?thesis using that[of f] simStep_stutter[OF inv r refl] by simp
next
  case False
  have rC: "rfC n a i f rf" using r by (simp add: rfR_def)
  note R = rfCD[OF rC] and fst = rfR_first[OF rC]
  define p where "p = nat index"
  have p: "index = int p" "f < p" "p < length (alog a i)" using False c R(11) by (auto simp: p_def)
  obtain lst where lst: "GetLastLog rf = Some lst" "leIndex lst = int (length (alog a i)) - 1"
    using rfR_last[OF rC] by metis
  let ?e = "conc f (alog a i) ! (p - f)"
  have e: "idx (rlog rf) (int p - int f) = Some ?e" "leTerm ?e = fst (alog a i ! p)" "leIndex ?e = int p"
    using rlog_at[OF rC, of p] conc_nth_index[of "p - f" "alog a i" f] p by simp_all
  have "nat (int p - int f + 1) = Suc (p - f)" using p(2) by linarith
  then have "slice_from (rlog rf) (int p - int f + 1) = Some (map (ent (alog a i)) [Suc p..<length (alog a i)])"
    using drop_conc[of f p "alog a i"] p(2,3) R(7,8) by (simp add: slice_from_def)
  then have rf': "rf' = persist (rf\<lparr>rlog := conc p (alog a i), snapshot := snap\<rparr>)"
    using h fst lst e p by (simp add: Snapshot_def conc_def)
  have "prefix (take (Suc p) (alog a i)) (take (Suc (nat (commitIndex rf))) (alog a i))"
    using c p(1) by (intro prefix_take_mono[OF _ prefix_order.refl]) simp
  from committed_prefix[OF R(12) this] have "committed (majority n) a (cur a i) (take (Suc p) (alog a i))"
    using p(3) by (cases "alog a i") auto
  then have "rfC n a i p rf'" using R p(3) by (simp add: rf' rfC_def)
  then have "simStep n i a f rf a p rf'" using inv p(2) by (simp add: simStep_def rfR_def rf' moves_refl)
  then show ?thesis by (rule that)
qed

text \<open>\<open>Make\<close> restores what the stable storage holds; the volatile indices start at the first
  index.\<close>

lemma Make_reads:
  assumes ps: "psRaftstate ps = [GInt t, GInt v, GLog l] \<or> psRaftstate ps = [] \<and> t = 0 \<and> v = -1 \<and> l = [dummyLog]"
    and l: "l = conc f A" "f < length A" "0 < n"
  shows "Make now n i ps = Some \<lparr>npeers = n, persister = ps, me = i, dead = 0, state = Follower,
        startElectionTime = now, electionInterval = 0, currentTerm = t, voteFor = v,
        rlog = l, snapshot = psSnapshot ps, commitIndex = int f, lastApplied = int f,
        nextIndex = replicate n (int (length A)),
        matchIndex = map (\<lambda>k. if k = i then int (length A) - 1 else 0) [0..<n]\<rparr>"
proof -
  have f0: "f = 0" if "l = [dummyLog]" using that l(1) by (simp add: conc_def dummyLog_def)
  have fst: "idx l 0 = Some \<lparr>leTerm = fst (A ! f), leIndex = int f, leData = None\<rparr>"
    by (simp add: l(1) hd_conc)
  define rf0 where "rf0 = \<lparr>npeers = n, persister = ps, me = i, dead = 0, state = Follower,
        startElectionTime = now, electionInterval = 0, currentTerm = t, voteFor = v,
        rlog = l, snapshot = psSnapshot ps, commitIndex = int f, lastApplied = int f,
        nextIndex = replicate n 0, matchIndex = replicate n 0\<rparr>"
  have "Make now n i ps = resetRaftIndex rf0"
    using ps fst f0
    by (auto simp: Make_def readPersist_def ReadRaftState_def ReadSnapshot_def GetFirstLog_def rf0_def)
  then show ?thesis
    using resetRaftIndex_eq[of rf0 f A n] l by (simp add: rf0_def)
qed

lemma Make_eq:
  assumes ps: "psRaftstate ps = [GInt t, GInt v, GLog l] \<or> psRaftstate ps = [] \<and> t = 0 \<and> v = -1 \<and> l = [dummyLog]"
    and l: "l = conc f A" "f < length A" "0 < n" and h: "Make now n i ps = Some rf"
  shows "rf = \<lparr>npeers = n, persister = ps, me = i, dead = 0, state = Follower,
        startElectionTime = now, electionInterval = 0, currentTerm = t, voteFor = v,
        rlog = l, snapshot = psSnapshot ps, commitIndex = int f, lastApplied = int f,
        nextIndex = replicate n (int (length A)),
        matchIndex = map (\<lambda>k. if k = i then int (length A) - 1 else 0) [0..<n]\<rparr>"
  using Make_reads[OF ps l] h by simp

lemma Make_sim:
  assumes r: "rfR n a i f rf" and i: "i < n" and h: "Make now n i (persister rf) = Some rf'"
  shows "rfR n a i f rf'" "commitIndex rf' = int f"
proof -
  have rC: "rfC n a i f rf" and s: "synced rf" using r by (simp_all add: rfR_def)
  note R = rfCD[OF rC]
  have rf': "rf' = \<lparr>npeers = n, persister = persister rf, me = i, dead = 0, state = Follower,
        startElectionTime = now, electionInterval = 0, currentTerm = currentTerm rf, voteFor = voteFor rf,
        rlog = rlog rf, snapshot = psSnapshot (persister rf), commitIndex = int f, lastApplied = int f,
        nextIndex = replicate n (int (length (alog a i))),
        matchIndex = map (\<lambda>k. if k = i then int (length (alog a i)) - 1 else 0) [0..<n]\<rparr>"
    using s i by (intro Make_eq[OF _ R(8,7) _ h]) (auto simp: synced_def)
  show "rfR n a i f rf'" using R(5-9) s by (simp add: rfR_def rfC_def rf' synced_def)
  show "commitIndex rf' = int f" by (simp add: rf')
qed

lemma Make_initial:
  assumes i: "i < n" and h: "Make now n i MakePersister = Some rf"
  shows "rfR n aInit i 0 rf"
  using Make_eq[of MakePersister 0 "-1" "[dummyLog]" 0 "[(-1, None)]" n now i rf] i h
  by (simp add: rfR_def rfC_def synced_def aInit_def conc_def dummyLog_def MakePersister_def committed_def)

end
