(* ===== verification/Raft_Safety.thy ===== *)
theory Raft_Safety
  imports Raft_SimLeader
begin

text \<open>
  The simulation of the whole cluster and what it gives: every reachable state of the cluster of
  \<open>Raft_Sys\<close> is related to a reachable state of the protocol \<open>Raft_Spec\<close>, so the code inherits
  election safety, log matching, leader completeness and state machine safety.
\<close>

section \<open>The delivery goroutines\<close>

lemma goodEntry_mono:
  assumes "goodEntry A ci e" "take (Suc (nat ci)) A' = take (Suc (nat ci)) A" "ci \<le> ci'"
  shows "goodEntry A' ci' e"
proof -
  from assms(1) obtain p where p: "leIndex e = int p" "int p \<le> ci" "A ! p = (leTerm e, leData e)"
    unfolding goodEntry_def by blast
  have "A' ! p = A ! p" using nth_take[of p "Suc (nat ci)"] p(2) assms(2) by (metis le_nat_iff less_Suc_eq_le of_nat_0_le_iff order_trans)
  then show ?thesis using p assms(3) unfolding goodEntry_def by fastforce
qed

lemma apR_mono:
  assumes ap: "apR A ci f ap" and t: "take (Suc (nat ci)) A' = take (Suc (nat ci)) A" "ci \<le> ci'" "f \<le> f'"
  shows "apR A' ci' f' ap"
proof -
  have same: "A' ! p = A ! p" if "int p \<le> ci" for p
    using nth_take[of p "Suc (nat ci)"] that t(1) by (metis le_nat_iff less_Suc_eq_le of_nat_0_le_iff order_trans)
  have "\<forall>m \<in> set (delivered ap). amCommandValid m \<longrightarrow>
      (\<exists>p. amCommandIndex m = int p \<and> int p \<le> ci' \<and> snd (A' ! p) = amCommand m)"
    using ap same t(2) unfolding apR_def by (metis order_trans)
  moreover have "0 \<le> x \<and> x \<le> int f'" if "sp \<in> set (snaps ap)" "snapIndex sp = Some x" for sp x
    using ap that t(3) unfolding apR_def by fastforce
  ultimately show ?thesis
    using ap goodEntry_mono[OF _ t(1,2)] unfolding apR_def by blast
qed

lemma apR_initApply: "apR A ci f initApply"
  by (simp add: apR_def initApply_def)

lemma apR_doEffect:
  assumes "apR A ci f ap" "x \<in> {SignalApply, SpawnSendLog} \<union> {SpawnSnapshot (int g) t | g t. g \<le> f}"
  shows "apR A ci f (doEffect x ap)"
  using assms by (cases "pc ap = AWait") (auto simp: apR_def signalApply_def)

lemma apR_doEffects:
  assumes "apR A ci f ap" "set effs \<subseteq> {SignalApply, SpawnSendLog} \<union> {SpawnSnapshot (int g) t | g t. g \<le> f}"
  shows "apR A ci f (doEffects effs ap)"
  using assms unfolding doEffects_def
proof (induction effs arbitrary: ap)
  case (Cons x effs)
  have "apR A ci f (doEffect x ap)" using apR_doEffect[OF Cons(2), of x] Cons(3) by auto
  then show ?case using Cons(1)[of "doEffect x ap"] Cons(3) by simp
qed simp

lemma gather_good:
  assumes "gather i hi rf = Some es" "rfC n a s f rf" "int f < i" "hi \<le> commitIndex rf"
  shows "\<forall>e \<in> set es. goodEntry (alog a s) (commitIndex rf) e"
  using assms
proof (induction i hi rf arbitrary: es rule: gather.induct)
  case (1 i hi rf)
  note R = rfCD[OF 1(3)] and fst = rfR_first[OF 1(3)]
  show ?case
  proof (cases "i \<le> hi")
    case False
    then show ?thesis using 1(2) by (simp add: gather.simps)
  next
    case True
    obtain e es' where e: "idx (rlog rf) (i - int f) = Some e" "gather (i + 1) hi rf = Some es'" "es = e # es'"
      using 1(2) True fst by (subst (asm) gather.simps) (auto split: option.splits)
    obtain p where p: "i = int p" "p < length (alog a s)" "e = conc f (alog a s) ! (p - f)"
      using e(1) idx_conc_iff[OF R(7), of i e] R(8) by auto
    have "e = ent (alog a s) p" using conc_nth[of "p - f" "alog a s" f] p 1(4) by simp
    then have "goodEntry (alog a s) (commitIndex rf) e"
      using p(1) True 1(5) by (auto simp: goodEntry_def)
    then show ?thesis using 1(1)[OF True fst _ e(2) 1(3)] e 1(4,5) by auto
  qed
qed

lemma apR_pc:
  assumes "apR A ci f ap" "\<forall>e \<in> pcEntries q. goodEntry A ci e"
  shows "apR A ci f (ap\<lparr>pc := q\<rparr>)"
  using assms by (simp add: apR_def)

lemma apR_seqMu [simp]: "apR A ci f (ap\<lparr>seqMu := h\<rparr>) = apR A ci f ap"
  by (simp add: apR_def)

lemma apR_signalSeq: "apR A ci f ap \<Longrightarrow> apR A ci f (signalSeq ap)"
  by (cases "pc ap") (auto simp: apR_def signalSeq_def)

lemma applier_collect_good:
  assumes r: "rfC n a i f rf" and ap: "apR (alog a i) (commitIndex rf) f ap"
    and h: "applier_collect rf ap = Runs ap'"
  shows "apR (alog a i) (commitIndex rf) f ap'" "delivered ap' = delivered ap"
proof -
  have "apR (alog a i) (commitIndex rf) f ap' \<and> delivered ap' = delivered ap"
  proof (cases "lastApplied rf \<ge> commitIndex rf \<or> lastApplied rf < int f")
    case True
    then show ?thesis
      using h rfR_first[OF r] ap by (auto simp: applier_collect_def apR_pc)
  next
    case False
    then obtain es where es: "gather (lastApplied rf + 1) (commitIndex rf) rf = Some es"
      "ap' = ap\<lparr>pc := (if es = [] then ATop else AGot es)\<rparr>"
      using h rfR_first[OF r] by (auto simp: applier_collect_def split: option.splits)
    then show ?thesis using gather_good[OF es(1) r] False ap by (simp add: apR_pc)
  qed
  then show "apR (alog a i) (commitIndex rf) f ap'" "delivered ap' = delivered ap" by auto
qed

lemma applier_seqCheck_good:
  assumes ap: "apR A ci f ap" and es: "\<forall>e \<in> set es. goodEntry A ci e"
    and h: "applier_seqCheck es rf ap = Runs ap'"
  shows "apR A ci f ap'" "delivered ap' = delivered ap"
  using h ap es by (auto simp: applier_seqCheck_def apR_def split: list.splits if_splits)

lemma applier_send_good:
  assumes ap: "apR A ci f ap" and es: "\<forall>e \<in> set es \<union> set rest. goodEntry A ci e"
    and h: "applier_send es rest rf ap = (rf', ap')"
  shows "apR A ci f ap'" "rf' = rf\<lparr>lastApplied := lastApplied rf'\<rparr>"
proof -
  have "apR A ci f ap' \<and> rf' = rf\<lparr>lastApplied := lastApplied rf'\<rparr>"
  proof (cases rest)
    case Nil
    then have "rf' = rf \<or> rf' = rf\<lparr>lastApplied := leIndex (last es)\<rparr>"
      "ap' = ap\<lparr>seqMu := None, pc := ATop\<rparr>" using h by (auto split: if_splits)
    then show ?thesis using ap apR_pc[of A ci f "ap\<lparr>seqMu := None\<rparr>" ATop] by auto
  next
    case (Cons e rest')
    have g: "goodEntry A ci e" using es Cons by simp
    then obtain p where "leIndex e = int p" "int p \<le> ci" "A ! p = (leTerm e, leData e)"
      unfolding goodEntry_def by blast
    then have "apR A ci f ap'"
      using h Cons ap es by (auto simp: apR_def commandMsg_def)
    moreover have "rf' = rf" using h Cons by simp
    ultimately show ?thesis by simp
  qed
  then show "apR A ci f ap'" "rf' = rf\<lparr>lastApplied := lastApplied rf'\<rparr>" by auto
qed

lemma applier_step_good:
  assumes r: "rfC n a i f rf" and ap: "apR (alog a i) (commitIndex rf) f ap"
    and h: "applier_step rf ap = Runs (rf', ap')"
  shows "apR (alog a i) (commitIndex rf) f ap'" "rf' = rf\<lparr>lastApplied := lastApplied rf'\<rparr>"
proof -
  have E: "\<forall>e \<in> pcEntries (pc ap). goodEntry (alog a i) (commitIndex rf) e"
    using ap by (simp add: apR_def)
  have "apR (alog a i) (commitIndex rf) f ap' \<and> rf' = rf\<lparr>lastApplied := lastApplied rf'\<rparr>"
  proof (cases "pc ap")
    case ATop
    then show ?thesis
      using h applier_collect_good(1)[OF r ap] ap
      by (cases "applier_collect rf ap") (auto simp: applier_step_def apR_pc split: if_splits)
  next
    case ACheck
    then show ?thesis
      using h applier_collect_good(1)[OF r ap]
      by (cases "applier_collect rf ap") (auto simp: applier_step_def)
  next
    case (ASeqCheck es)
    then show ?thesis
      using h applier_seqCheck_good(1)[OF ap, of es rf] E
      by (cases "applier_seqCheck es rf ap") (auto simp: applier_step_def)
  next
    case (ASend es rest)
    then show ?thesis
      using h applier_send_good[OF ap, of es rest rf rf' ap'] E by (auto simp: applier_step_def)
  qed (use h E ap in \<open>auto simp: applier_step_def apR_def split: if_splits\<close>)
  then show "apR (alog a i) (commitIndex rf) f ap'" "rf' = rf\<lparr>lastApplied := lastApplied rf'\<rparr>" by auto
qed

lemma snap_update_good:
  assumes r: "rfR n a i f rf" and x: "0 \<le> x" "x \<le> int f" and h: "snap_update x rf = (rf', effs)"
  shows "rfR n a i f rf'" "commitIndex rf \<le> commitIndex rf'" "set effs \<subseteq> {SignalApply}"
proof -
  have rC: "rfC n a i f rf" using r by (simp add: rfR_def)
  note R = rfCD[OF rC]
  define rf1 where "rf1 = (if x > lastApplied rf then rf\<lparr>lastApplied := x\<rparr> else rf)"
  have r1: "rfR n a i f rf1" "commitIndex rf1 = commitIndex rf" using r by (simp_all add: rf1_def rfR_def)
  have "(if x > commitIndex rf1 then (rf1\<lparr>commitIndex := x\<rparr>, [SignalApply]) else (rf1, [])) = (rf', effs)"
    using h unfolding snap_update_def Let_def rf1_def .
  then have rf': "rf' = (if x > commitIndex rf then rf1\<lparr>commitIndex := x\<rparr> else rf1)"
    and effs: "set effs \<subseteq> {SignalApply}"
    using r1(2) by (auto split: if_splits)
  have "prefix (take (Suc (nat x)) (alog a i)) (take (Suc f) (alog a i))"
    using x by (intro prefix_take_mono[OF _ prefix_order.refl]) simp
  from committed_prefix[OF R(9) this] have "committed (majority n) a (cur a i) (take (Suc (nat x)) (alog a i))"
    using R(7) by (cases "alog a i") auto
  then have "rfR n a i f (rf1\<lparr>commitIndex := x\<rparr>)"
    using r1 R(7) x by (simp add: rfR_def rfC_def)
  then show "rfR n a i f rf'" using r1 by (simp add: rf')
  show "commitIndex rf \<le> commitIndex rf'" "set effs \<subseteq> {SignalApply}" using r1 effs by (auto simp: rf')
qed

lemma apR_snap:
  assumes ap: "apR A ci f ap" and k: "k < length (snaps ap)"
    and q: "snapIndex q = None \<or> snapIndex q = snapIndex (snaps ap ! k)"
  shows "apR A ci f (ap\<lparr>snaps := (snaps ap)[k := q]\<rparr>)"
proof -
  have "set ((snaps ap)[k := q]) \<subseteq> insert q (set (snaps ap))" by (rule set_update_subset_insert)
  moreover have "snaps ap ! k \<in> set (snaps ap)" using k by simp
  ultimately show ?thesis using ap q unfolding apR_def by auto
qed

lemma snap_step_good:
  assumes r: "rfR n a i f rf" and ap: "apR (alog a i) (commitIndex rf) f ap"
    and h: "snap_step k rf ap = Runs (rf', ap')"
  shows "rfR n a i f rf' \<and> commitIndex rf \<le> commitIndex rf' \<and> apR (alog a i) (commitIndex rf') f ap'"
proof -
  have k: "k < length (snaps ap)" using h by (auto simp: snap_step_def split: if_splits)
  then have mem: "snaps ap ! k \<in> set (snaps ap)" by simp
  note S = apR_snap[OF ap k]
  show ?thesis
  proof (cases "snaps ap ! k")
    case (SWant x t)
    then show ?thesis
      using h k S[of "SHold x t"] r by (auto simp: snap_step_def apR_def split: if_splits)
  next
    case (SHold x t)
    then have "rf' = rf" "ap' = ap\<lparr>delivered := delivered ap @ [snapshotMsg (snapshot rf) x t],
        snaps := (snaps ap)[k := SSent x t]\<rparr>" using h k by (auto simp: snap_step_def)
    then show ?thesis using S[of "SSent x t"] r SHold by (auto simp: apR_def snapshotMsg_def)
  next
    case (SSent x t)
    obtain effs where u: "snap_update x rf = (rf', effs)"
      and ap': "ap' = signalSeq (doEffects effs (ap\<lparr>seqMu := None, snaps := (snaps ap)[k := SExit]\<rparr>))"
      using h k SSent by (auto simp: snap_step_def split: prod.splits)
    have x: "0 \<le> x" "x \<le> int f" using ap mem SSent unfolding apR_def by fastforce+
    note U = snap_update_good[OF r x u]
    have "apR (alog a i) (commitIndex rf) f (ap\<lparr>seqMu := None, snaps := (snaps ap)[k := SExit]\<rparr>)"
      using S[of SExit] by (simp add: apR_def)
    from apR_mono[OF this refl U(2) order_refl] have "apR (alog a i) (commitIndex rf') f
      (doEffects effs (ap\<lparr>seqMu := None, snaps := (snaps ap)[k := SExit]\<rparr>))"
      using U(3) by (intro apR_doEffects) auto
    then show ?thesis using U apR_signalSeq by (simp add: ap')
  next
    case SExit
    then show ?thesis using h k by (simp add: snap_step_def)
  qed
qed

section \<open>The simulation of a cluster step\<close>

lemma sysRD:
  assumes "sysR n sy a" "i < n"
  obtains f where "rfR n a i f (peer sy i)" "apR (alog a i) (commitIndex (peer sy i)) f (nAp (nodes sy i))"
    "\<forall>ro \<in> set (nRounds (nodes sy i)). roundR n a i ro" "nSnapTo (nodes sy i) \<subseteq> {..<n}"
  using assms unfolding sysR_def nodeR_def by blast

lemma sysRD2:
  assumes "sysR n sy a" "i < n"
  obtains f where "rfR n a i f (peer sy i)" "apR (alog a i) (commitIndex (peer sy i)) f (nAp (nodes sy i))"
  by (rule sysRD[OF assms]) (rule that)

lemma sysR_msg: "sysR n sy a \<Longrightarrow> m \<in> net sy \<Longrightarrow> msgR n a m"
  by (simp add: sysR_def)

lemma goodMsg_delivered:
  assumes r: "rfR n a i f rf" and ap: "apR (alog a i) (commitIndex rf) f ap" and m: "m \<in> set (delivered ap)"
  shows "goodMsg n a m"
  unfolding goodMsg_def
proof
  assume "amCommandValid m"
  then obtain p where p: "amCommandIndex m = int p" "int p \<le> commitIndex rf" "snd (alog a i ! p) = amCommand m"
    using ap m unfolding apR_def by blast
  have rC: "rfC n a i f rf" using r by (simp add: rfR_def)
  note R = rfCD[OF rC]
  have "p < length (take (Suc (nat (commitIndex rf))) (alog a i))" using p(2) R(11) by auto
  then show "\<exists>T P p. committed (majority n) a T P \<and> amCommandIndex m = int p \<and> p < length P \<and>
      snd (P ! p) = amCommand m"
    using R(12) p by (intro exI[of _ "cur a i"] exI[of _ "take (Suc (nat (commitIndex rf))) (alog a i)"] exI[of _ p]) simp
qed

text \<open>The cluster state \<open>sy'\<close> is matched by abstract steps from \<open>a\<close>.\<close>

definition simulated :: "nat \<Rightarrow> (nat, 'c) aState \<Rightarrow> ('c, 's) sys \<Rightarrow> bool" where
  "simulated n a sy' \<longleftrightarrow>
     (\<exists>a'. (astep (majority n))\<^sup>*\<^sup>* a a' \<and> aInv (majority n) a' \<and> sysR n sy' a')"

text \<open>A critical section of peer \<open>i\<close>: the new peer, its effects on the delivery goroutines, new
  messages.\<close>

lemma sysR_node:
  assumes sy: "sysR n sy a" and s: "simStep n i a f (peer sy i) a' f' rf'"
    and ap: "apR (alog a i) (commitIndex (peer sy i)) f (nAp (nodes sy i))"
    and effs: "set effs \<subseteq> {SignalApply, SpawnSendLog} \<union> {SpawnSnapshot (int g) t | g t. g \<le> f'}"
    and nd: "\<And>j. j \<noteq> i \<Longrightarrow> nodes sy' j = nodes sy j" "peer sy' i = rf'" "nAp (nodes sy' i) = doEffects effs (nAp (nodes sy i))"
    and ro: "\<forall>ro \<in> set (nRounds (nodes sy' i)). roundR n a' i ro" and sn: "nSnapTo (nodes sy' i) \<subseteq> {..<n}"
    and ms: "\<And>x. x \<in> net sy' \<Longrightarrow> x \<in> net sy \<or> msgR n a' x" and hs: "history sy' = history sy"
  shows "simulated n a sy'"
proof -
  note S = simStepD[OF s]
  have "apR (alog a' i) (commitIndex rf') f' (doEffects effs (nAp (nodes sy i)))"
    by (rule apR_doEffects[OF apR_mono[OF ap S(6,5,4)] effs])
  then have "nodeR n a' i (nodes sy' i)" unfolding nodeR_def using S(3) nd(2,3) ro sn by metis
  then have "sysR n sy' a'"
    using nd(1) ms hs by (intro sysR_update[OF sy S(1)]) (auto simp del: msgR.simps)
  then show ?thesis unfolding simulated_def using movesD(1)[OF S(1)] S(2) by blast
qed

lemma rounds_ext: "moves n i a a' \<Longrightarrow> \<forall>ro \<in> set ros. roundR n a i ro \<Longrightarrow> \<forall>ro \<in> set ros. roundR n a' i ro"
  using roundR_ext movesD(3) by blast

lemmas sys_defs = setRf_def send_def addRound_def setRound_def addSnapTo_def setAp_def

lemma doEffects_Nil [simp]: "doEffects [] ap = ap"
  by (simp add: doEffects_def)

text \<open>A critical section that only replaces the peer.\<close>

lemma sysR_setRf:
  assumes sy: "sysR n sy a" and i: "i < n" and s: "simStep n i a f (peer sy i) a' f' rf'"
    and ap: "apR (alog a i) (commitIndex (peer sy i)) f (nAp (nodes sy i))"
    and effs: "set effs \<subseteq> {SignalApply, SpawnSendLog} \<union> {SpawnSnapshot (int g) t | g t. g \<le> f'}"
    and ms: "\<And>x. x \<in> ms \<Longrightarrow> msgR n a' x"
  shows "simulated n a (send ms (setRf i rf' effs sy))"
proof -
  from sysRD[OF sy i] have ro: "\<forall>ro \<in> set (nRounds (nodes sy i)). roundR n a i ro"
    and sn: "nSnapTo (nodes sy i) \<subseteq> {..<n}" by blast+
  show ?thesis
    using ms sn rounds_ext[OF simStepD(1)[OF s] ro]
    by (intro sysR_node[OF sy s ap effs]) (auto simp: sys_defs)
qed

lemma sysR_setRf0:
  assumes "sysR n sy a" "i < n" "simStep n i a f (peer sy i) a' f' rf'"
    "apR (alog a i) (commitIndex (peer sy i)) f (nAp (nodes sy i))"
    "set effs \<subseteq> {SignalApply, SpawnSendLog} \<union> {SpawnSnapshot (int g) t | g t. g \<le> f'}"
  shows "simulated n a (setRf i rf' effs sy)"
  using sysR_setRf[OF assms, of "{}"] by (simp add: send_def)

lemma elect_start_step:
  assumes sy: "sysR n (sy :: ('c, 's) sys) a" and inv: "aInv (majority n) a" and i: "i < n"
    and h: "ticker_start now tm (peer sy i) = Some (rf, Some el)"
  shows "simulated n a (send {MVoteReq i j (elArgs el) | j. j < n \<and> j \<noteq> i}
    (addRound i el ({..<n} - {i}) (setRf i rf [] sy)))"
proof -
  obtain f where f: "rfR n a i f (peer sy i)" "apR (alog a i) (commitIndex (peer sy i)) f (nAp (nodes sy i))"
    "\<forall>ro \<in> set (nRounds (nodes sy i)). roundR n a i ro" "nSnapTo (nodes sy i) \<subseteq> {..<n}"
    using sysRD[OF sy i] .
  obtain a' where a': "simStep n i a f (peer sy i) a' f rf" "vot a' i (rvTerm (elArgs el)) = Some i"
    "voteCount el = 1" "rvCandidateId (elArgs el) = int i"
    "\<forall>j < n. msgR n a' (MVoteReq i j (elArgs el) :: ('c, 's) msg)" using ticker_start_sim[OF inv f(1) i h] .
  have "roundR n a' i \<lparr>roEl = el, roWaiting = {..<n} - {i}, roDone = False\<rparr>"
    unfolding roundR_def using a'(2-4) i by (auto intro!: exI[of _ "{i}"])
  then show ?thesis
    using a'(5) f(4) rounds_ext[OF simStepD(1)[OF a'(1)] f(3)]
    by (intro sysR_node[OF sy a'(1) f(2), of "[]"]) (auto simp: sys_defs simp del: msgR.simps)
qed

lemma vote_req_step:
  assumes sy: "sysR n sy a" and inv: "aInv (majority n) a" and m: "MVoteReq i j args \<in> net sy"
    and h: "RequestVote tm args (peer sy j) = Some (rf, reply)"
  shows "simulated n a (send {MVoteRep i j args reply} (setRf j rf [] sy))"
proof -
  from sysR_msg[OF sy m] obtain C where C: "clog a i (rvTerm args) = Some C" "rvCandidateId args = int i"
      "rvLastLogIndex args = int (length C) - 1" "rvLastLogTerm args = lterm C"
    and ij: "i < n" "j < n" by auto
  obtain f where f: "rfR n a j f (peer sy j)" "apR (alog a j) (commitIndex (peer sy j)) f (nAp (nodes sy j))"
    using sysRD2[OF sy ij(2)] .
  obtain a' where "simStep n j a f (peer sy j) a' f rf" "rvrVoteGranted reply \<Longrightarrow> vot a' j (rvTerm args) = Some i"
    using RequestVote_sim[OF inv f(1) C h] by blast
  then show ?thesis using ij by (intro sysR_setRf[OF sy ij(2) _ f(2)]) auto
qed

text \<open>The vote count of a round, when the answer of \<open>j\<close> arrives.\<close>

lemma roundR_count:
  assumes r: "roundR n a i ro" and j: "j \<in> roWaiting ro"
    and el: "elArgs el = elArgs (roEl ro)" "voteCount el = voteCount (roEl ro) + (if b then 1 else 0)"
    and v: "b \<Longrightarrow> vot a j (rvTerm (elArgs (roEl ro))) = Some i"
  shows "roundR n a i (ro\<lparr>roEl := el, roWaiting := roWaiting ro - {j}\<rparr>)"
proof -
  from r obtain V where V: "V \<subseteq> {..<n} - roWaiting ro" "int (card V) = voteCount (roEl ro)"
    "\<forall>v\<in>V. vot a v (rvTerm (elArgs (roEl ro))) = Some i" and w: "roWaiting ro \<subseteq> {..<n}"
    and c: "rvCandidateId (elArgs (roEl ro)) = int i"
    unfolding roundR_def by blast
  define V' where "V' = (if b then insert j V else V)"
  have "finite V" "j \<notin> V" using V(1) j finite_subset[OF V(1)] by auto
  then have "int (card V') = voteCount el" using V(2) el(2) by (simp add: V'_def)
  moreover have "V' \<subseteq> {..<n} - (roWaiting ro - {j})" using V(1) j w by (auto simp: V'_def)
  moreover have "\<forall>v\<in>V'. vot a v (rvTerm (elArgs (roEl ro))) = Some i" using V(3) v by (auto simp: V'_def)
  ultimately show ?thesis using c w el(1) unfolding roundR_def by auto
qed

lemma reply_step:
  assumes sy: "sysR n sy a" and inv: "aInv (majority n) a" and i: "i < n"
    and k: "k < length (nRounds (nodes sy i))" "nRounds (nodes sy i) ! k = ro" "j \<in> roWaiting ro"
    and v: "\<And>reply. answer = Some reply \<Longrightarrow> rvrVoteGranted reply \<Longrightarrow>
        vot a j (rvTerm (elArgs (roEl ro))) = Some i"
    and h: "ticker_reply tm answer (roEl ro) (peer sy i) = (rf, el)"
  shows "simulated n a (setRound i k (ro\<lparr>roEl := el, roWaiting := roWaiting ro - {j}\<rparr>) (setRf i rf [] sy))"
proof -
  obtain f where f: "rfR n a i f (peer sy i)" "apR (alog a i) (commitIndex (peer sy i)) f (nAp (nodes sy i))"
    "\<forall>ro \<in> set (nRounds (nodes sy i)). roundR n a i ro" "nSnapTo (nodes sy i) \<subseteq> {..<n}"
    using sysRD[OF sy i] .
  obtain a' where a': "simStep n i a f (peer sy i) a' f rf" "elArgs el = elArgs (roEl ro)"
    "voteCount el = voteCount (roEl ro) + (if \<exists>reply. answer = Some reply \<and> rvrVoteGranted reply then 1 else 0)"
    using ticker_reply_sim[OF inv f(1) h] .
  note e = movesD(3)[OF simStepD(1)[OF a'(1)]]
  have "roundR n a i ro" using f(3) k nth_mem by blast
  from roundR_count[OF roundR_ext[OF e this] k(3)] a'(2,3) v extD(3)[OF e]
  have "roundR n a' i (ro\<lparr>roEl := el, roWaiting := roWaiting ro - {j}\<rparr>)" by blast
  then have "\<forall>r \<in> set ((nRounds (nodes sy i))[k := ro\<lparr>roEl := el, roWaiting := roWaiting ro - {j}\<rparr>]).
      roundR n a' i r"
    using rounds_ext[OF simStepD(1)[OF a'(1)] f(3)] set_update_subset_insert by fastforce
  then show ?thesis
    using f(4) by (intro sysR_node[OF sy a'(1) f(2), of "[]"]) (auto simp: sys_defs)
qed

lemma elect_finish_step:
  assumes sy: "sysR n sy a" and inv: "aInv (majority n) a" and i: "i < n"
    and k: "k < length (nRounds (nodes sy i))" "nRounds (nodes sy i) ! k = ro"
    and h: "ticker_finish (roEl ro) (peer sy i) = Some rf"
  shows "simulated n a (setRound i k (ro\<lparr>roDone := True\<rparr>) (setRf i rf [] sy))"
proof -
  obtain f where f: "rfR n a i f (peer sy i)" "apR (alog a i) (commitIndex (peer sy i)) f (nAp (nodes sy i))"
    "\<forall>ro \<in> set (nRounds (nodes sy i)). roundR n a i ro" "nSnapTo (nodes sy i) \<subseteq> {..<n}"
    using sysRD[OF sy i] .
  have ro: "roundR n a i ro" using f(3) k nth_mem by blast
  obtain a' where a': "simStep n i a f (peer sy i) a' f rf" using ticker_finish_sim[OF inv f(1) i ro h] .
  have "roundR n a' i (ro\<lparr>roDone := True\<rparr>)"
    using roundR_ext[OF movesD(3)[OF simStepD(1)[OF a']] ro] by (simp add: roundR_def)
  then have "\<forall>r \<in> set ((nRounds (nodes sy i))[k := ro\<lparr>roDone := True\<rparr>]). roundR n a' i r"
    using rounds_ext[OF simStepD(1)[OF a'] f(3)] set_update_subset_insert by fastforce
  then show ?thesis
    using f(4) by (intro sysR_node[OF sy a' f(2), of "[]"]) (simp_all add: sys_defs)
qed

lemma client_step:
  assumes sy: "sysR n sy a" and inv: "aInv (majority n) a" and i: "i < n"
    and h: "Start cmd (peer sy i) = Some (rf, res, effs)"
  shows "simulated n a (setRf i rf effs sy)"
proof -
  obtain f where f: "rfR n a i f (peer sy i)" "apR (alog a i) (commitIndex (peer sy i)) f (nAp (nodes sy i))"
    using sysRD2[OF sy i] .
  obtain a' where "simStep n i a f (peer sy i) a' f rf" "set effs \<subseteq> {SpawnSendLog}"
    using Start_sim[OF inv f(1) h] .
  then show ?thesis by (intro sysR_setRf0[OF sy i _ f(2)]) auto
qed

lemma replicate_step:
  assumes sy: "sysR n sy a" and inv: "aInv (majority n) a" and i: "i < n"
    and h: "sendLogTicketCore (peer sy i) = Some (rf, ds)"
  shows "simulated n a (send (logMsgs i ds) (addSnapTo i (snapPeers ds) (setRf i rf [] sy)))"
proof -
  obtain f where f: "rfR n a i f (peer sy i)" "apR (alog a i) (commitIndex (peer sy i)) f (nAp (nodes sy i))"
    "\<forall>ro \<in> set (nRounds (nodes sy i)). roundR n a i ro" "nSnapTo (nodes sy i) \<subseteq> {..<n}"
    using sysRD[OF sy i] .
  note T = sendLogTicketCore_sim[OF inv f(1) i h]
  show ?thesis
    using T(3) f(3,4)
    by (intro sysR_node[OF sy T(1) f(2), of "[]"])
      (simp_all add: sys_defs del: msgR.simps, use T(2) in blast)
qed

lemma log_req_step:
  assumes sy: "sysR n (sy :: ('c, 's) sys) a" and inv: "aInv (majority n) a" and m: "MLogReq i j args r \<in> net sy"
    and h: "RequestSendLog tm args (peer sy j) = Some (rf, reply, effs)"
  shows "simulated n a (send {MLogRep i j args r reply} (setRf j rf effs sy))"
proof -
  note mr = sysR_msg[OF sy m]
  then have j: "j < n" by simp
  obtain f where f: "rfR n a j f (peer sy j)" "apR (alog a j) (commitIndex (peer sy j)) f (nAp (nodes sy j))"
    using sysRD2[OF sy j] .
  obtain a' where a': "simStep n j a f (peer sy j) a' f rf" "set effs \<subseteq> {SignalApply}"
    "msgR n a' (MLogRep i j args r reply :: ('c, 's) msg)"
    using RequestSendLog_sim[OF inv f(1) mr h] .
  show ?thesis using a'(2,3) by (intro sysR_setRf[OF sy j a'(1) f(2)]) auto
qed

lemma log_rep_step:
  assumes sy: "sysR n sy a" and inv: "aInv (majority n) a" and m: "MLogRep i j args r reply \<in> net sy"
    and h: "sendLog_recv tm j args r reply (peer sy i) = Some (rf, effs)"
  shows "simulated n a (setRf i rf effs sy)"
proof -
  note mr = sysR_msg[OF sy m]
  then have i: "i < n" by simp
  obtain f where f: "rfR n a i f (peer sy i)" "apR (alog a i) (commitIndex (peer sy i)) f (nAp (nodes sy i))"
    using sysRD2[OF sy i] .
  obtain a' where "simStep n i a f (peer sy i) a' f rf" "set effs \<subseteq> {SignalApply}"
    using sendLog_recv_sim[OF inv f(1) mr h] .
  then show ?thesis by (intro sysR_setRf0[OF sy i _ f(2)]) auto
qed

lemma snap_send_step:
  assumes sy: "sysR n sy a" and inv: "aInv (majority n) a" and i: "i < n"
    and j: "j \<in> nSnapTo (nodes sy i)" and h: "sendSnapShot_send j (peer sy i) = Some (Some (args, ni, mi))"
  shows "simulated n a (send {MSnapReq i j args ni mi} sy)"
proof -
  obtain f where f: "rfR n a i f (peer sy i)" "nSnapTo (nodes sy i) \<subseteq> {..<n}"
    by (rule sysRD[OF sy i])
  have "msgR n a (MSnapReq i j args ni mi)"
    using sendSnapShot_send_sim[OF inv _ i _ h] f j by (auto simp: rfR_def)
  then have "sysR n (send {MSnapReq i j args ni mi} sy) a" using sy by (auto simp: sysR_def send_def)
  then show ?thesis using inv unfolding simulated_def by blast
qed

lemma snap_req_step:
  assumes sy: "sysR n (sy :: ('c, 's) sys) a" and inv: "aInv (majority n) a" and m: "MSnapReq i j args ni mi \<in> net sy"
    and h: "RequestInstallSnapShot tm args (peer sy j) = Some (rf, reply, effs)"
  shows "simulated n a (send {MSnapRep i j args ni mi reply} (setRf j rf effs sy))"
proof -
  note mr = sysR_msg[OF sy m]
  then have j: "j < n" by simp
  obtain f where f: "rfR n a j f (peer sy j)" "apR (alog a j) (commitIndex (peer sy j)) f (nAp (nodes sy j))"
    using sysRD2[OF sy j] .
  obtain a' f' where a': "simStep n j a f (peer sy j) a' f' rf" "msgR n a' (MSnapRep i j args ni mi reply :: ('c, 's) msg)"
    "set effs \<subseteq> {SpawnSnapshot (int g) t | g t. g \<le> f'}"
    using RequestInstallSnapShot_sim[OF inv f(1) mr h] .
  show ?thesis using a'(2,3) by (intro sysR_setRf[OF sy j a'(1) f(2)]) auto
qed

lemma snap_rep_step:
  assumes sy: "sysR n sy a" and inv: "aInv (majority n) a" and m: "MSnapRep i j args ni mi reply \<in> net sy"
    and h: "sendSnapShot_recv tm j args ni mi reply (peer sy i) = Some (rf, effs)"
  shows "simulated n a (setRf i rf effs sy)"
proof -
  note mr = sysR_msg[OF sy m]
  then have i: "i < n" by simp
  obtain f where f: "rfR n a i f (peer sy i)" "apR (alog a i) (commitIndex (peer sy i)) f (nAp (nodes sy i))"
    using sysRD2[OF sy i] .
  obtain a' where "simStep n i a f (peer sy i) a' f rf" "set effs \<subseteq> {SignalApply}"
    using sendSnapShot_recv_sim[OF inv f(1) mr h] .
  then show ?thesis by (intro sysR_setRf0[OF sy i _ f(2)]) auto
qed

lemma compact_step:
  assumes sy: "sysR n sy a" and inv: "aInv (majority n) a" and i: "i < n"
    and m: "m \<in> set (delivered (nAp (nodes sy i)))" "amCommandValid m"
    and h: "Snapshot (amCommandIndex m) snap (peer sy i) = Some rf"
  shows "simulated n a (setRf i rf [] sy)"
proof -
  obtain f where f: "rfR n a i f (peer sy i)" "apR (alog a i) (commitIndex (peer sy i)) f (nAp (nodes sy i))"
    using sysRD2[OF sy i] .
  have "amCommandIndex m \<le> commitIndex (peer sy i)" using f(2) m unfolding apR_def by fastforce
  then obtain f' where "simStep n i a f (peer sy i) a f' rf" using Snapshot_sim[OF inv f(1) _ h] by blast
  then show ?thesis by (intro sysR_setRf0[OF sy i _ f(2)]) auto
qed

text \<open>A step of a delivery goroutine.\<close>

lemma setAp_step:
  assumes sy: "sysR n sy a" and inv: "aInv (majority n) a" and i: "i < n"
    and r: "rfR n a i f rf" and ap: "apR (alog a i) (commitIndex rf) f ap"
  shows "simulated n a (setAp i rf ap sy)"
proof -
  from sysRD[OF sy i] have ro: "\<forall>ro \<in> set (nRounds (nodes sy i)). roundR n a i ro"
    and sn: "nSnapTo (nodes sy i) \<subseteq> {..<n}" by blast+
  have "nodeR n a i (nodes (setAp i rf ap sy) i)"
    using r ap ro sn by (auto simp: nodeR_def setAp_def)
  then have "sysR n (setAp i rf ap sy) a"
    using goodMsg_delivered[OF r ap]
    by (intro sysR_update[OF sy moves_refl[OF inv], where i = i]) (auto simp: setAp_def simp del: msgR.simps)
  then show ?thesis using inv unfolding simulated_def by blast
qed

lemma applier_sys_step:
  assumes sy: "sysR n sy a" and inv: "aInv (majority n) a" and i: "i < n"
    and h: "applier_step (peer sy i) (nAp (nodes sy i)) = Runs (rf, ap)"
  shows "simulated n a (setAp i rf ap sy)"
proof -
  obtain f where f: "rfR n a i f (peer sy i)" "apR (alog a i) (commitIndex (peer sy i)) f (nAp (nodes sy i))"
    using sysRD2[OF sy i] .
  have rC: "rfC n a i f (peer sy i)" "synced (peer sy i)" using f(1) by (auto simp: rfR_def)
  note G = applier_step_good[OF rC(1) f(2) h]
  have "rfR n a i f ((peer sy i)\<lparr>lastApplied := lastApplied rf\<rparr>)" using rC by (simp add: rfR_def)
  then have "rfR n a i f rf" using G(2) by simp
  moreover have "commitIndex rf = commitIndex (peer sy i)" using arg_cong[OF G(2), of commitIndex] by simp
  ultimately show ?thesis using G(1) by (intro setAp_step[OF sy inv i]) simp_all
qed

lemma deliver_snap_step:
  assumes sy: "sysR n sy a" and inv: "aInv (majority n) a" and i: "i < n"
    and h: "snap_step k (peer sy i) (nAp (nodes sy i)) = Runs (rf, ap)"
  shows "simulated n a (setAp i rf ap sy)"
proof -
  obtain f where f: "rfR n a i f (peer sy i)" "apR (alog a i) (commitIndex (peer sy i)) f (nAp (nodes sy i))"
    using sysRD2[OF sy i] .
  show ?thesis using snap_step_good[OF f h] by (intro setAp_step[OF sy inv i]) auto
qed

lemma crash_step:
  assumes sy: "sysR n sy a" and inv: "aInv (majority n) a" and i: "i < n"
    and h: "Make now n i (persister (peer sy i)) = Some rf"
  shows "simulated n a (sy\<lparr>nodes := (nodes sy)(i := freshNode rf)\<rparr>)"
proof -
  obtain f where f: "rfR n a i f (peer sy i)" "apR (alog a i) (commitIndex (peer sy i)) f (nAp (nodes sy i))"
    using sysRD2[OF sy i] .
  have "nodeR n a i (freshNode rf)"
    using Make_sim(1)[OF f(1) i h] apR_initApply by (auto simp: nodeR_def freshNode_def)
  then have "sysR n (sy\<lparr>nodes := (nodes sy)(i := freshNode rf)\<rparr>) a"
    by (intro sysR_update[OF sy moves_refl[OF inv], where i = i]) (auto simp del: msgR.simps)
  then show ?thesis using inv unfolding simulated_def by blast
qed

theorem step_simulated:
  assumes "step n sy sy'" and sy: "sysR n sy a" and inv: "aInv (majority n) a"
  shows "simulated n a sy'"
  using assms(1)
proof cases
  case (vote_rep i j args reply k ro tm rf el)
  have "msgR n a (MVoteRep i j args reply)" using sysR_msg[OF sy vote_rep(2)] by simp
  then show ?thesis
    unfolding vote_rep(1) using vote_rep(3-) by (intro reply_step[OF sy inv, of i _ _ _ "Some reply"]) auto
next
  case (vote_fail i k ro j tm rf el)
  then show ?thesis unfolding vote_fail(1) by (intro reply_step[OF sy inv, of i _ _ _ None]) auto
qed (use elect_start_step[OF sy inv] vote_req_step[OF sy inv] elect_finish_step[OF sy inv]
    client_step[OF sy inv] replicate_step[OF sy inv] log_req_step[OF sy inv] log_rep_step[OF sy inv]
    snap_send_step[OF sy inv] snap_req_step[OF sy inv] snap_rep_step[OF sy inv] compact_step[OF sy inv]
    applier_sys_step[OF sy inv] deliver_snap_step[OF sy inv] crash_step[OF sy inv] in \<open>simp\<close>)+

lemma initial_sim: "initial n sy \<Longrightarrow> sysR n sy aInit"
  unfolding initial_def sysR_def nodeR_def using Make_initial apR_initApply
  by (fastforce simp: freshNode_def)

lemma astep_reach: "(astep Qm)\<^sup>*\<^sup>* st st' \<Longrightarrow> areach Qm st \<Longrightarrow> areach Qm st'"
  by (induction rule: rtranclp_induct) (auto intro: areach_step)

theorem reachable_simulated:
  "reachable n sy \<Longrightarrow> \<exists>a. areach (majority n) a \<and> sysR n sy a"
proof (induction rule: reachable.induct)
  case (reach_init sy)
  then show ?case using initial_sim areach_init by blast
next
  case (reach_step sy sy')
  then obtain a where a: "areach (majority n) a" "sysR n sy a" by blast
  from step_simulated[OF reach_step(2) a(2) areach_inv[OF a(1)]]
  obtain a' where "(astep (majority n))\<^sup>*\<^sup>* a a'" "sysR n sy' a'" unfolding simulated_def by blast
  then show ?case using astep_reach a(1) by blast
qed

end
