(* ===== verification/Kv_Common.thy ===== *)
theory Kv_Common
  imports Go_Prelude "HOL-Library.Finite_Map"
begin

text \<open>
  The data of the replicated key/value service, \<^verbatim>\<open>src/src/kvraft/common.go\<close> and the head of
  \<^verbatim>\<open>server.go\<close>: errors, operations, the argument and reply structs of the one RPC, the command that goes
  into the Raft log, and the values a snapshot consists of.  As in \<open>Raft_State\<close>, a gob byte buffer is the
  list of the values encoded into it.
\<close>

datatype Err = ErrNone | OK | NoKey | WrongLeader | TimeOut | Duplicate

datatype OperationOp = OpPut | OpAppend | OpGet

record ClientRequestArgs =
  crOp :: OperationOp
  crKey :: string
  crValue :: string
  crClientId :: int
  crReqSeq :: int

record ClientRequestReply =
  rpErr :: Err
  rpValue :: string

definition emptyReply :: ClientRequestReply where
  "emptyReply = \<lparr> rpErr = ErrNone, rpValue = '''' \<rparr>"

record Op =
  opOp :: OperationOp
  opKeyOf :: string
  opValue :: string
  opClient :: int
  opSeq :: int

text \<open>The three maps of a snapshot.\<close>

datatype kvgob =
    GStore "(string, string) fmap"
  | GMaxReq "(int, int) fmap"
  | GLastRest "(int, ClientRequestReply) fmap"

end
