(* ===== verification/Raft_Demo.thy ===== *)
theory Raft_Demo
  imports Raft_Sys Kv_Common
begin

text \<open>
  A run of a two-peer cluster from blank storage: peer 0 is elected in term 1, takes a command of the
  key/value service,
  replicates and commits it, delivers it to its service, and tells peer 1 with the next
  heartbeat.  Every state is reachable; the witnesses of the cluster properties are taken here.
\<close>

section \<open>The states of the run\<close>

definition demoTm :: timer where
  "demoTm = (\<lambda>_. (1, 0))"

definition demoOp :: Op where
  "demoOp = \<lparr>opOp = OpPut, opKeyOf = ''k'', opValue = ''v'', opClient = 5, opSeq = 0\<rparr>"

definition demoE :: "Op LogEntry" where
  "demoE = \<lparr>leTerm = 1, leIndex = 1, leData = Some demoOp\<rparr>"

definition demoInit :: "nat \<Rightarrow> (Op, kvgob) Raft" where
  "demoInit i = \<lparr>npeers = 2, persister = \<lparr>psRaftstate = [], psSnapshot = []\<rparr>, me = i, dead = 0,
     state = Follower, startElectionTime = 0, electionInterval = 0, currentTerm = 0, voteFor = -1,
     rlog = [dummyLog], snapshot = [], commitIndex = 0, lastApplied = 0, nextIndex = [1, 1],
     matchIndex = [0, 0]\<rparr>"

text \<open>A peer of term 1 that has voted for peer 0.\<close>

definition demoRf :: "nat \<Rightarrow> ServerState \<Rightarrow> int \<Rightarrow> Op LogEntry list \<Rightarrow> int \<Rightarrow> int \<Rightarrow> int list \<Rightarrow>
    int list \<Rightarrow> (Op, kvgob) Raft" where
  "demoRf i st ei l ci la ni mi =
     \<lparr>npeers = 2, persister = \<lparr>psRaftstate = [GInt 1, GInt 0, GLog l], psSnapshot = []\<rparr>, me = i,
      dead = 0, state = st, startElectionTime = 1, electionInterval = ei, currentTerm = 1,
      voteFor = 0, rlog = l, snapshot = [], commitIndex = ci, lastApplied = la, nextIndex = ni,
      matchIndex = mi\<rparr>"

definition demoCand :: "(Op, kvgob) Raft" where
  "demoCand = demoRf 0 Candidate 750 [dummyLog] 0 0 [1, 1] [0, 0]"

definition demoVoter :: "(Op, kvgob) Raft" where
  "demoVoter = demoRf 1 Follower 450 [dummyLog] 0 0 [1, 1] [0, 0]"

definition demoLeader :: "(Op, kvgob) Raft" where
  "demoLeader = demoRf 0 Leader 750 [dummyLog] 0 0 [1, 1] [0, 0]"

definition demoStarted :: "(Op, kvgob) Raft" where
  "demoStarted = demoRf 0 Leader 750 [dummyLog, demoE] 0 0 [1, 1] [1, 0]"

definition demoFollower :: "(Op, kvgob) Raft" where
  "demoFollower = demoRf 1 Follower 350 [dummyLog, demoE] 0 0 [1, 1] [0, 0]"

definition demoCommitted :: "(Op, kvgob) Raft" where
  "demoCommitted = demoRf 0 Leader 750 [dummyLog, demoE] 1 0 [1, 2] [1, 1]"

definition demoApplied :: "(Op, kvgob) Raft" where
  "demoApplied = demoRf 0 Leader 750 [dummyLog, demoE] 1 1 [1, 2] [1, 1]"

definition demoLearned :: "(Op, kvgob) Raft" where
  "demoLearned = demoRf 1 Follower 350 [dummyLog, demoE] 1 0 [1, 1] [0, 0]"

definition demoArgs :: RequestVoteArgs where
  "demoArgs = \<lparr>rvTerm = 1, rvCandidateId = 0, rvLastLogIndex = 0, rvLastLogTerm = -1\<rparr>"

definition demoEl :: "int \<Rightarrow> Election" where
  "demoEl k = \<lparr>elArgs = demoArgs, finishRequest = k, voteCount = k, rpcFailCount = 0\<rparr>"

definition demoVote :: RequestVoteReply where
  "demoVote = \<lparr>rvrTerm = 0, rvrVoteGranted = True\<rparr>"

definition demoAppend :: "Op SendLogArgs" where
  "demoAppend = \<lparr>slTerm = 1, slLeaderId = 0, slPrevLogIndex = 0, slPrevLogTerm = -1,
     slEntries = [demoE], slLeaderCommit = 0, slMsgType = LogMsgType, slShouldSendSnapShot = False\<rparr>"

definition demoBeat :: "Op SendLogArgs" where
  "demoBeat = \<lparr>slTerm = 1, slLeaderId = 0, slPrevLogIndex = 1, slPrevLogTerm = 1, slEntries = [],
     slLeaderCommit = 1, slMsgType = HeartBeatMsgType, slShouldSendSnapShot = False\<rparr>"

definition demoOk :: SendLogReply where
  "demoOk = \<lparr>slrTerm = 1, slrSuccess = True, slrSavedLogIndex = 0\<rparr>"

definition demoAp :: "Op applierPc \<Rightarrow> holder option \<Rightarrow> (Op, kvgob) ApplyMsg list \<Rightarrow> (Op, kvgob) ApplyState" where
  "demoAp q h ms = \<lparr>pc = q, snaps = [], seqMu = h, delivered = ms\<rparr>"

definition demoMsg :: "(Op, kvgob) ApplyMsg" where
  "demoMsg = commandMsg demoE"

definition demoRound :: "int \<Rightarrow> nat set \<Rightarrow> bool \<Rightarrow> Round list" where
  "demoRound k w b = [\<lparr>roEl = demoEl k, roWaiting = w, roDone = b\<rparr>]"

definition demoSys :: "(Op, kvgob) Raft \<Rightarrow> Round list \<Rightarrow> (Op, kvgob) ApplyState \<Rightarrow> (Op, kvgob) Raft \<Rightarrow>
    (Op, kvgob) msg set \<Rightarrow> (Op, kvgob) ApplyMsg set \<Rightarrow> (Op, kvgob) sys" where
  "demoSys r0 ros ap r1 ms h =
     \<lparr>nodes = (\<lambda>i. if i = 0 then \<lparr>nRf = r0, nRounds = ros, nSnapTo = {}, nAp = ap\<rparr>
                  else if i = 1 then \<lparr>nRf = r1, nRounds = [], nSnapTo = {}, nAp = initApply\<rparr>
                  else freshNode (demoInit i)),
      net = ms, history = h\<rparr>"

definition demoV :: "(Op, kvgob) msg set" where
  "demoV = {MVoteReq 0 1 demoArgs, MVoteRep 0 1 demoArgs demoVote}"

definition demoN :: "(Op, kvgob) msg set" where
  "demoN = demoV \<union> {MLogReq 0 1 demoAppend 1, MLogRep 0 1 demoAppend 1 demoOk}"

definition demo_start :: "(Op, kvgob) sys" where
  "demo_start = demoSys (demoInit 0) [] initApply (demoInit 1) {} {}"

definition demo_elected :: "(Op, kvgob) sys" where
  "demo_elected = demoSys demoLeader (demoRound 2 {} True) initApply demoVoter demoV {}"

definition demo_committed :: "(Op, kvgob) sys" where
  "demo_committed = demoSys demoCommitted (demoRound 2 {} True) initApply demoFollower demoN {}"

definition demo_delivered :: "(Op, kvgob) sys" where
  "demo_delivered = demoSys demoApplied (demoRound 2 {} True) (demoAp ATop None [demoMsg])
     demoFollower demoN {demoMsg}"

definition demo_learned :: "(Op, kvgob) sys" where
  "demo_learned = demoSys demoApplied (demoRound 2 {} True) (demoAp ATop None [demoMsg])
     demoLearned (demoN \<union> {MLogReq 0 1 demoBeat 2, MLogRep 0 1 demoBeat 2 demoOk}) {demoMsg}"

section \<open>The steps\<close>

lemma demoSys_peer [simp]:
  "nodes (demoSys r0 ros ap r1 ms h) 0 = \<lparr>nRf = r0, nRounds = ros, nSnapTo = {}, nAp = ap\<rparr>"
  "nodes (demoSys r0 ros ap r1 ms h) (Suc 0) = \<lparr>nRf = r1, nRounds = [], nSnapTo = {}, nAp = initApply\<rparr>"
  "net (demoSys r0 ros ap r1 ms h) = ms" "history (demoSys r0 ros ap r1 ms h) = h"
  by (simp_all add: demoSys_def)

text \<open>The updates of a step, on such a state.\<close>

lemma demoSys_upd [simp]:
  "setRf 0 rf effs (demoSys r0 ros ap r1 ms h) = demoSys rf ros (doEffects effs ap) r1 ms h"
  "send ms' (demoSys r0 ros ap r1 ms h) = demoSys r0 ros ap r1 (ms \<union> ms') h"
  "addRound 0 el w (demoSys r0 ros ap r1 ms h) =
     demoSys r0 (ros @ [\<lparr>roEl = el, roWaiting = w, roDone = False\<rparr>]) ap r1 ms h"
  "setRound 0 k ro (demoSys r0 ros ap r1 ms h) = demoSys r0 (ros[k := ro]) ap r1 ms h"
  "addSnapTo 0 {} (demoSys r0 ros ap r1 ms h) = demoSys r0 ros ap r1 ms h"
  "setAp 0 rf ap' (demoSys r0 ros ap r1 ms h) = demoSys rf ros ap' r1 ms (h \<union> set (delivered ap'))"
  by (auto simp: demoSys_def setRf_def send_def addRound_def setRound_def addSnapTo_def setAp_def)

lemma demoSys_upd1:
  "doEffects effs initApply = (initApply :: (Op, kvgob) ApplyState) \<Longrightarrow>
   setRf 1 rf effs (demoSys r0 ros ap r1 ms h) = demoSys r0 ros ap rf ms h"
  by (auto simp: demoSys_def setRf_def fun_eq_iff)

lemmas demo_defs = demoTm_def demoE_def demoInit_def demoRf_def demoCand_def demoVoter_def demoLeader_def
  demoStarted_def demoFollower_def demoCommitted_def demoApplied_def demoLearned_def demoArgs_def
  demoEl_def demoVote_def demoAppend_def demoBeat_def demoOk_def demoAp_def demoMsg_def demoRound_def

lemma demo_evals:
  "Make 0 2 0 MakePersister = Some (demoInit 0)"
  "Make 0 2 1 MakePersister = Some (demoInit 1)"
  "ticker_start 1 demoTm (demoInit 0) = Some (demoCand, Some (demoEl 1))"
  "RequestVote demoTm demoArgs (demoInit 1) = Some (demoVoter, demoVote)"
  "ticker_reply demoTm (Some demoVote) (demoEl 1) demoCand = (demoCand, demoEl 2)"
  "ticker_finish (demoEl 2) demoCand = Some demoLeader"
  "Start (Some demoOp) demoLeader = Some (demoStarted, (1, 1, True), [SpawnSendLog])"
  "sendLogTicketCore demoStarted = Some (demoStarted, [DoSendLog 1 demoAppend 1])"
  "RequestSendLog demoTm demoAppend demoVoter = Some (demoFollower, demoOk, [])"
  "sendLog_recv demoTm 1 demoAppend 1 demoOk demoStarted = Some (demoCommitted, [SignalApply])"
  "sendLogTicketCore demoApplied = Some (demoApplied, [DoSendLog 1 demoBeat 2])"
  "RequestSendLog demoTm demoBeat demoFollower = Some (demoLearned, demoOk, [SignalApply])"
  by code_simp+

lemma demo_applies:
  "applier_step demoCommitted initApply = Runs (demoCommitted, demoAp (AGot [demoE]) None [])"
  "applier_step demoCommitted (demoAp (AGot [demoE]) None []) =
     Runs (demoCommitted, demoAp (ASeqCheck [demoE]) (Some HApplier) [])"
  "applier_step demoCommitted (demoAp (ASeqCheck [demoE]) (Some HApplier) []) =
     Runs (demoCommitted, demoAp (ASend [demoE] [demoE]) (Some HApplier) [])"
  "applier_step demoCommitted (demoAp (ASend [demoE] [demoE]) (Some HApplier) []) =
     Runs (demoCommitted, demoAp (ASend [demoE] []) (Some HApplier) [demoMsg])"
  "applier_step demoCommitted (demoAp (ASend [demoE] []) (Some HApplier) [demoMsg]) =
     Runs (demoApplied, demoAp ATop None [demoMsg])"
  by code_simp+

lemmas demo_rules = demo_evals[unfolded One_nat_def] demoSys_upd1[unfolded One_nat_def]

lemma step_to: "reachable n sy \<Longrightarrow> step n sy sy1 \<Longrightarrow> sy1 = sy' \<Longrightarrow> reachable n sy'"
  using reach_step by blast

lemma demo_effects [simp]:
  "doEffects [] ap = ap" "doEffects [SpawnSendLog] ap = ap" "doEffects [SignalApply] initApply = initApply"
  by (simp_all add: doEffects_def signalApply_def initApply_def)

lemma demo_start_reachable: "reachable 2 demo_start"
proof (rule reach_init)
  have "nodes demo_start i = freshNode (demoInit i)" for i
    by (simp add: demo_start_def demoSys_def freshNode_def)
  moreover have "Make 0 2 i MakePersister = Some (demoInit i)" if "i < 2" for i
    using that demo_evals(1,2) by (auto simp: less_2_cases_iff)
  ultimately show "initial 2 demo_start"
    unfolding initial_def by (auto simp: demo_start_def)
qed

lemma demo_elected_reachable: "reachable 2 demo_elected"
proof -
  have others: "{..<2} - {0} = {Suc 0}" "{MVoteReq 0 j x | j. j < 2 \<and> 0 < j} = {MVoteReq 0 (Suc 0) x}" for x
    by (auto simp: less_2_cases_iff)
  have "reachable 2 (demoSys demoCand (demoRound 1 {1} False) initApply (demoInit 1)
      {MVoteReq 0 1 demoArgs} {})"
    by (rule step_to[OF demo_start_reachable step.elect_start[where i = 0 and now = 1 and tm = demoTm]])
      (auto simp: demo_start_def demo_rules demoRound_def demoEl_def others)
  then have "reachable 2 (demoSys demoCand (demoRound 1 {1} False) initApply demoVoter demoV {})"
    by (rule step_to[OF _ step.vote_req[where i = 0 and j = 1 and tm = demoTm and args = demoArgs]])
      (auto simp: demo_rules insert_commute demoV_def)
  then have "reachable 2 (demoSys demoCand (demoRound 2 {} False) initApply demoVoter demoV {})"
    by (rule step_to[OF _ step.vote_rep[where i = 0 and j = 1 and tm = demoTm and args = demoArgs
          and reply = demoVote and k = 0]])
      (auto simp: demo_rules insert_commute demoV_def demoRound_def, simp add: demoEl_def)
  then show ?thesis
    by (rule step_to[OF _ step.elect_finish[where i = 0 and k = 0]])
      (auto simp: demo_rules insert_commute demoRound_def demo_elected_def, simp add: ticker_waits_def demoEl_def)
qed

lemma demo_committed_reachable: "reachable 2 demo_committed"
proof -
  have "reachable 2 (demoSys demoStarted (demoRound 2 {} True) initApply demoVoter demoV {})"
    by (rule step_to[OF demo_elected_reachable step.client[where i = 0 and cmd = "Some demoOp"]])
      (auto simp: demo_elected_def demo_rules insert_commute)
  then have "reachable 2 (demoSys demoStarted (demoRound 2 {} True) initApply demoVoter
      (demoV \<union> {MLogReq 0 1 demoAppend 1}) {})"
    by (rule step_to[OF _ step.replicate[where i = 0]])
      (auto simp: demo_rules insert_commute logMsgs_def snapPeers_def)
  then have "reachable 2 (demoSys demoStarted (demoRound 2 {} True) initApply demoFollower demoN {})"
    by (rule step_to[OF _ step.log_req[where i = 0 and j = 1 and args = demoAppend and r = 1 and tm = demoTm]])
      (auto simp: demo_rules insert_commute demoN_def)
  then show ?thesis
    by (rule step_to[OF _ step.log_rep[where i = 0 and j = 1 and args = demoAppend and r = 1
          and reply = demoOk and tm = demoTm]])
      (auto simp: demo_rules insert_commute demoN_def demo_committed_def)
qed

lemma demo_apply_step:
  assumes "reachable 2 (demoSys r0 ros ap r1 ms h)" "applier_step r0 ap = Runs (rf, ap')"
    "h \<union> set (delivered ap') = h'"
  shows "reachable 2 (demoSys rf ros ap' r1 ms h')"
  by (rule step_to[OF assms(1) step.applier[where i = 0]]) (use assms(2,3) in auto)

lemma demo_delivered_reachable: "reachable 2 demo_delivered"
proof -
  note ap = demo_apply_step
  from demo_committed_reachable[unfolded demo_committed_def] show ?thesis
    unfolding demo_delivered_def
    by - (drule ap, rule demo_applies, rule refl, drule ap, rule demo_applies, rule refl,
      drule ap, rule demo_applies, rule refl, drule ap, rule demo_applies, rule refl,
      drule ap, rule demo_applies, rule refl, simp add: demoAp_def)
qed

lemma demo_learned_reachable: "reachable 2 demo_learned"
proof -
  have "reachable 2 (demoSys demoApplied (demoRound 2 {} True) (demoAp ATop None [demoMsg]) demoFollower
      (demoN \<union> {MLogReq 0 1 demoBeat 2}) {demoMsg})"
    by (rule step_to[OF demo_delivered_reachable step.replicate[where i = 0]])
      (auto simp: demo_delivered_def demo_rules insert_commute logMsgs_def snapPeers_def)
  then show ?thesis
    by (rule step_to[OF _ step.log_req[where i = 0 and j = 1 and args = demoBeat and r = 2 and tm = demoTm]])
      (auto simp: demo_rules insert_commute demo_learned_def)
qed

end
