(* ===== verification/Raft_Props.thy ===== *)
theory Raft_Props
  imports Raft_Safety Raft_Demo
begin

text \<open>
  What the Raft component promises to its clients, read off the simulation: statements about every
  reachable state of the cluster that runs the code of \<open>raft/raft.go\<close>.
\<close>

section \<open>Reading a peer's log\<close>

text \<open>The entry a peer holds at an index, as the code reads it.\<close>

definition logAt :: "('c, 's) Raft \<Rightarrow> int \<Rightarrow> 'c LogEntry option" where
  "logAt rf x = do { firstLog \<leftarrow> GetFirstLog rf; idx (rlog rf) (x - leIndex firstLog) }"

text \<open>Past its first index the data is there too; at the first index only the term is.\<close>

definition firstIndex :: "('c, 's) Raft \<Rightarrow> int" where
  "firstIndex rf = (case GetFirstLog rf of None \<Rightarrow> 0 | Some e \<Rightarrow> leIndex e)"

lemma logAt_Some:
  assumes "rfC n a i f rf"
  shows "logAt rf x = Some e \<longleftrightarrow> (\<exists>p. x = int p \<and> f \<le> p \<and> p < length (alog a i) \<and>
    e = conc f (alog a i) ! (p - f))"
  using rfR_first[OF assms] rfCD(8)[OF assms] idx_conc_iff[OF rfCD(7)[OF assms], of x e]
  by (simp add: logAt_def)

lemma firstIndex_eq: "rfC n a i f rf \<Longrightarrow> firstIndex rf = int f"
  by (simp add: firstIndex_def rfR_first)

lemma logAt_term:
  assumes "rfC n a i f rf" "logAt rf x = Some e"
  shows "0 \<le> x" "nat x < length (alog a i)" "leTerm e = fst (alog a i ! nat x)" "leIndex e = x" "int f \<le> x"
    "int f < x \<Longrightarrow> e = ent (alog a i) (nat x)"
  using assms conc_nth_term[of "nat x - f" "alog a i" f] conc_nth_index[of "nat x - f" "alog a i" f]
    conc_nth[of "nat x - f" "alog a i" f] logAt_Some[OF assms(1)] by auto

lemma logAt_past:
  assumes "rfC n a i f rf" "int f < x" "nat x < length (alog a i)"
  shows "logAt rf x = Some (ent (alog a i) (nat x))"
  using assms(2,3) conc_nth[of "nat x - f" "alog a i" f]
  by (subst logAt_Some[OF assms(1)]) (auto intro!: exI[of _ "nat x"])

text \<open>The abstract state behind a reachable cluster, with what it says of two peers.\<close>

lemma reachE:
  assumes "reachable n sy"
  obtains a where "aInv (majority n) a" "sysR n sy a"
  using reachable_simulated[OF assms] areach_inv by blast

lemma reach_peer:
  assumes "sysR n sy a" "i < n"
  obtains f where "rfC n a i f (peer sy i)" "synced (peer sy i)"
  using sysRD2[OF assms] unfolding rfR_def by blast

text \<open>The last state of the run of \<open>Raft_Demo\<close>.\<close>

lemma demo_learned_sel:
  "peer demo_learned 0 = demoApplied" "peer demo_learned (Suc 0) = demoLearned"
  "history demo_learned = {demoMsg}"
  by (simp_all add: demo_learned_def)

lemma demo_logs:
  "logAt demoApplied 1 = Some demoE" "logAt demoLearned 1 = Some demoE"
  "firstIndex demoApplied = 0" "firstIndex demoLearned = 0"
  "commitIndex demoApplied = 1" "commitIndex demoLearned = 1"
  "state demoApplied = Leader" "currentTerm demoApplied = 1" "currentTerm demoLearned = 1"
  by (simp_all add: logAt_def firstIndex_def GetFirstLog_def idx_def demoApplied_def demoLearned_def
      demoRf_def dummyLog_def)

section \<open>The safety theorems\<close>

lemma history_committed:
  assumes "sysR n sy a" "m \<in> history sy" "amCommandValid m"
  obtains T P p where "committed (majority n) a T P" "amCommandIndex m = int p" "p < length P"
    "snd (P ! p) = amCommand m"
  using assms unfolding sysR_def goodMsg_def by blast

lemma committed_nth:
  assumes "aInv (majority n) a" "committed (majority n) a T P" "committed (majority n) a T' P'"
    "p < length P" "p < length P'"
  shows "P ! p = P' ! p"
  using maj.committed_comparable[OF assms(1-3)] prefix_nth[of P P' p] prefix_nth[of P' P p] assms(4,5)
  by auto

lemma history_agree:
  assumes "reachable n sy"
    and "m \<in> history sy" "amCommandValid m" "m' \<in> history sy" "amCommandValid m'"
    and "amCommandIndex m = amCommandIndex m'"
  shows "amCommand m = amCommand m'"
proof -
  obtain a where a: "aInv (majority n) a" "sysR n sy a" using reachE[OF assms(1)] .
  obtain T P p where P: "committed (majority n) a T P" "amCommandIndex m = int p" "p < length P"
    "snd (P ! p) = amCommand m" using history_committed[OF a(2) assms(2,3)] .
  obtain T' P' p' where P': "committed (majority n) a T' P'" "amCommandIndex m' = int p'" "p' < length P'"
    "snd (P' ! p') = amCommand m'" using history_committed[OF a(2) assms(4,5)] .
  have "p = p'" using P(2) P'(2) assms(6) by simp
  then show ?thesis using committed_nth[OF a(1) P(1) P'(1) P(3)] P(4) P'(3,4) by simp
qed

text \<open>C1 (state machine safety).  In every reachable state of a cluster that runs the code, with
  lost, delayed, duplicated and reordered messages, crashes and restarts, any two commands that
  services have ever received at the same log index are the same command.\<close>

theorem state_machine_safety:
  assumes "reachable n sy"
    and "m \<in> history sy" "amCommandValid m" "m' \<in> history sy" "amCommandValid m'"
    and "amCommandIndex m = amCommandIndex m'"
  shows "amCommand m = amCommand m'"
  by (rule history_agree[OF assms])

theorem state_machine_safety_witness:
  "demoMsg \<in> history demo_learned \<and> amCommandValid demoMsg \<and> amCommand demoMsg = amCommand demoMsg"
  using state_machine_safety[OF demo_learned_reachable, of demoMsg demoMsg]
  by (simp add: demo_learned_sel demoMsg_def commandMsg_def)

text \<open>C2 (election safety).  Two peers that are both leader in the same term are the same peer.\<close>

theorem election_safety:
  assumes "reachable n sy" "i < n" "j < n" "state (peer sy i) = Leader" "state (peer sy j) = Leader"
    and "currentTerm (peer sy i) = currentTerm (peer sy j)"
  shows "i = j"
proof -
  obtain a where a: "aInv (majority n) a" "sysR n sy a" using reachE[OF assms(1)] .
  obtain f g where f: "rfC n a i f (peer sy i)" "rfC n a j g (peer sy j)"
    using reach_peer[OF a(2)] assms(2,3) by metis
  have "ldr a (cur a i) = Some i" "ldr a (cur a j) = Some j" "cur a i = cur a j"
    using rfCD(14)[OF f(1) assms(4)] rfCD(14)[OF f(2) assms(5)] rfCD(5)[OF f(1)] rfCD(5)[OF f(2)] assms(6)
    by simp_all
  then show ?thesis by (metis option.inject)
qed

theorem election_safety_witness: "state (peer demo_learned 0) = Leader \<and> (0 :: nat) = 0"
  using election_safety[OF demo_learned_reachable, of 0 0] by (simp add: demo_learned_sel demo_logs)

text \<open>C3 (log matching).  If two peers hold entries with the same term at the same index, then
  at every index up to it that both hold past their first index, they hold the same entry.\<close>

theorem log_matching_code:
  assumes "reachable n sy" "i < n" "j < n" "logAt (peer sy i) x = Some e" "logAt (peer sy j) x = Some e'"
    and "leTerm e = leTerm e'" "y \<le> x" "firstIndex (peer sy i) < y" "firstIndex (peer sy j) < y"
  shows "logAt (peer sy i) y = logAt (peer sy j) y \<and> logAt (peer sy i) y \<noteq> None"
proof -
  obtain a where a: "aInv (majority n) a" "sysR n sy a" using reachE[OF assms(1)] .
  obtain f g where f: "rfC n a i f (peer sy i)" "rfC n a j g (peer sy j)"
    using reach_peer[OF a(2)] assms(2,3) by metis
  note X = logAt_term[OF f(1) assms(4)] and Y = logAt_term[OF f(2) assms(5)] and I = aInvD[OF a(1)]
  have fg: "int f < y" "int g < y" using assms(8,9) firstIndex_eq[OF f(1)] firstIndex_eq[OF f(2)] by auto
  have "alog a i ! 0 = alog a j ! 0"
    using wfLogD(2)[OF invLogD(1)[OF I(3)], of i] wfLogD(2)[OF invLogD(1)[OF I(3)], of j] by simp
  then have t: "take (Suc (nat x)) (alog a i) = take (Suc (nat x)) (alog a j)"
    using log_matching[OF invLogD(2)[OF I(3)] invLogD(2)[OF I(3)] X(2) Y(2)] X(3) Y(3) assms(6) by simp
  have yx: "nat y < Suc (nat x)" using assms(7) by simp
  have "alog a i ! nat y = alog a j ! nat y" by (rule take_eq_nth[OF t yx])
  moreover have "logAt (peer sy i) y = Some (ent (alog a i) (nat y))"
    using logAt_past[OF f(1) fg(1)] X(2) yx by simp
  moreover have "logAt (peer sy j) y = Some (ent (alog a j) (nat y))"
    using logAt_past[OF f(2) fg(2)] Y(2) yx by simp
  ultimately show ?thesis by (simp add: ent_def)
qed

theorem log_matching_code_witness:
  "logAt (peer demo_learned 0) 1 = logAt (peer demo_learned 1) 1 \<and> logAt (peer demo_learned 0) 1 \<noteq> None"
  by (rule log_matching_code[OF demo_learned_reachable, of 0 1 1 demoE demoE 1])
    (simp_all add: demo_learned_sel demo_logs)

lemma committed_peer:
  assumes r: "rfC n a j g rf" and x: "int g < x" "x \<le> commitIndex rf"
  shows "logAt rf x = Some (ent (alog a j) (nat x))" "nat x < length (take (Suc (nat (commitIndex rf))) (alog a j))"
proof -
  have "nat x < length (alog a j)" using rfCD(11)[OF r] x by linarith
  then show "logAt rf x = Some (ent (alog a j) (nat x))"
    "nat x < length (take (Suc (nat (commitIndex rf))) (alog a j))"
    using logAt_past[OF r x(1)] x(2) by auto
qed

text \<open>C4 (leader completeness).  An entry that some peer regards as committed is in the log of
  every leader of the same or a later term, unless that leader has compacted it away.\<close>

theorem leader_completeness:
  assumes "reachable n sy" "i < n" "j < n" "state (peer sy i) = Leader"
    and "currentTerm (peer sy j) \<le> currentTerm (peer sy i)"
    and "firstIndex (peer sy j) < x" "x \<le> commitIndex (peer sy j)"
  shows "x \<le> firstIndex (peer sy i) \<or>
    logAt (peer sy i) x = logAt (peer sy j) x \<and> logAt (peer sy i) x \<noteq> None"
proof -
  obtain a where a: "aInv (majority n) a" "sysR n sy a" using reachE[OF assms(1)] .
  obtain f g where f: "rfC n a i f (peer sy i)" "rfC n a j g (peer sy j)"
    using reach_peer[OF a(2)] assms(2,3) by metis
  note I = aInvD[OF a(1)]
  have x: "int g < x" using assms(6) firstIndex_eq[OF f(2)] by simp
  note P = committed_peer[OF f(2) x assms(7)]
  have L: "tlog a (cur a i) = Some (alog a i)" by (rule leader_log[OF I(4,5) rfCD(14)[OF f(1) assms(4)]])
  have "cur a j \<le> cur a i" using assms(5) rfCD(5)[OF f(1)] rfCD(5)[OF f(2)] by simp
  from maj.committed_in_leader[OF a(1) rfCD(12)[OF f(2)] L this]
  have pre: "prefix (take (Suc (nat (commitIndex (peer sy j)))) (alog a j)) (alog a i)" .
  have "alog a i ! nat x = alog a j ! nat x" "nat x < length (alog a i)"
    using prefix_nth[OF pre P(2)] P(2) less_le_trans[OF P(2) prefix_length_le[OF pre]] by auto
  then show ?thesis
    using P(1) logAt_past[OF f(1), of x] firstIndex_eq[OF f(1)] by (auto simp: ent_def)
qed

theorem leader_completeness_witness:
  "(1 :: int) \<le> firstIndex (peer demo_learned 0) \<or>
   logAt (peer demo_learned 0) 1 = logAt (peer demo_learned 1) 1 \<and> logAt (peer demo_learned 0) 1 \<noteq> None"
  by (rule leader_completeness[OF demo_learned_reachable, of 0 1 1])
    (simp_all add: demo_learned_sel demo_logs)

text \<open>C5.  Any two peers agree on every index that both regard as committed and neither has
  compacted away.\<close>

theorem committed_entries_agree:
  assumes "reachable n sy" "i < n" "j < n"
    and "firstIndex (peer sy i) < x" "x \<le> commitIndex (peer sy i)"
    and "firstIndex (peer sy j) < x" "x \<le> commitIndex (peer sy j)"
  shows "logAt (peer sy i) x = logAt (peer sy j) x \<and> logAt (peer sy i) x \<noteq> None"
proof -
  obtain a where a: "aInv (majority n) a" "sysR n sy a" using reachE[OF assms(1)] .
  obtain f g where f: "rfC n a i f (peer sy i)" "rfC n a j g (peer sy j)"
    using reach_peer[OF a(2)] assms(2,3) by metis
  have "int f < x" "int g < x" using assms(4,6) firstIndex_eq[OF f(1)] firstIndex_eq[OF f(2)] by auto
  note P = committed_peer[OF f(1) this(1) assms(5)] and Q = committed_peer[OF f(2) this(2) assms(7)]
  from committed_nth[OF a(1) rfCD(12)[OF f(1)] rfCD(12)[OF f(2)] P(2) Q(2)]
  have "alog a i ! nat x = alog a j ! nat x" using P(2) Q(2) by simp
  then show ?thesis using P(1) Q(1) by (simp add: ent_def)
qed

theorem committed_entries_agree_witness:
  "logAt (peer demo_learned 0) 1 = logAt (peer demo_learned 1) 1 \<and> logAt (peer demo_learned 0) 1 \<noteq> None"
  by (rule committed_entries_agree[OF demo_learned_reachable, of 0 1 1])
    (simp_all add: demo_learned_sel demo_logs)

text \<open>C6 (refinement).  The cluster of peers that run the code, with its messages, timers, stable
  storage and snapshots, implements the abstract protocol: every reachable cluster state is
  related to a state the protocol reaches.\<close>

theorem cluster_refines_protocol:
  "reachable n sy \<Longrightarrow> \<exists>a. areach (majority n) a \<and> sysR n sy a"
  by (rule reachable_simulated)

theorem cluster_refines_protocol_witness: "\<exists>a. areach (majority 2) a \<and> sysR 2 demo_learned a"
  by (rule cluster_refines_protocol[OF demo_learned_reachable])

text \<open>C7 (stable storage round trip).  A peer that crashes in any reachable state and restarts
  through \<open>Make\<close> comes back, without a panic, with its term, vote, log and snapshot, and with both
  volatile indices at its first index.\<close>

theorem restart_restores:
  assumes "reachable n sy" "i < n"
  shows "\<exists>rf. Make now n i (persister (peer sy i)) = Some rf \<and> currentTerm rf = currentTerm (peer sy i) \<and>
    voteFor rf = voteFor (peer sy i) \<and> rlog rf = rlog (peer sy i) \<and> snapshot rf = snapshot (peer sy i) \<and>
    commitIndex rf = firstIndex (peer sy i) \<and> lastApplied rf = firstIndex (peer sy i) \<and> state rf = Follower"
proof -
  obtain a where a: "aInv (majority n) a" "sysR n sy a" using reachE[OF assms(1)] .
  obtain f where f: "rfC n a i f (peer sy i)" "synced (peer sy i)" using reach_peer[OF a(2) assms(2)] .
  note R = rfCD[OF f(1)]
  have ps: "psRaftstate (persister (peer sy i)) =
      [GInt (currentTerm (peer sy i)), GInt (voteFor (peer sy i)), GLog (rlog (peer sy i))] \<or>
    psRaftstate (persister (peer sy i)) = [] \<and> currentTerm (peer sy i) = 0 \<and> voteFor (peer sy i) = -1 \<and>
    rlog (peer sy i) = [dummyLog]" and sn: "psSnapshot (persister (peer sy i)) = snapshot (peer sy i)"
    using f(2) by (auto simp: synced_def)
  obtain rf where rf: "Make now n i (persister (peer sy i)) = Some rf"
    using Make_reads[OF ps R(8,7)] assms(2) by auto
  show ?thesis
    using Make_eq[OF ps R(8,7) _ rf] assms(2) rf sn firstIndex_eq[OF f(1)] by auto
qed

theorem restart_restores_witness:
  "\<exists>rf. Make 5 2 1 (persister (peer demo_learned 1)) = Some rf \<and> currentTerm rf = 1 \<and>
     voteFor rf = 0 \<and> rlog rf = [dummyLog, demoE]"
  using restart_restores[OF demo_learned_reachable, of 1 5]
  by (auto simp: demo_learned_sel demoLearned_def demoRf_def)

section \<open>Terms and votes\<close>

lemma astep_vot:
  assumes "astep Qm a a'" "aInv Qm a" "vot a s t = Some c"
  shows "vot a' s t = Some c"
  using assms(1)
proof cases
  case (timeout i)
  then show ?thesis using assms(3) invVoteD[OF aInvD(1)[OF assms(2)] assms(3)]
    by (auto simp: aTimeout_def Let_def)
next
  case (vote i d C)
  then show ?thesis using assms(3) by (auto simp: aVote_def)
qed (use assms(3) in \<open>auto simp: aTerm_def aElect_def aAppend_def aAccept_def Let_def\<close>)

lemma asteps_grow:
  assumes "(astep Qm)\<^sup>*\<^sup>* a a'" "aInv Qm a"
  shows "aInv Qm a' \<and> cur a s \<le> cur a' s \<and> (\<forall>t c. vot a s t = Some c \<longrightarrow> vot a' s t = Some c)"
  using assms(1)
proof (induction rule: rtranclp_induct)
  case base
  then show ?case using assms(2) by simp
next
  case (step b c)
  then have "aInv Qm b" by simp
  note g = astep_inv[OF step(2) this] grows_cur[OF astep_grows(1)[OF step(2) this], of s]
    astep_vot[OF step(2) this, of s]
  then show ?case using step(3) by (meson order_trans)
qed

text \<open>C8.  No step of the cluster, not even a crash and restart, lowers a peer's term, and within
  one term a peer that has voted keeps its vote.\<close>

theorem term_and_vote_stable:
  assumes "reachable n sy" "step n sy sy'" "i < n"
  shows "currentTerm (peer sy i) \<le> currentTerm (peer sy' i) \<and>
    (currentTerm (peer sy' i) = currentTerm (peer sy i) \<and> voteFor (peer sy i) \<noteq> -1 \<longrightarrow>
     voteFor (peer sy' i) = voteFor (peer sy i))"
proof -
  obtain a where a: "aInv (majority n) a" "sysR n sy a" using reachE[OF assms(1)] .
  obtain a' where a': "(astep (majority n))\<^sup>*\<^sup>* a a'" "sysR n sy' a'"
    using step_simulated[OF assms(2) a(2,1)] unfolding simulated_def by blast
  note g = asteps_grow[OF a'(1) a(1), of i]
  obtain f where f: "rfC n a i f (peer sy i)" using reach_peer[OF a(2) assms(3)] .
  obtain f' where f': "rfC n a' i f' (peer sy' i)" using reach_peer[OF a'(2) assms(3)] .
  show ?thesis
    using g rfCD(5,6)[OF f] rfCD(5,6)[OF f'] by (auto split: option.splits)
qed

theorem term_and_vote_stable_witness:
  "\<exists>sy'. step 2 demo_learned sy' \<and> state (peer sy' 0) = Follower \<and>
     currentTerm (peer demo_learned 0) \<le> currentTerm (peer sy' 0)"
proof -
  obtain rf where rf: "Make 5 2 0 (persister (peer demo_learned 0)) = Some rf" "state rf = Follower"
    using Make_reads[of "persister demoApplied" 1 0 "[dummyLog, demoE]" 0 "[(-1, None), (1, Some demoOp)]" 2 5 0]
    by (auto simp: demo_learned_sel demoApplied_def demoRf_def demoE_def conc_def ent_def dummyLog_def)
  let ?sy = "demo_learned\<lparr>nodes := (nodes demo_learned)(0 := freshNode rf)\<rparr>"
  have "step 2 demo_learned ?sy" using rf(1) by (intro step.crash) auto
  then show ?thesis
    using term_and_vote_stable[OF demo_learned_reachable, of ?sy 0] rf(2)
    by (intro exI[of _ ?sy]) (auto simp: freshNode_def)
qed

end
