(* ===== verification/Raft_Runs.thy ===== *)
theory Raft_Runs
  imports Raft_Demo
begin

text \<open>
  Runs of a cluster of three peers that can be evaluated: the peers, the messages and the delivered messages are lists, an action
  names a peer or the position of a message, and performing an action that is possible is a step of the cluster.  A run leads to a leader that has installed a snapshot, has not
  handed it to its service yet, and has the reply to an append in flight.
\<close>

section \<open>Actions\<close>

record runState =
  rsNodes :: "(Op, kvgob) node list"
  rsNet :: "(Op, kvgob) msg list"
  rsHist :: "(Op, kvgob) ApplyMsg list"

definition sysOf :: "runState \<Rightarrow> (Op, kvgob) sys" where
  "sysOf x = \<lparr>nodes = (\<lambda>i. if i < 3 then rsNodes x ! i else undefined), net = set (rsNet x), history = set (rsHist x)\<rparr>"

definition runInit :: "(Op, kvgob) Raft \<Rightarrow> (Op, kvgob) Raft \<Rightarrow> (Op, kvgob) Raft \<Rightarrow> runState" where
  "runInit a b c = \<lparr>rsNodes = [freshNode a, freshNode b, freshNode c], rsNet = [], rsHist = []\<rparr>"

datatype act =
    ElectStart nat
  | OnMessage nat
  | VoteRep nat nat
  | ElectFinish nat nat
  | Client nat
  | Replicate nat
  | SnapSend nat nat
  | Compact nat nat
  | Apply nat

definition putNode :: "nat \<Rightarrow> (Op, kvgob) node \<Rightarrow> (Op, kvgob) msg list \<Rightarrow> runState \<Rightarrow> runState" where
  "putNode i nd ms x = x\<lparr>rsNodes := (rsNodes x)[i := nd], rsNet := rsNet x @ ms\<rparr>"

definition withRf :: "(Op, kvgob) Raft \<Rightarrow> effect list \<Rightarrow> (Op, kvgob) node \<Rightarrow> (Op, kvgob) node" where
  "withRf rf effs nd = nd\<lparr>nRf := rf, nAp := doEffects effs (nAp nd)\<rparr>"

text \<open>A message arrives at a peer that exists.\<close>

fun arrive :: "(Op, kvgob) msg \<Rightarrow> runState \<Rightarrow> runState option" where
  "arrive (MVoteReq i j args) x =
     (if j < 3 then map_option (\<lambda>(rf, reply). putNode j (withRf rf [] (rsNodes x ! j)) [MVoteRep i j args reply] x)
        (RequestVote demoTm args (nRf (rsNodes x ! j))) else None)"
| "arrive (MLogReq i j args r) x =
     (if j < 3 then map_option (\<lambda>(rf, reply, effs). putNode j (withRf rf effs (rsNodes x ! j)) [MLogRep i j args r reply] x)
        (RequestSendLog demoTm args (nRf (rsNodes x ! j))) else None)"
| "arrive (MLogRep i j args r reply) x =
     (if i < 3 then map_option (\<lambda>(rf, effs). putNode i (withRf rf effs (rsNodes x ! i)) [] x)
        (sendLog_recv demoTm j args r reply (nRf (rsNodes x ! i))) else None)"
| "arrive (MSnapReq i j args ni mi) x =
     (if j < 3 then map_option (\<lambda>(rf, reply, effs). putNode j (withRf rf effs (rsNodes x ! j)) [MSnapRep i j args ni mi reply] x)
        (RequestInstallSnapShot demoTm args (nRf (rsNodes x ! j))) else None)"
| "arrive _ x = None"

definition logMsgList :: "nat \<Rightarrow> Op dispatch list \<Rightarrow> (Op, kvgob) msg list" where
  "logMsgList i ds = concat (map (\<lambda>d. case d of DoSendLog j a r \<Rightarrow> [MLogReq i j a r] | DoSnapShot _ \<Rightarrow> []) ds)"

definition snapPeerList :: "Op dispatch list \<Rightarrow> nat list" where
  "snapPeerList ds = concat (map (\<lambda>d. case d of DoSnapShot j \<Rightarrow> [j] | DoSendLog _ _ _ \<Rightarrow> []) ds)"

definition others :: "nat \<Rightarrow> nat list" where
  "others i = filter (\<lambda>j. j \<noteq> i) [0..<3]"

fun runAct :: "act \<Rightarrow> runState \<Rightarrow> runState option" where
  "runAct (ElectStart i) x =
     (if i < 3 then (case ticker_start 1000000000 demoTm (nRf (rsNodes x ! i)) of
          Some (rf, Some el) \<Rightarrow> Some (putNode i ((withRf rf [] (rsNodes x ! i))\<lparr>nRounds := nRounds (rsNodes x ! i) @
              [\<lparr>roEl = el, roWaiting = set (others i), roDone = False\<rparr>]\<rparr>)
            (map (\<lambda>j. MVoteReq i j (elArgs el)) (others i)) x)
        | _ \<Rightarrow> None) else None)"
| "runAct (OnMessage k) x = (if k < length (rsNet x) then arrive (rsNet x ! k) x else None)"
| "runAct (VoteRep m k) x =
     (if m < length (rsNet x) then (case rsNet x ! m of
          MVoteRep i j args reply \<Rightarrow>
            (if i < 3 \<and> k < length (nRounds (rsNodes x ! i)) \<and> elArgs (roEl (nRounds (rsNodes x ! i) ! k)) = args \<and>
                j \<in> roWaiting (nRounds (rsNodes x ! i) ! k)
             then (let ro = nRounds (rsNodes x ! i) ! k; (rf, el) = ticker_reply demoTm (Some reply) (roEl ro) (nRf (rsNodes x ! i)) in
               Some (putNode i ((withRf rf [] (rsNodes x ! i))\<lparr>nRounds :=
                 (nRounds (rsNodes x ! i))[k := ro\<lparr>roEl := el, roWaiting := roWaiting ro - {j}\<rparr>]\<rparr>) [] x))
             else None)
        | _ \<Rightarrow> None) else None)"
| "runAct (ElectFinish i k) x =
     (if i < 3 \<and> k < length (nRounds (rsNodes x ! i)) \<and> \<not> roDone (nRounds (rsNodes x ! i) ! k) \<and>
         \<not> ticker_waits 3 (roEl (nRounds (rsNodes x ! i) ! k))
      then (let ro = nRounds (rsNodes x ! i) ! k in
        map_option (\<lambda>rf. putNode i ((withRf rf [] (rsNodes x ! i))\<lparr>nRounds :=
          (nRounds (rsNodes x ! i))[k := ro\<lparr>roDone := True\<rparr>]\<rparr>) [] x) (ticker_finish (roEl ro) (nRf (rsNodes x ! i))))
      else None)"
| "runAct (Client i) x =
     (if i < 3 then map_option (\<lambda>(rf, res, effs). putNode i (withRf rf effs (rsNodes x ! i)) [] x)
        (Start (Some demoOp) (nRf (rsNodes x ! i))) else None)"
| "runAct (Replicate i) x =
     (if i < 3 then map_option (\<lambda>(rf, ds). putNode i ((withRf rf [] (rsNodes x ! i))\<lparr>nSnapTo :=
          nSnapTo (rsNodes x ! i) \<union> set (snapPeerList ds)\<rparr>) (logMsgList i ds) x)
        (sendLogTicketCore (nRf (rsNodes x ! i))) else None)"
| "runAct (SnapSend i j) x =
     (if i < 3 \<and> j \<in> nSnapTo (rsNodes x ! i) then (case sendSnapShot_send j (nRf (rsNodes x ! i)) of
          Some (Some (args, ni, mi)) \<Rightarrow> Some (x\<lparr>rsNet := rsNet x @ [MSnapReq i j args ni mi]\<rparr>)
        | _ \<Rightarrow> None) else None)"
| "runAct (Compact i k) x =
     (if i < 3 \<and> k < length (delivered (nAp (rsNodes x ! i))) \<and> amCommandValid (delivered (nAp (rsNodes x ! i)) ! k)
      then map_option (\<lambda>rf. putNode i (withRf rf [] (rsNodes x ! i)) [] x)
        (Snapshot (amCommandIndex (delivered (nAp (rsNodes x ! i)) ! k)) [] (nRf (rsNodes x ! i)))
      else None)"
| "runAct (Apply i) x =
     (if i < 3 then (case applier_step (nRf (rsNodes x ! i)) (nAp (rsNodes x ! i)) of
          Runs (rf, ap) \<Rightarrow> Some (x\<lparr>rsNodes := (rsNodes x)[i := (rsNodes x ! i)\<lparr>nRf := rf, nAp := ap\<rparr>],
            rsHist := rsHist x @ delivered ap\<rparr>)
        | _ \<Rightarrow> None) else None)"

fun runActs :: "act list \<Rightarrow> runState \<Rightarrow> runState option" where
  "runActs [] x = Some x"
| "runActs (a # as) x = Option.bind (runAct a x) (runActs as)"

section \<open>Actions are steps\<close>

lemma sysOf_sel [simp]: "i < 3 \<Longrightarrow> nodes (sysOf x) i = rsNodes x ! i" "net (sysOf x) = set (rsNet x)" "history (sysOf x) = set (rsHist x)"
  by (simp_all add: sysOf_def)

lemma sysOf_putNode:
  assumes "length (rsNodes x) = 3" "i < 3"
  shows "sysOf (putNode i nd ms x) = send (set ms) ((sysOf x)\<lparr>nodes := (nodes (sysOf x))(i := nd)\<rparr>)"
  using assms by (auto simp: sysOf_def putNode_def send_def)

lemma send_nil [simp]: "send {} sy = sy"
  by (simp add: send_def)

lemma dispatch_lists: "set (logMsgList i ds) = logMsgs i ds" "set (snapPeerList ds) = snapPeers ds"
  by (force simp: logMsgList_def snapPeerList_def logMsgs_def snapPeers_def split: dispatch.splits)+

lemma others_set: "set (others i) = {..<3} - {i}"
  by (auto simp: others_def)

text \<open>The updates of a step, as one update of a node.\<close>

lemma node_updates:
  "i < 3 \<Longrightarrow> setRf i rf effs (sysOf x) = (sysOf x)\<lparr>nodes := (nodes (sysOf x))(i := withRf rf effs (rsNodes x ! i))\<rparr>"
  "setRound i k ro (sy\<lparr>nodes := (nodes sy)(i := nd)\<rparr>) = sy\<lparr>nodes := (nodes sy)(i := nd\<lparr>nRounds := (nRounds nd)[k := ro]\<rparr>)\<rparr>"
  "addRound i el w (sy\<lparr>nodes := (nodes sy)(i := nd)\<rparr>) = sy\<lparr>nodes := (nodes sy)(i := nd\<lparr>nRounds := nRounds nd @
     [\<lparr>roEl = el, roWaiting = w, roDone = False\<rparr>]\<rparr>)\<rparr>"
  "addSnapTo i ps (sy\<lparr>nodes := (nodes sy)(i := nd)\<rparr>) = sy\<lparr>nodes := (nodes sy)(i := nd\<lparr>nSnapTo := nSnapTo nd \<union> ps\<rparr>)\<rparr>"
  by (simp_all add: setRf_def setRound_def addRound_def addSnapTo_def withRf_def)

lemma withRf_sel [simp]: "nRounds (withRf rf effs nd) = nRounds nd" "nSnapTo (withRf rf effs nd) = nSnapTo nd"
  by (simp_all add: withRf_def)

lemma step_eq: "step n sy s1 \<Longrightarrow> s1 = s2 \<Longrightarrow> step n sy s2"
  by simp

lemma arrive_step:
  assumes len: "length (rsNodes x) = 3" and a: "arrive m x = Some x'" and m: "m \<in> set (rsNet x)"
  shows "step 3 (sysOf x) (sysOf x')"
proof (cases m)
  case (MVoteReq i j args)
  then obtain rf reply where r: "j < 3" "RequestVote demoTm args (nRf (rsNodes x ! j)) = Some (rf, reply)"
      "x' = putNode j (withRf rf [] (rsNodes x ! j)) [MVoteRep i j args reply] x"
    using a by (auto split: if_splits)
  show ?thesis
    by (rule step_eq[OF step.vote_req[where tm = demoTm and i = i and j = j and args = args and rf = rf and reply = reply]])
      (use r m MVoteReq in \<open>simp_all add: sysOf_putNode[OF len] node_updates\<close>)
next
  case (MLogReq i j args q)
  then obtain rf reply effs where r: "j < 3" "RequestSendLog demoTm args (nRf (rsNodes x ! j)) = Some (rf, reply, effs)"
      "x' = putNode j (withRf rf effs (rsNodes x ! j)) [MLogRep i j args q reply] x"
    using a by (auto split: if_splits)
  show ?thesis
    by (rule step_eq[OF step.log_req[where tm = demoTm and i = i and j = j and args = args and r = q and rf = rf and reply = reply and effs = effs]])
      (use r m MLogReq in \<open>simp_all add: sysOf_putNode[OF len] node_updates\<close>)
next
  case (MLogRep i j args q reply)
  then obtain rf effs where r: "i < 3" "sendLog_recv demoTm j args q reply (nRf (rsNodes x ! i)) = Some (rf, effs)"
      "x' = putNode i (withRf rf effs (rsNodes x ! i)) [] x"
    using a by (auto split: if_splits)
  show ?thesis
    by (rule step_eq[OF step.log_rep[where tm = demoTm and i = i and j = j and args = args and r = q and rf = rf and reply = reply and effs = effs]])
      (use r m MLogRep in \<open>simp_all add: sysOf_putNode[OF len] node_updates\<close>)
next
  case (MSnapReq i j args ni mi)
  then obtain rf reply effs where r: "j < 3" "RequestInstallSnapShot demoTm args (nRf (rsNodes x ! j)) = Some (rf, reply, effs)"
      "x' = putNode j (withRf rf effs (rsNodes x ! j)) [MSnapRep i j args ni mi reply] x"
    using a by (auto split: if_splits)
  show ?thesis
    by (rule step_eq[OF step.snap_req[where tm = demoTm and i = i and j = j and args = args and ni = ni and mi = mi and rf = rf and reply = reply
          and effs = effs]])
      (use r m MSnapReq in \<open>simp_all add: sysOf_putNode[OF len] node_updates\<close>)
qed (use a in simp_all)

lemma runAct_elections:
  assumes len: "length (rsNodes x) = 3" and a: "runAct c x = Some x'"
  shows "c = ElectStart i \<Longrightarrow> step 3 (sysOf x) (sysOf x')" "c = VoteRep v k \<Longrightarrow> step 3 (sysOf x) (sysOf x')"
    "c = ElectFinish i k \<Longrightarrow> step 3 (sysOf x) (sysOf x')"
proof -
  assume "c = ElectStart i"
  then obtain rf el where r: "i < 3" "ticker_start 1000000000 demoTm (nRf (rsNodes x ! i)) = Some (rf, Some el)"
      "x' = putNode i ((withRf rf [] (rsNodes x ! i))\<lparr>nRounds := nRounds (rsNodes x ! i) @
         [\<lparr>roEl = el, roWaiting = set (others i), roDone = False\<rparr>]\<rparr>) (map (\<lambda>j. MVoteReq i j (elArgs el)) (others i)) x"
    using a by (auto split: if_splits option.splits)
  have "{MVoteReq i j (elArgs el) | j. j < 3 \<and> j \<noteq> i} = set (map (\<lambda>j. MVoteReq i j (elArgs el) :: (Op, kvgob) msg) (others i))"
    by (auto simp: others_set)
  then show "step 3 (sysOf x) (sysOf x')"
    by (intro step_eq[OF step.elect_start[where i = i and now = 1000000000 and tm = demoTm and rf = rf and el = el]])
      (use r in \<open>simp_all add: sysOf_putNode[OF len] node_updates others_set\<close>)
next
  assume "c = VoteRep v k"
  then obtain i j args reply rf el where r: "v < length (rsNet x)" "rsNet x ! v = MVoteRep i j args reply" "i < 3" "k < length (nRounds (rsNodes x ! i))"
      "elArgs (roEl (nRounds (rsNodes x ! i) ! k)) = args" "j \<in> roWaiting (nRounds (rsNodes x ! i) ! k)"
      "ticker_reply demoTm (Some reply) (roEl (nRounds (rsNodes x ! i) ! k)) (nRf (rsNodes x ! i)) = (rf, el)"
      "x' = putNode i ((withRf rf [] (rsNodes x ! i))\<lparr>nRounds := (nRounds (rsNodes x ! i))[k :=
         (nRounds (rsNodes x ! i) ! k)\<lparr>roEl := el, roWaiting := roWaiting (nRounds (rsNodes x ! i) ! k) - {j}\<rparr>]\<rparr>) [] x"
    using a by (auto simp: Let_def split: if_splits msg.splits prod.splits)
  show "step 3 (sysOf x) (sysOf x')"
    by (rule step_eq[OF step.vote_rep[where i = i and j = j and args = args and reply = reply and k = k and tm = demoTm and rf = rf and el = el
          and ro = "nRounds (rsNodes x ! i) ! k"]])
      (use r nth_mem[OF r(1)] in \<open>simp_all add: sysOf_putNode[OF len] node_updates\<close>)
next
  assume "c = ElectFinish i k"
  then obtain rf where r: "i < 3" "k < length (nRounds (rsNodes x ! i))" "\<not> roDone (nRounds (rsNodes x ! i) ! k)"
      "\<not> ticker_waits 3 (roEl (nRounds (rsNodes x ! i) ! k))" "ticker_finish (roEl (nRounds (rsNodes x ! i) ! k)) (nRf (rsNodes x ! i)) = Some rf"
      "x' = putNode i ((withRf rf [] (rsNodes x ! i))\<lparr>nRounds := (nRounds (rsNodes x ! i))[k := (nRounds (rsNodes x ! i) ! k)\<lparr>roDone := True\<rparr>]\<rparr>) [] x"
    using a by (auto simp: Let_def split: if_splits)
  show "step 3 (sysOf x) (sysOf x')"
    by (rule step_eq[OF step.elect_finish[where i = i and k = k and rf = rf and ro = "nRounds (rsNodes x ! i) ! k"]])
      (use r in \<open>simp_all add: sysOf_putNode[OF len] node_updates\<close>)
qed

lemma runAct_leader:
  assumes len: "length (rsNodes x) = 3" and a: "runAct c x = Some x'"
  shows "c = Client i \<Longrightarrow> step 3 (sysOf x) (sysOf x')" "c = Replicate i \<Longrightarrow> step 3 (sysOf x) (sysOf x')"
    "c = SnapSend i j \<Longrightarrow> step 3 (sysOf x) (sysOf x')" "c = Compact i k \<Longrightarrow> step 3 (sysOf x) (sysOf x')"
    "c = Apply i \<Longrightarrow> step 3 (sysOf x) (sysOf x')"
proof -
  assume "c = Client i"
  then obtain rf res effs where r: "i < 3" "Start (Some demoOp) (nRf (rsNodes x ! i)) = Some (rf, res, effs)"
      "x' = putNode i (withRf rf effs (rsNodes x ! i)) [] x"
    using a by (auto split: if_splits)
  show "step 3 (sysOf x) (sysOf x')"
    by (rule step_eq[OF step.client[where i = i and cmd = "Some demoOp" and rf = rf and res = res and effs = effs]])
      (use r in \<open>simp_all add: sysOf_putNode[OF len] node_updates\<close>)
next
  assume "c = Replicate i"
  then obtain rf ds where r: "i < 3" "sendLogTicketCore (nRf (rsNodes x ! i)) = Some (rf, ds)"
      "x' = putNode i ((withRf rf [] (rsNodes x ! i))\<lparr>nSnapTo := nSnapTo (rsNodes x ! i) \<union> set (snapPeerList ds)\<rparr>) (logMsgList i ds) x"
    using a by (auto split: if_splits)
  show "step 3 (sysOf x) (sysOf x')"
    by (rule step_eq[OF step.replicate[where i = i and rf = rf and ds = ds]])
      (use r in \<open>simp_all add: sysOf_putNode[OF len] node_updates dispatch_lists\<close>)
next
  assume "c = SnapSend i j"
  then obtain args ni mi where r: "i < 3" "j \<in> nSnapTo (rsNodes x ! i)" "sendSnapShot_send j (nRf (rsNodes x ! i)) = Some (Some (args, ni, mi))"
      "x' = x\<lparr>rsNet := rsNet x @ [MSnapReq i j args ni mi]\<rparr>"
    using a by (auto split: if_splits option.splits)
  show "step 3 (sysOf x) (sysOf x')"
    by (rule step_eq[OF step.snap_send[where i = i and j = j and args = args and ni = ni and mi = mi]])
      (use r in \<open>auto simp: sysOf_def send_def fun_eq_iff\<close>)
next
  assume "c = Compact i k"
  then obtain rf where r: "i < 3" "delivered (nAp (rsNodes x ! i)) ! k \<in> set (delivered (nAp (rsNodes x ! i)))"
      "amCommandValid (delivered (nAp (rsNodes x ! i)) ! k)"
      "Snapshot (amCommandIndex (delivered (nAp (rsNodes x ! i)) ! k)) [] (nRf (rsNodes x ! i)) = Some rf"
      "x' = putNode i (withRf rf [] (rsNodes x ! i)) [] x"
    using a by (auto split: if_splits)
  show "step 3 (sysOf x) (sysOf x')"
    by (rule step_eq[OF step.compact[where i = i and m = "delivered (nAp (rsNodes x ! i)) ! k" and snap = "[]" and rf = rf]])
      (use r in \<open>simp_all add: sysOf_putNode[OF len] node_updates\<close>)
next
  assume "c = Apply i"
  then obtain rf ap where r: "i < 3" "applier_step (nRf (rsNodes x ! i)) (nAp (rsNodes x ! i)) = Runs (rf, ap)"
      "x' = x\<lparr>rsNodes := (rsNodes x)[i := (rsNodes x ! i)\<lparr>nRf := rf, nAp := ap\<rparr>], rsHist := rsHist x @ delivered ap\<rparr>"
    using a by (auto split: if_splits outcome.splits)
  show "step 3 (sysOf x) (sysOf x')"
    by (rule step_eq[OF step.applier[where i = i and rf = rf and ap = ap]])
      (use r len in \<open>auto simp: sysOf_def setAp_def\<close>)
qed

lemma runAct_step:
  assumes "length (rsNodes x) = 3" "runAct c x = Some x'"
  shows "step 3 (sysOf x) (sysOf x')"
proof (cases c)
  case (OnMessage k)
  then have "k < length (rsNet x)" "arrive (rsNet x ! k) x = Some x'" using assms(2) by (simp_all split: if_splits)
  then show ?thesis using arrive_step[OF assms(1)] by simp
qed (use runAct_elections[OF assms] runAct_leader[OF assms] in blast)+

lemma runAct_length:
  assumes "length (rsNodes x) = 3" "runAct c x = Some x'"
  shows "length (rsNodes x') = 3"
proof (cases c)
  case (OnMessage k)
  then show ?thesis using assms by (cases "rsNet x ! k") (auto simp: putNode_def split: if_splits)
qed (use assms in \<open>auto simp: putNode_def Let_def split: if_splits option.splits outcome.splits msg.splits prod.splits\<close>)

lemma runActs_reachable:
  "runActs cs x = Some x' \<Longrightarrow> length (rsNodes x) = 3 \<Longrightarrow> reachable 3 (sysOf x) \<Longrightarrow> reachable 3 (sysOf x')"
proof (induction cs arbitrary: x)
  case (Cons c cs)
  then obtain x1 where "runAct c x = Some x1" "runActs cs x1 = Some x'" by (auto split: bind_splits)
  then show ?case using Cons.IH[of x1] Cons.prems runAct_step runAct_length reachable.reach_step by blast
qed simp

section \<open>The run\<close>

definition blank :: "nat \<Rightarrow> (Op, kvgob) Raft" where
  "blank i = \<lparr>npeers = 3, persister = \<lparr>psRaftstate = [], psSnapshot = []\<rparr>, me = i, dead = 0,
     state = Follower, startElectionTime = 0, electionInterval = 0, currentTerm = 0, voteFor = -1,
     rlog = [dummyLog], snapshot = [], commitIndex = 0, lastApplied = 0, nextIndex = [1, 1, 1],
     matchIndex = [0, 0, 0]\<rparr>"

text \<open>Peer 0 is elected in term 1 with the vote of peer 2, takes two commands, replicates them to peer 2, commits and delivers them and makes a
  snapshot of them.  Peer 1 gets the snapshot and, before the goroutine that delivers it has run, is elected in term 2 with the vote of peer 2,
  takes a command and replicates it to peer 2.\<close>

definition panicActs :: "act list" where
  "panicActs = [ElectStart 0, OnMessage 1, VoteRep 2 0, ElectFinish 0 0, Client 0, Client 0, Replicate 0, OnMessage 4, OnMessage 5,
     Apply 0, Apply 0, Apply 0, Apply 0, Apply 0, Apply 0, Compact 0 1, Replicate 0, SnapSend 0 1, OnMessage 7,
     ElectStart 1, OnMessage 10, VoteRep 11 0, ElectFinish 1 0, Client 1, Replicate 1, OnMessage 13]"

definition panicEnd :: "runState option" where
  "panicEnd = runActs panicActs (runInit (blank 0) (blank 1) (blank 2))"

lemma panic_start: "reachable 3 (sysOf (runInit (blank 0) (blank 1) (blank 2)))"
proof -
  have m: "Make 0 3 i MakePersister = Some (blank i)" if "i < 3" for i
  proof -
    have "i = 0 \<or> i = 1 \<or> i = 2" using that by auto
    then show ?thesis
      by (auto simp: Make_def readPersist_def ReadRaftState_def MakePersister_def ReadSnapshot_def resetRaftIndex_def GetLastLog_def dummyLog_def
          blank_def go_defs eval_nat_numeral)
  qed
  have "nodes (sysOf (runInit (blank 0) (blank 1) (blank 2))) i = freshNode (blank i)" if "i < 3" for i
  proof -
    have "i = 0 \<or> i = 1 \<or> i = 2" using that by auto
    then show ?thesis by (auto simp: runInit_def)
  qed
  then have "initial 3 (sysOf (runInit (blank 0) (blank 1) (blank 2)))"
    using m unfolding initial_def by (auto simp: runInit_def)
  then show ?thesis by (rule reachable.reach_init)
qed

lemma panic_state:
  "map_option (\<lambda>x. (state (nRf (rsNodes x ! 1)), commitIndex (nRf (rsNodes x ! 1)), map_option leIndex (GetFirstLog (nRf (rsNodes x ! 1))),
      snaps (nAp (rsNodes x ! 1)))) panicEnd = Some (Leader, 0, Some 2, [SWant 2 1])"
  "map_option (\<lambda>x. case rsNet x ! 14 of MLogRep i j args r reply \<Rightarrow> 14 < length (rsNet x) \<and> i = 1 \<and> slrTerm reply \<le> currentTerm (nRf (rsNodes x ! 1)) \<and>
      sendLog_recv demoTm j args r reply (nRf (rsNodes x ! 1)) = None | _ \<Rightarrow> False) panicEnd = Some True"
  by code_simp+

end
