(* ===== verification/Raft_Faults.thy ===== *)
theory Raft_Faults
  imports Raft_Props Raft_Runs
begin

text \<open>
  Panics and deadlocks of the Raft code: the request handlers never index out of range on a
  message that the cluster can send; the commit loop of a leader can, when a snapshot it has
  installed has not been handed to its service yet; and the delivery loop can leave
  \<open>applySeqMu\<close> locked for ever.
\<close>

section \<open>Request handlers do not panic\<close>

lemma followCommit_total: "rlog rf \<noteq> [] \<Longrightarrow> followCommit lc rf \<noteq> None"
  by (auto simp: followCommit_def GetLastLog_def split: bind_splits)

lemma appendEntries_total:
  assumes r: "rfC n a j f rf" and p: "f \<le> p" "p < m" "p < length (alog a j)"
    and args: "slPrevLogIndex args = int p" "slEntries args = map (ent L) [Suc p..<m]"
  shows "\<exists>rf'. appendEntries args rf = Some rf' \<and> rlog rf' \<noteq> []"
proof (cases "m = Suc p")
  case True
  then show ?thesis using args(2) rfCD(8)[OF r] by (simp add: appendEntries_def)
next
  case False
  then have m: "Suc p < m" using p(2) by simp
  obtain lst where lst: "GetLastLog rf = Some lst" "leIndex lst = int (length (alog a j)) - 1"
    using rfR_last[OF r] by metis
  have k: "slice_to (rlog rf) (int p - int f + 1) = Some (take (nat (int p - int f + 1)) (rlog rf))"
    using rfCD(7,8)[OF r] p by (simp add: slice_to_def)
  have e: "idx (rlog rf) (int m - 1 - int f) = Some (conc f (alog a j) ! (m - 1 - f))"
    if "m \<le> length (alog a j)"
    using rlog_at(1)[OF r, of "m - 1"] that p(1,2) by simp
  have lastE: "idx (slEntries args) (int (length (slEntries args)) - 1) = Some (ent L (m - 1))"
    using idx_last_map[OF m] args(2) by simp
  have "0 < length (slEntries args)" using args(2) m by simp
  then show ?thesis
    using lst rfR_first[OF r] k e lastE args(1) p(2) rfCD(8)[OF r] conc_not_Nil
    by (cases "m \<le> length (alog a j)") (auto simp: appendEntries_def)
qed

lemma trimArgs_total:
  assumes "leIndex firstLog = int f" "p < m" "slPrevLogIndex args = int p" "slEntries args = map (ent L) [Suc p..<m]"
  shows "trimArgs firstLog args \<noteq> None"
  using assms idx_last_map[of "Suc p" m L] by (cases "Suc p < m") (auto simp: trimArgs_def)

lemma sendLogBody_total:
  assumes r: "rfC n a j f rf" and p: "p < m" "slPrevLogIndex args = int p" "slEntries args = map (ent L) [Suc p..<m]"
  shows "sendLogBody args rf \<noteq> None"
proof (cases "p < length (alog a j)")
  case False
  obtain lst where "GetLastLog rf = Some lst" "leIndex lst = int (length (alog a j)) - 1"
    using rfR_last[OF r] by metis
  then show ?thesis using p(2) False by (simp add: sendLogBody_def)
next
  case True
  note fst = rfR_first[OF r]
  obtain lst where lst: "GetLastLog rf = Some lst" "leIndex lst = int (length (alog a j)) - 1"
    using rfR_last[OF r] by metis
  let ?fl = "\<lparr>leTerm = fst (alog a j ! f), leIndex = int f, leData = None\<rparr>"
  let ?rf1 = "if state rf = Candidate then rf\<lparr>state := Follower\<rparr> else rf"
  have r1: "rfC n a j f ?rf1" using r rfC_Follower[OF r] by simp
  obtain res where res: "trimArgs ?fl args = Some res" using trimArgs_total[of ?fl f p m args L] p by auto
  show ?thesis
  proof (cases rule: trimArgs_cases[OF res _ p, of f, simplified, consumes 0, case_names covered heartbeat part])
    case covered
    then show ?thesis using lst fst True p(2) res by (simp add: sendLogBody_def)
  next
    case heartbeat
    then have "appendEntries args ?rf1 = Some ?rf1" using p(3) by (simp add: appendEntries_def)
    moreover have "followCommit (slLeaderCommit args) (persist ?rf1) \<noteq> None"
      by (rule followCommit_total) (simp add: rfCD(8)[OF r])
    ultimately show ?thesis using lst fst True p(2) res heartbeat by (auto simp: sendLogBody_def Let_def)
  next
    case (part args' p0)
    have p0: "p0 < length (alog a j)" using part(7) True rfCD(7)[OF r] by auto
    obtain rf2 where rf2: "appendEntries args' ?rf1 = Some rf2" "rlog rf2 \<noteq> []"
      using appendEntries_total[OF r1 part(2,3) p0 part(4,5)] by blast
    have "followCommit (slLeaderCommit args') (persist rf2) \<noteq> None"
      by (rule followCommit_total) (simp add: rf2(2))
    then show ?thesis
      using lst fst True p(2) res part(1,2,4) rlog_at(1)[OF r part(2) p0] rf2(1)
      by (auto simp: sendLogBody_def Let_def)
  qed
qed

lemma installSnapShot_total:
  assumes r: "rfC n a j f rf" and g: "rsLastIncludedIndex args = int g"
  shows "installSnapShot tm args rf \<noteq> None"
proof -
  obtain lst where lst: "GetLastLog rf = Some lst" "leIndex lst = int (length (alog a j)) - 1"
    using rfR_last[OF r] by metis
  show ?thesis
    using rlog_at(1)[OF r, of g] lst rfR_first[OF r] g by (cases "f < g \<and> g < length (alog a j)") (auto simp: installSnapShot_def)
qed

text \<open>The handler of a message in flight runs into an index out of range.\<close>

fun handlerPanics :: "timer \<Rightarrow> ('c, 's) msg \<Rightarrow> ('c, 's) sys \<Rightarrow> bool" where
  "handlerPanics tm (MVoteReq i j args) sy = (RequestVote tm args (peer sy j) = None)"
| "handlerPanics tm (MLogReq i j args r) sy = (RequestSendLog tm args (peer sy j) = None)"
| "handlerPanics tm (MSnapReq i j args ni mi) sy = (RequestInstallSnapShot tm args (peer sy j) = None)"
| "handlerPanics tm _ sy = False"

lemma raise_rfC:
  assumes "aInv (majority n) a" "rfR n a j f rf"
  obtains a' where "rfC n a' j f (if t > currentTerm rf then AddCurrentTerm tm t rf else rf)"
    "alog a' j = alog a j"
proof -
  have "(if t > currentTerm rf then AddCurrentTerm tm t rf else rf) = AddCurrentTerm tm t rf"
    by (simp add: AddCurrentTerm_def)
  then show ?thesis
    using that[of "raised j t a"] simStepD(3)[OF AddCurrentTerm_sim[OF assms, of t tm]]
    by (simp add: rfR_def raised_def aTerm_def)
qed

text \<open>C9.  No request handler panics: whatever request any peer has ever sent, at whatever time it
  arrives, its handler returns on the state the receiver is in.\<close>

theorem request_handlers_never_panic:
  assumes "reachable n sy" "m \<in> net sy"
  shows "\<not> handlerPanics tm m sy"
proof -
  obtain a where a: "aInv (majority n) a" "sysR n sy a" using reachE[OF assms(1)] .
  note mr = sysR_msg[OF a(2) assms(2)]
  show ?thesis
  proof (cases m)
    case (MVoteReq i j args)
    then obtain f where f: "rfC n a j f (peer sy j)" using mr reach_peer[OF a(2), of j] by auto
    then have "rlog (peer sy j) \<noteq> []" by (simp add: rfCD(8))
    then have "RequestVote tm args (peer sy j) \<noteq> None"
      by (auto simp: RequestVote_def Let_def AddCurrentTerm_def GetLastLog_def split: bind_splits)
    then show ?thesis using MVoteReq by simp
  next
    case (MLogReq i j args r)
    then have j: "j < n" using mr by simp
    obtain f where f: "rfR n a j f (peer sy j)" using sysRD2[OF a(2) j] .
    obtain L p q where p: "p < q" "slPrevLogIndex args = int p" "slEntries args = map (ent L) [Suc p..<q]"
      using mr MLogReq by auto
    obtain a' where "rfC n a' j f (if slTerm args > currentTerm (peer sy j)
        then AddCurrentTerm (tm 0) (slTerm args) (peer sy j) else peer sy j)"
      using raise_rfC[OF a(1) f] .
    from sendLogBody_total[OF this p] show ?thesis
      using MLogReq by (auto simp: RequestSendLog_def Let_def split: prod.splits)
  next
    case (MSnapReq i j args ni mi)
    then have j: "j < n" using mr by simp
    obtain f where f: "rfR n a j f (peer sy j)" using sysRD2[OF a(2) j] .
    obtain g where g: "rsLastIncludedIndex args = int g" using mr MSnapReq by auto
    define rf1 where "rf1 = (if rsTerm args > currentTerm (peer sy j)
      then AddCurrentTerm (tm 0) (rsTerm args) (peer sy j) else peer sy j)"
    define rf2 where "rf2 = (if state rf1 = Candidate then rf1\<lparr>state := Follower\<rparr> else rf1)"
    obtain a' where r1: "rfC n a' j f rf1" unfolding rf1_def using raise_rfC[OF a(1) f] .
    have "rfC n a' j f rf2" using r1 rfC_Follower[OF r1] by (simp add: rf2_def)
    then obtain x where "installSnapShot (tm 1) args rf2 = Some x" using installSnapShot_total[OF _ g] by blast
    then have "RequestInstallSnapShot tm args (peer sy j) \<noteq> None"
      unfolding RequestInstallSnapShot_def Let_def rf1_def[symmetric] rf2_def[symmetric] by (cases x) simp
    then show ?thesis using MSnapReq by simp
  qed simp_all
qed

theorem request_handlers_never_panic_witness:
  "MLogReq 0 1 demoBeat 2 \<in> net demo_learned \<and> RequestSendLog demoTm demoBeat (peer demo_learned 1) \<noteq> None"
  using request_handlers_never_panic[OF demo_learned_reachable, of "MLogReq 0 1 demoBeat 2" demoTm]
  by (simp add: demo_learned_def)

section \<open>A lock that is never released\<close>

text \<open>What can happen to a peer's delivery goroutines: one of them runs, or some handler changes
  the peer and leaves effects.\<close>

inductive apRun :: "('c, 's) Raft \<Rightarrow> ('c, 's) ApplyState \<Rightarrow> ('c, 's) ApplyState \<Rightarrow> bool" where
  run_here: "apRun rf ap ap"
| run_applier: "apRun rf ap ap' \<Longrightarrow> applier_step rf' ap' = Runs (rf'', ap'') \<Longrightarrow> apRun rf ap ap''"
| run_snap: "apRun rf ap ap' \<Longrightarrow> snap_step k rf' ap' = Runs (rf'', ap'') \<Longrightarrow> apRun rf ap ap''"
| run_effects: "apRun rf ap ap' \<Longrightarrow> apRun rf ap (doEffects effs ap')"

text \<open>The delivery loop is outside its critical section and yet holds the lock; no snapshot
  goroutine is inside either.\<close>

fun outside :: "'c applierPc \<Rightarrow> bool" where
  "outside ATop = True" | "outside AWait = True" | "outside ACheck = True"
| "outside (AGot es) = True" | "outside AExit = True" | "outside _ = False"

definition lockLost :: "('c, 's) ApplyState \<Rightarrow> bool" where
  "lockLost ap \<longleftrightarrow> seqMu ap = Some HApplier \<and> outside (pc ap) \<and>
     (\<forall>sp \<in> set (snaps ap). case sp of SWant i t \<Rightarrow> True | SExit \<Rightarrow> True | _ \<Rightarrow> False)"

lemma lockLost_effect: "lockLost ap \<Longrightarrow> lockLost (doEffect e ap) \<and> delivered (doEffect e ap) = delivered ap"
  by (cases e) (auto simp: lockLost_def signalApply_def)

lemma lockLost_effects:
  "lockLost ap \<Longrightarrow> lockLost (doEffects effs ap) \<and> delivered (doEffects effs ap) = delivered ap"
  unfolding doEffects_def
proof (induction effs arbitrary: ap)
  case (Cons e effs)
  then show ?case using lockLost_effect[OF Cons(2), of e] by auto
qed simp

lemma lockLost_collect:
  "lockLost ap \<Longrightarrow> applier_collect rf ap = Runs ap' \<Longrightarrow> lockLost ap' \<and> delivered ap' = delivered ap"
  by (auto simp: applier_collect_def lockLost_def split: option.splits if_splits)

lemma lockLost_applier:
  assumes "lockLost ap" "applier_step rf ap = Runs (rf', ap')"
  shows "lockLost ap' \<and> delivered ap' = delivered ap"
proof (cases "pc ap")
  case ATop
  then show ?thesis
    using assms lockLost_collect[OF assms(1), of rf]
    by (cases "applier_collect rf ap") (auto simp: applier_step_def lockLost_def split: if_splits)
next
  case ACheck
  then show ?thesis
    using assms lockLost_collect[OF assms(1), of rf]
    by (cases "applier_collect rf ap") (auto simp: applier_step_def)
qed (use assms in \<open>auto simp: applier_step_def lockLost_def\<close>)

lemma lockLost_snap:
  assumes "lockLost ap"
  shows "snap_step k rf ap \<noteq> Runs x"
proof (cases "k < length (snaps ap)")
  case True
  then have mem: "snaps ap ! k \<in> set (snaps ap)" by simp
  have "case snaps ap ! k of SWant i t \<Rightarrow> True | SExit \<Rightarrow> True | _ \<Rightarrow> False" "seqMu ap = Some HApplier"
    using assms mem unfolding lockLost_def by blast+
  then show ?thesis
    using True by (auto simp: snap_step_def split: snapPc.splits)
qed (simp add: snap_step_def)

text \<open>C10.  When the delivery loop finds, after it has locked \<open>applySeqMu\<close>, that a snapshot has
  already covered its entries, it goes back to its loop head without unlocking.  From then on no
  goroutine of the peer ever delivers anything to the service again, whatever else happens.\<close>

theorem applier_deadlock:
  assumes "pc ap = ASeqCheck es" "seqMu ap = Some HApplier"
    and "\<forall>sp \<in> set (snaps ap). case sp of SWant i t \<Rightarrow> True | SExit \<Rightarrow> True | _ \<Rightarrow> False"
    and "es \<noteq> []" "leIndex (hd es) \<le> lastApplied rf"
    and "applier_step rf ap = Runs (rf', ap')" "apRun rf' ap' ap''"
  shows "delivered ap'' = delivered ap \<and> seqMu ap'' = Some HApplier"
proof -
  have "ap' = ap\<lparr>pc := ATop\<rparr>"
    using assms(1,4,5,6) by (cases es) (auto simp: applier_step_def applier_seqCheck_def)
  then have start: "lockLost ap'" "delivered ap' = delivered ap" using assms(2,3) by (simp_all add: lockLost_def)
  from assms(7) start(1) have "lockLost ap'' \<and> delivered ap'' = delivered ap'"
    by (induction rule: apRun.induct) (use lockLost_applier lockLost_snap lockLost_effects in \<open>metis\<close>)+
  then show ?thesis using start(2) by (simp add: lockLost_def)
qed

text \<open>A run into it: the loop collects entry 1, a snapshot through index 5 is installed and
  delivered, then the loop takes the lock.\<close>

definition faultRf :: "(Op, kvgob) Raft" where
  "faultRf = demoRf 1 Follower 350 [dummyLog, demoE] 1 0 [1, 1] [0, 0]"

definition faultAp :: "(Op, kvgob) ApplyState" where
  "faultAp = \<lparr>pc = ASeqCheck [demoE], snaps = [SExit], seqMu = Some HApplier,
     delivered = [snapshotMsg [GStore fmempty] 5 1]\<rparr>"

definition faultRf5 :: "(Op, kvgob) Raft" where
  "faultRf5 = faultRf\<lparr>rlog := [\<lparr>leTerm = 1, leIndex = 5, leData = None\<rparr>], snapshot := [GStore fmempty],
     lastApplied := 5, commitIndex := 5\<rparr>"

theorem applier_deadlock_witness:
  "applier_step faultRf initApply = Runs (faultRf, demoAp (AGot [demoE]) None []) \<and>
   applier_step faultRf5 (faultAp\<lparr>pc := AGot [demoE], seqMu := None\<rparr>) = Runs (faultRf5, faultAp) \<and>
   delivered (faultAp\<lparr>pc := ATop\<rparr>) = delivered faultAp \<and> seqMu (faultAp\<lparr>pc := ATop\<rparr>) = Some HApplier"
proof -
  have a: "applier_step faultRf initApply = Runs (faultRf, demoAp (AGot [demoE]) None [])"
    "applier_step faultRf5 (faultAp\<lparr>pc := AGot [demoE], seqMu := None\<rparr>) = Runs (faultRf5, faultAp)"
    by code_simp+
  have s: "applier_step faultRf5 faultAp = Runs (faultRf5, faultAp\<lparr>pc := ATop\<rparr>)" by code_simp
  have "delivered (faultAp\<lparr>pc := ATop\<rparr>) = delivered faultAp \<and> seqMu (faultAp\<lparr>pc := ATop\<rparr>) = Some HApplier"
    by (rule applier_deadlock[where es = "[demoE]", OF _ _ _ _ _ s run_here])
      (simp_all add: faultAp_def demoE_def faultRf5_def)
  then show ?thesis using a by simp
qed

section \<open>A commit loop that panics\<close>

text \<open>A log whose entries have consecutive indices, as far as the loop looks at it.\<close>

lemma commitLoop_total:
  assumes "GetFirstLog rf = Some e" "GetLastLog rf = Some l" "leIndex l = leIndex e + int (length (rlog rf)) - 1" "leIndex e \<le> b"
  shows "commitLoop b rf effs \<noteq> None"
  using assms
proof (induction b rf effs rule: commitLoop.induct)
  case (1 b rf effs)
  show ?case
  proof (cases "b \<le> leIndex l \<and> npeers rf div 2 < matchCount b (matchIndex rf)")
    case True
    then obtain x where x: "idx (rlog rf) (b - leIndex e) = Some x" using 1(3-6) by (auto simp: idx_def)
    have skip: "commitLoop (b + 1) rf effs \<noteq> None"
      if "(if b > commitIndex rf then do { firstLog \<leftarrow> GetFirstLog rf; y \<leftarrow> idx (rlog rf) (b - leIndex firstLog); Some (currentTerm rf = leTerm y) }
           else Some False) = Some False"
      using 1(2)[OF 1(4) _ _ that refl] True 1(3-6) by simp
    have commit: "commitLoop (b + 1) (rf\<lparr>commitIndex := b\<rparr>) (effs @ [SignalApply]) \<noteq> None"
      if "(if b > commitIndex rf then do { firstLog \<leftarrow> GetFirstLog rf; y \<leftarrow> idx (rlog rf) (b - leIndex firstLog); Some (currentTerm rf = leTerm y) }
           else Some False) = Some True"
      using 1(1)[OF 1(4) _ _ that refl] True 1(3-6) by (simp add: GetFirstLog_def GetLastLog_def)
    show ?thesis using True 1(3,4) x skip commit
      by (subst commitLoop.simps) (auto split: option.splits bool.splits)
  next
    case False
    then show ?thesis using 1(4) by (subst commitLoop.simps) auto
  qed
qed

lemma commitLoop_None:
  assumes r: "rfC n a i f rf" and e: "GetFirstLog rf = Some e"
  shows "commitLoop (commitIndex rf + 1) (rf\<lparr>nextIndex := ni, matchIndex := mi\<rparr>) effs = None \<longleftrightarrow>
    commitIndex rf + 1 < leIndex e \<and> npeers rf div 2 < matchCount (commitIndex rf + 1) mi"
proof -
  let ?rf = "rf\<lparr>nextIndex := ni, matchIndex := mi\<rparr>"
  obtain l where l: "GetLastLog rf = Some l" "leIndex l = int (length (alog a i)) - 1" using rfR_last[OF r] by metis
  have f: "leIndex e = int f" using rfR_first[OF r] e by simp
  have len: "int (length (rlog rf)) = int (length (alog a i)) - int f" using rfCD(7,8)[OF r] by simp
  have fl: "f < length (alog a i)" using rfCD(7)[OF r] by simp
  show ?thesis
  proof (cases "commitIndex rf + 1 < leIndex e")
    case True
    then show ?thesis using l e f fl by (subst commitLoop.simps) (auto simp: idx_def GetFirstLog_def GetLastLog_def)
  next
    case False
    then have "commitLoop (commitIndex rf + 1) ?rf effs \<noteq> None"
      using l e f len by (intro commitLoop_total[of ?rf e l]) (simp_all add: GetFirstLog_def GetLastLog_def)
    then show ?thesis using False by simp
  qed
qed

lemma sendLog_recv_timer: "slrTerm reply \<le> currentTerm rf \<Longrightarrow> sendLog_recv tm j args r reply rf = sendLog_recv tm' j args r reply rf"
  by (simp add: sendLog_recv_def)

text \<open>C11.  A leader can panic in the commit loop.  First, when exactly: in every reachable state, with whatever the replies have written into
  \<open>nextIndex\<close> and \<open>matchIndex\<close>, the loop that starts at the index after the commit index panics if and only if that index is below the
  first index of the log and a majority matches it.  Second, this happens: there is a reachable state of a cluster of three peers
  with a leader whose first index is 2 and whose commit index is 0, because the goroutine that delivers the snapshot it has
  installed has not run yet, and with a reply to an append in flight to it whose handling panics.\<close>

theorem commitLoop_panics:
  "(reachable n sy \<longrightarrow> i < n \<longrightarrow> GetFirstLog (peer sy i) = Some e \<longrightarrow>
     (commitLoop (commitIndex (peer sy i) + 1) ((peer sy i)\<lparr>nextIndex := ni, matchIndex := mi\<rparr>) effs = None \<longleftrightarrow>
      commitIndex (peer sy i) + 1 < leIndex e \<and> npeers (peer sy i) div 2 < matchCount (commitIndex (peer sy i) + 1) mi)) \<and>
   (\<exists>sy' :: (Op, kvgob) sys. \<exists>j args r reply. reachable 3 sy' \<and> state (peer sy' 1) = Leader \<and> commitIndex (peer sy' 1) = 0 \<and>
     map_option leIndex (GetFirstLog (peer sy' 1)) = Some 2 \<and> snaps (nAp (nodes sy' 1)) = [SWant 2 1] \<and>
     MLogRep 1 j args r reply \<in> net sy' \<and> (\<forall>tm. sendLog_recv tm j args r reply (peer sy' 1) = None))"
proof -
  have "commitLoop (commitIndex (peer sy i) + 1) ((peer sy i)\<lparr>nextIndex := ni, matchIndex := mi\<rparr>) effs = None \<longleftrightarrow>
      commitIndex (peer sy i) + 1 < leIndex e \<and> npeers (peer sy i) div 2 < matchCount (commitIndex (peer sy i) + 1) mi"
    if r: "reachable n sy" "i < n" "GetFirstLog (peer sy i) = Some e"
  proof -
    obtain a where "sysR n sy a" using reachE[OF r(1)] .
    then obtain f where "rfC n a i f (peer sy i)" using reach_peer r(2) by blast
    then show ?thesis using commitLoop_None r(3) by blast
  qed
  moreover obtain x where x: "panicEnd = Some x" using panic_state(1) by (cases panicEnd) auto
  then have "reachable 3 (sysOf x)"
    using runActs_reachable panic_start unfolding panicEnd_def by (auto simp: runInit_def)
  moreover have "state (peer (sysOf x) 1) = Leader" "commitIndex (peer (sysOf x) 1) = 0" "snaps (nAp (nodes (sysOf x) 1)) = [SWant 2 1]"
      "map_option leIndex (GetFirstLog (peer (sysOf x) 1)) = Some 2"
    using panic_state(1)[unfolded x] by auto
  moreover obtain j args r reply where m: "rsNet x ! 14 = MLogRep 1 j args r reply" "14 < length (rsNet x)"
      "slrTerm reply \<le> currentTerm (peer (sysOf x) 1)" "sendLog_recv demoTm j args r reply (peer (sysOf x) 1) = None"
    using panic_state(2)[unfolded x] by (auto split: msg.splits)
  moreover have "MLogRep 1 j args r reply \<in> net (sysOf x)" using nth_mem[OF m(2)] m(1) by simp
  moreover have "sendLog_recv tm j args r reply (peer (sysOf x) 1) = None" for tm
    using sendLog_recv_timer[OF m(3)] m(4) by metis
  ultimately show ?thesis by blast
qed

theorem commitLoop_panics_witness:
  "commitLoop (commitIndex (peer demo_learned 0) + 1) ((peer demo_learned 0)\<lparr>nextIndex := [1, 2], matchIndex := [1, 1]\<rparr>) [] \<noteq> None"
  using commitLoop_panics[where n = 2 and sy = demo_learned and i = 0 and e = dummyLog and ni = "[1, 2]" and mi = "[1, 1]" and effs = "[]",
    THEN conjunct1] demo_learned_reachable
  by (simp add: demo_learned_sel demoApplied_def demoRf_def GetFirstLog_def idx_def dummyLog_def)

end
