(* ===== verification/Kv_Srv.thy ===== *)
theory Kv_Srv
  imports Go_Prelude
begin

text \<open>
  The single-server key/value service, \<^verbatim>\<open>src/src/kvsrv\<close>: the argument and reply structs of
  \<^verbatim>\<open>common.go\<close>, the handlers of \<^verbatim>\<open>server.go\<close> and the clerk of \<^verbatim>\<open>client.go\<close>.  A handler runs under the
  server's mutex, so it is one function from the server to the server and the reply; the reply struct
  is threaded through the helpers that write to it.  Print statements are left out.

  A clerk operation is the critical section that draws a sequence number, followed by a loop that
  calls the server until a reply has \<open>OpResult\<close> set.  The reply struct is shared by all iterations, and gob
  does not transmit fields that hold their zero value, so decoding merges a reply into it.
\<close>

section \<open>Arguments and replies\<close>

record PutAppendArgs =
  PKey :: string
  PValue :: string
  PClientId :: int
  PAckSeq :: int

record GetArgs =
  GKey :: string
  GClientId :: int
  GAckSeq :: int

text \<open>\<open>PutAppendReply\<close> and \<open>GetReply\<close> have the same fields.\<close>

record Reply =
  Value :: string
  OpResult :: bool

definition zeroReply :: Reply where
  "zeroReply = \<lparr> Value = '''', OpResult = False \<rparr>"

section \<open>Server\<close>

record KVServer =
  store :: "string \<rightharpoonup> string"
  clientAck :: "int \<rightharpoonup> int"

definition StartKVServer :: KVServer where
  "StartKVServer = \<lparr> store = Map.empty, clientAck = Map.empty \<rparr>"

definition CheckWriteOpNecessary :: "KVServer \<Rightarrow> PutAppendArgs \<Rightarrow> Reply \<Rightarrow> bool \<times> Reply" where
  "CheckWriteOpNecessary kv args reply =
    (if PAckSeq args < 0 then (False, reply)
     else case clientAck kv (PClientId args) of
       None \<Rightarrow> if PAckSeq args = 0 then (True, reply) else (False, reply\<lparr>OpResult := False\<rparr>)
     | Some value \<Rightarrow>
         if value + 1 = PAckSeq args then (True, reply)
         else if PAckSeq args \<le> value then (False, reply\<lparr>OpResult := True\<rparr>)
         else (False, reply\<lparr>OpResult := False\<rparr>))"

definition CheckReadOpNecessary :: "KVServer \<Rightarrow> GetArgs \<Rightarrow> Reply \<Rightarrow> bool \<times> Reply" where
  "CheckReadOpNecessary kv args reply =
    (if GAckSeq args < 0 then (False, reply)
     else case clientAck kv (GClientId args) of
       None \<Rightarrow> if GAckSeq args = 0 then (True, reply) else (False, reply)
     | Some value \<Rightarrow>
         if value + 1 = GAckSeq args then (True, reply)
         else if GAckSeq args \<le> value then (True, reply)
         else (False, reply\<lparr>OpResult := False\<rparr>))"

definition MaintainState :: "KVServer \<Rightarrow> PutAppendArgs \<Rightarrow> Reply \<Rightarrow> KVServer \<times> Reply" where
  "MaintainState kv args reply0 =
    (let reply = reply0\<lparr>OpResult := True\<rparr> in
     case clientAck kv (PClientId args) of
       None \<Rightarrow> (kv\<lparr>clientAck := (clientAck kv)(PClientId args \<mapsto> PAckSeq args)\<rparr>, reply)
     | Some ack \<Rightarrow>
         if ack < PAckSeq args
         then (kv\<lparr>clientAck := (clientAck kv)(PClientId args \<mapsto> PAckSeq args)\<rparr>, reply)
         else (kv, reply))"

definition MaintainRState :: "KVServer \<Rightarrow> GetArgs \<Rightarrow> Reply \<Rightarrow> KVServer \<times> Reply" where
  "MaintainRState kv args reply0 =
    (let reply = reply0\<lparr>OpResult := True\<rparr> in
     case clientAck kv (GClientId args) of
       None \<Rightarrow> (kv\<lparr>clientAck := (clientAck kv)(GClientId args \<mapsto> GAckSeq args)\<rparr>, reply)
     | Some ack \<Rightarrow>
         if ack < GAckSeq args
         then (kv\<lparr>clientAck := (clientAck kv)(GClientId args \<mapsto> GAckSeq args)\<rparr>, reply)
         else (kv, reply))"

definition Get :: "KVServer \<Rightarrow> GetArgs \<Rightarrow> Reply \<Rightarrow> KVServer \<times> Reply" where
  "Get kv args reply0 =
    (let (necessary, reply1) = CheckReadOpNecessary kv args reply0 in
     if \<not> necessary then (kv, reply1)
     else let reply2 = (case store kv (GKey args) of
                          Some value \<Rightarrow> reply1\<lparr>Value := value\<rparr>
                        | None \<Rightarrow> reply1\<lparr>Value := ''''\<rparr>)
          in MaintainRState kv args reply2)"

definition Put :: "KVServer \<Rightarrow> PutAppendArgs \<Rightarrow> Reply \<Rightarrow> KVServer \<times> Reply" where
  "Put kv args reply0 =
    (let (necessary, reply1) = CheckWriteOpNecessary kv args reply0 in
     if \<not> necessary then (kv, reply1)
     else let reply2 = (case store kv (PKey args) of
                          Some value \<Rightarrow> reply1\<lparr>Value := value\<rparr>
                        | None \<Rightarrow> reply1\<lparr>Value := ''''\<rparr>);
              kv1 = kv\<lparr>store := (store kv)(PKey args \<mapsto> PValue args)\<rparr>
          in MaintainState kv1 args reply2)"

definition Append :: "KVServer \<Rightarrow> PutAppendArgs \<Rightarrow> Reply \<Rightarrow> KVServer \<times> Reply" where
  "Append kv args reply0 =
    (let (necessary, reply1) = CheckWriteOpNecessary kv args reply0 in
     if \<not> necessary then (kv, reply1)
     else let (kv1, reply2) = (case store kv (PKey args) of
                 Some value \<Rightarrow> (kv\<lparr>store := (store kv)(PKey args \<mapsto> value @ PValue args)\<rparr>, reply1\<lparr>Value := value\<rparr>)
               | None \<Rightarrow> (kv\<lparr>store := (store kv)(PKey args \<mapsto> PValue args)\<rparr>, reply1\<lparr>Value := ''''\<rparr>))
          in MaintainState kv1 args reply2)"

section \<open>Clerk\<close>

record Clerk =
  clientId :: int
  ackSeq :: int

definition MakeClerk :: "int \<Rightarrow> Clerk" where
  "MakeClerk rand = \<lparr> clientId = rand, ackSeq = 0 \<rparr>"

text \<open>A request as it is sent: the method name and its arguments.\<close>

datatype Request = RGet GetArgs | RPut PutAppendArgs | RAppend PutAppendArgs

definition GetBegin :: "Clerk \<Rightarrow> string \<Rightarrow> Clerk \<times> Request" where
  "GetBegin ck key =
    (ck\<lparr>ackSeq := ackSeq ck + 1\<rparr>,
     RGet \<lparr> GKey = key, GClientId = clientId ck, GAckSeq = ackSeq ck \<rparr>)"

text \<open>The argument \<open>op\<close>, "Put" or "Append", selects the method; here it is the request's constructor.\<close>

definition PutAppendBegin :: "Clerk \<Rightarrow> string \<Rightarrow> string \<Rightarrow> (PutAppendArgs \<Rightarrow> Request) \<Rightarrow> Clerk \<times> Request" where
  "PutAppendBegin ck key value op =
    (ck\<lparr>ackSeq := ackSeq ck + 1\<rparr>,
     op \<lparr> PKey = key, PValue = value, PClientId = clientId ck, PAckSeq = ackSeq ck \<rparr>)"

definition ClerkPut :: "Clerk \<Rightarrow> string \<Rightarrow> string \<Rightarrow> Clerk \<times> Request" where
  "ClerkPut ck key value = PutAppendBegin ck key value RPut"

definition ClerkAppend :: "Clerk \<Rightarrow> string \<Rightarrow> string \<Rightarrow> Clerk \<times> Request" where
  "ClerkAppend ck key value = PutAppendBegin ck key value RAppend"

text \<open>Decoding a reply into the clerk's reply struct.\<close>

definition decodeReply :: "Reply \<Rightarrow> Reply \<Rightarrow> Reply" where
  "decodeReply old new =
    \<lparr> Value = (if Value new = '''' then Value old else Value new),
      OpResult = (OpResult new \<or> OpResult old) \<rparr>"

text \<open>The loop over the calls: the outcome of a call is \<open>None\<close> when \<open>Call\<close> returns false and the server's
  reply otherwise.  The loop returns the value once it ends; \<open>None\<close> means that it is still calling after
  the given outcomes.\<close>

fun callLoop :: "Reply \<Rightarrow> Reply option list \<Rightarrow> string option" where
  "callLoop reply [] = None"
| "callLoop reply (None # calls) = callLoop reply calls"
| "callLoop reply (Some new # calls) =
     (let reply1 = decodeReply reply new in
      if OpResult reply1 then Some (Value reply1) else callLoop reply1 calls)"

section \<open>What the handlers do\<close>

fun serve :: "KVServer \<Rightarrow> Request \<Rightarrow> KVServer \<times> Reply" where
  "serve kv (RGet args) = Get kv args zeroReply"
| "serve kv (RPut args) = Put kv args zeroReply"
| "serve kv (RAppend args) = Append kv args zeroReply"

fun reqClient :: "Request \<Rightarrow> int" where
  "reqClient (RGet args) = GClientId args"
| "reqClient (RPut args) = PClientId args"
| "reqClient (RAppend args) = PClientId args"

fun reqSeq :: "Request \<Rightarrow> int" where
  "reqSeq (RGet args) = GAckSeq args"
| "reqSeq (RPut args) = PAckSeq args"
| "reqSeq (RAppend args) = PAckSeq args"

fun reqKey :: "Request \<Rightarrow> string" where
  "reqKey (RGet args) = GKey args"
| "reqKey (RPut args) = PKey args"
| "reqKey (RAppend args) = PKey args"

fun isGet :: "Request \<Rightarrow> bool" where
  "isGet (RGet _) = True"
| "isGet _ = False"

text \<open>The value of a key, with the empty string for an absent one.\<close>

definition valueOf :: "KVServer \<Rightarrow> string \<Rightarrow> string" where
  "valueOf kv key = (case store kv key of Some v \<Rightarrow> v | None \<Rightarrow> '''')"

text \<open>What an operation writes, on the values alone.\<close>

fun written :: "Request \<Rightarrow> string \<Rightarrow> string" where
  "written (RGet _) old = old"
| "written (RPut args) old = PValue args"
| "written (RAppend args) old = old @ PValue args"

lemma written_get [simp]: "isGet r \<Longrightarrow> written r old = old"
  by (cases r) auto

definition nextAck :: "KVServer \<Rightarrow> Request \<Rightarrow> bool" where
  "nextAck kv r \<longleftrightarrow>
     (case clientAck kv (reqClient r) of None \<Rightarrow> reqSeq r = 0 | Some n \<Rightarrow> reqSeq r = n + 1)"

definition oldAck :: "KVServer \<Rightarrow> Request \<Rightarrow> bool" where
  "oldAck kv r \<longleftrightarrow> (case clientAck kv (reqClient r) of None \<Rightarrow> False | Some n \<Rightarrow> reqSeq r \<le> n)"

named_theorems kvsrv_defs "definitions of the server's handlers"

declare Get_def [kvsrv_defs] Put_def [kvsrv_defs] Append_def [kvsrv_defs]
  CheckWriteOpNecessary_def [kvsrv_defs] CheckReadOpNecessary_def [kvsrv_defs]
  MaintainState_def [kvsrv_defs] MaintainRState_def [kvsrv_defs] zeroReply_def [kvsrv_defs]
  valueOf_def [kvsrv_defs] nextAck_def [kvsrv_defs] oldAck_def [kvsrv_defs]

text \<open>The three outcomes of a request with a sequence number that is not negative: it is the client's next one
  and takes effect; it is an old one, a write is skipped and a read is repeated; it is ahead and refused.\<close>

lemma serve_next:
  assumes "nextAck kv r" "0 \<le> reqSeq r"
  shows "valueOf (fst (serve kv r)) = (valueOf kv)(reqKey r := written r (valueOf kv (reqKey r)))"
    and "clientAck (fst (serve kv r)) = (clientAck kv)(reqClient r \<mapsto> reqSeq r)"
    and "snd (serve kv r) = \<lparr> Value = valueOf kv (reqKey r), OpResult = True \<rparr>"
proof -
  show "valueOf (fst (serve kv r)) = (valueOf kv)(reqKey r := written r (valueOf kv (reqKey r)))"
    using assms by (cases r; cases "store kv (reqKey r)"; cases "clientAck kv (reqClient r)"; simp add: kvsrv_defs fun_eq_iff)
  show "clientAck (fst (serve kv r)) = (clientAck kv)(reqClient r \<mapsto> reqSeq r)"
    using assms by (cases r; cases "store kv (reqKey r)"; cases "clientAck kv (reqClient r)"; simp add: kvsrv_defs)
  show "snd (serve kv r) = \<lparr> Value = valueOf kv (reqKey r), OpResult = True \<rparr>"
    using assms by (cases r; cases "store kv (reqKey r)"; cases "clientAck kv (reqClient r)"; simp add: kvsrv_defs)
qed

lemma serve_old:
  assumes "oldAck kv r" "0 \<le> reqSeq r"
  shows "fst (serve kv r) = kv"
    and "snd (serve kv r) = \<lparr> Value = (if isGet r then valueOf kv (reqKey r) else ''''), OpResult = True \<rparr>"
proof -
  show "fst (serve kv r) = kv"
    using assms by (cases r; cases "store kv (reqKey r)"; cases "clientAck kv (reqClient r)"; simp add: kvsrv_defs)
  show "snd (serve kv r) = \<lparr> Value = (if isGet r then valueOf kv (reqKey r) else ''''), OpResult = True \<rparr>"
    using assms by (cases r; cases "store kv (reqKey r)"; cases "clientAck kv (reqClient r)"; simp add: kvsrv_defs)
qed

lemma serve_ahead:
  assumes "\<not> nextAck kv r" "\<not> oldAck kv r"
  shows "serve kv r = (kv, zeroReply)"
  using assms by (cases r) (auto simp: kvsrv_defs Let_def split: option.splits if_splits)

lemma serve_cases:
  obtains "nextAck kv r" | "\<not> nextAck kv r" "oldAck kv r" | "\<not> nextAck kv r" "\<not> oldAck kv r"
  by blast

lemma next_not_old: "nextAck kv r \<Longrightarrow> \<not> oldAck kv r"
  by (auto simp: nextAck_def oldAck_def split: option.splits)

end
