(* ===== verification/Porcupine_Model.thy ===== *)
theory Porcupine_Model
  imports Go_Prelude "HOL-Library.Multiset"
begin

text \<open>
  The vocabulary of the linearizability checker: \<^verbatim>\<open>src/src/porcupine/model.go\<close>.  A value of
  Go's \<open>interface{}\<close> is an element of the type parameter \<open>'v\<close>; a model's functions perform
  type assertions on such values, so they can panic and have an option as their result.  A nil function
  field of \<open>Model\<close> is \<open>None\<close>.

  The second half states what the checker is meant to decide.  \<open>linearizable\<close> is the definition of
  linearizability for complete histories: some sequential order of the operations is legal for the model
  and keeps the real-time order of operations that do not overlap.
\<close>

section \<open>Data\<close>

record 'v Operation =
  OpClientId :: int
  Input :: 'v
  CallTime :: int
  Output :: 'v
  ReturnTime :: int

datatype EventKind = CallEvent | ReturnEvent

record 'v Event =
  EvClientId :: int
  EvKind :: EventKind
  EvValue :: 'v
  EvId :: int

record ('v, 's) Model =
  Partition :: "('v Operation list \<Rightarrow> 'v Operation list list option) option"
  PartitionEvent :: "('v Event list \<Rightarrow> 'v Event list list option) option"
  Init :: 's
  Step :: "'s \<Rightarrow> 'v \<Rightarrow> 'v \<Rightarrow> (bool \<times> 's) option"
  Equal :: "('s \<Rightarrow> 's \<Rightarrow> bool) option"
  DescribeOperation :: "('v \<Rightarrow> 'v \<Rightarrow> string option) option"
  DescribeState :: "('s \<Rightarrow> string option) option"

datatype CheckResult = CheckUnknown | CheckOk | CheckIllegal

definition NoPartition :: "'v Operation list \<Rightarrow> 'v Operation list list option" where
  "NoPartition history = Some [history]"

definition NoPartitionEvent :: "'v Event list \<Rightarrow> 'v Event list list option" where
  "NoPartitionEvent history = Some [history]"

definition ShallowEqual :: "'s \<Rightarrow> 's \<Rightarrow> bool" where
  "ShallowEqual state1 state2 \<longleftrightarrow> state1 = state2"

text \<open>\<open>fmt.Sprintf("%v")\<close> prints by reflection; how it prints a value is a parameter.\<close>

definition DefaultDescribeOperation :: "('v \<Rightarrow> string) \<Rightarrow> 'v \<Rightarrow> 'v \<Rightarrow> string option" where
  "DefaultDescribeOperation sprint inp out = Some (sprint inp @ '' -> '' @ sprint out)"

definition DefaultDescribeState :: "('s \<Rightarrow> string) \<Rightarrow> 's \<Rightarrow> string option" where
  "DefaultDescribeState sprint st = Some (sprint st)"

section \<open>Linearizability\<close>

text \<open>A sequential run of the model over a list of (input, output) pairs: the final state when every
  step is legal.\<close>

fun runFrom :: "('v, 's) Model \<Rightarrow> 's \<Rightarrow> ('v \<times> 'v) list \<Rightarrow> 's option" where
  "runFrom model s [] = Some s"
| "runFrom model s ((i, out) # ios) =
     (case Step model s i out of
        Some (True, s') \<Rightarrow> runFrom model s' ios
      | _ \<Rightarrow> None)"

definition inOut :: "'v Operation \<Rightarrow> 'v \<times> 'v" where
  "inOut oper = (Input oper, Output oper)"

text \<open>No operation stands before one that had returned before it was called.\<close>

definition keepsRealTime :: "'v Operation list \<Rightarrow> bool" where
  "keepsRealTime ops \<longleftrightarrow> sorted_wrt (\<lambda>a b. \<not> ReturnTime b < CallTime a) ops"

definition linearization :: "('v, 's) Model \<Rightarrow> 'v Operation list \<Rightarrow> 'v Operation list \<Rightarrow> bool" where
  "linearization model history order \<longleftrightarrow>
     mset order = mset history \<and> keepsRealTime order \<and>
     runFrom model (Init model) (map inOut order) \<noteq> None"

definition linearizable :: "('v, 's) Model \<Rightarrow> 'v Operation list \<Rightarrow> bool" where
  "linearizable model history \<longleftrightarrow> (\<exists>order. linearization model history order)"

lemma runFrom_append:
  "runFrom model s (xs @ ys) =
     (case runFrom model s xs of None \<Rightarrow> None | Some s' \<Rightarrow> runFrom model s' ys)"
  by (induction xs arbitrary: s) (auto split: option.split bool.split)

end
