(* ===== verification/Models_Kv.thy ===== *)
theory Models_Kv
  imports Porcupine_Model "HOL-Library.Word" "HOL-Library.Char_ord" "HOL-Library.List_Lexorder"
begin

text \<open>
  \<^verbatim>\<open>src/src/models/kv.go\<close>: the sequential specification of one key of the key/value services, and
  the partition of a history by key.  Go orders strings by bytes, as \<open>List_Lexorder\<close> over
  \<open>Char_ord\<close> does.  A failed type assertion is a panic, \<open>None\<close>.
\<close>

record KvInput =
  KvOp :: "8 word"
  KvKey :: string
  KvInValue :: string

record KvOutput =
  KvOutValue :: string

text \<open>The values that occur behind \<open>interface{}\<close>.\<close>

datatype KvVal = KvIn KvInput | KvOut KvOutput

fun asInput :: "KvVal \<Rightarrow> KvInput option" where
  "asInput (KvIn i) = Some i"
| "asInput (KvOut _) = None"

fun asOutput :: "KvVal \<Rightarrow> KvOutput option" where
  "asOutput (KvOut out) = Some out"
| "asOutput (KvIn _) = None"

text \<open>The map from keys to sub-histories; its keys in the order of insertion stand for any order in which
  Go ranges over it, since they are sorted afterwards.\<close>

fun kvGroup :: "KvVal Operation list \<Rightarrow> (string \<rightharpoonup> KvVal Operation list) \<Rightarrow> string list
    \<Rightarrow> ((string \<rightharpoonup> KvVal Operation list) \<times> string list) option" where
  "kvGroup [] m keys = Some (m, keys)"
| "kvGroup (v # vs) m keys = do {
     i \<leftarrow> asInput (Input v);
     let key = KvKey i;
     (case m key of
        Some l \<Rightarrow> kvGroup vs (m(key \<mapsto> l @ [v])) keys
      | None \<Rightarrow> kvGroup vs (m(key \<mapsto> [v])) (keys @ [key])) }"

definition kvPartition :: "KvVal Operation list \<Rightarrow> KvVal Operation list list option" where
  "kvPartition history = do {
     (m, keys) \<leftarrow> kvGroup history Map.empty [];
     Some (map (\<lambda>k. case m k of Some l \<Rightarrow> l | None \<Rightarrow> []) (sort keys)) }"

definition kvInit :: string where
  "kvInit = ''''"

definition kvStep :: "string \<Rightarrow> KvVal \<Rightarrow> KvVal \<Rightarrow> (bool \<times> string) option" where
  "kvStep st i out = do {
     inp \<leftarrow> asInput i;
     outp \<leftarrow> asOutput out;
     Some (if KvOp inp = 0 then (KvOutValue outp = st, st)
           else if KvOp inp = 1 then (True, KvInValue inp)
           else if KvOp inp = 2 then (True, st @ KvInValue inp)
           else (KvOutValue outp = st, st @ KvInValue inp)) }"

definition kvDescribeOperation :: "KvVal \<Rightarrow> KvVal \<Rightarrow> string option" where
  "kvDescribeOperation i out = do {
     inp \<leftarrow> asInput i;
     outp \<leftarrow> asOutput out;
     Some (if KvOp inp = 0 then ''get('' @ [CHR 0x27] @ KvKey inp @ [CHR 0x27] @ '') -> '' @ [CHR 0x27] @ KvOutValue outp @ [CHR 0x27]
           else if KvOp inp = 1 then ''put('' @ [CHR 0x27] @ KvKey inp @ [CHR 0x27] @ '', '' @ [CHR 0x27] @ KvInValue inp @ [CHR 0x27] @ '')''
           else if KvOp inp = 2 then ''append('' @ [CHR 0x27] @ KvKey inp @ [CHR 0x27] @ '', '' @ [CHR 0x27] @ KvInValue inp @ [CHR 0x27] @ '')''
           else ''<invalid>'') }"

definition KvModel :: "(KvVal, string) Model" where
  "KvModel = \<lparr> Partition = Some kvPartition, PartitionEvent = None, Init = kvInit, Step = kvStep,
     Equal = None, DescribeOperation = Some kvDescribeOperation, DescribeState = None \<rparr>"

lemma KvModel_simps [simp]:
  "Init KvModel = ''''" "Step KvModel = kvStep" "Partition KvModel = Some kvPartition" "Equal KvModel = None"
  by (simp_all add: KvModel_def kvInit_def)

section \<open>The partition by key\<close>

definition opKey :: "KvVal Operation \<Rightarrow> string" where
  "opKey oper = (case Input oper of KvIn i \<Rightarrow> KvKey i | KvOut _ \<Rightarrow> '''')"

definition wellTyped :: "KvVal Operation \<Rightarrow> bool" where
  "wellTyped oper \<longleftrightarrow> asInput (Input oper) \<noteq> None \<and> asOutput (Output oper) \<noteq> None"

text \<open>What the loop over the history has built: each key's operations in the order of the history.\<close>

definition grouped :: "KvVal Operation list \<Rightarrow> string \<rightharpoonup> KvVal Operation list" where
  "grouped vs = (\<lambda>k. if k \<in> opKey ` set vs then Some (filter (\<lambda>v. opKey v = k) vs) else None)"

lemma grouped_snoc_old:
  "grouped vs k = Some l \<Longrightarrow> opKey v = k \<Longrightarrow> (grouped vs)(k \<mapsto> l @ [v]) = grouped (vs @ [v])"
  by (auto simp: grouped_def fun_eq_iff split: if_splits)

lemma grouped_snoc_new:
  "grouped vs k = None \<Longrightarrow> opKey v = k \<Longrightarrow> (grouped vs)(k \<mapsto> [v]) = grouped (vs @ [v])"
  by (auto simp: grouped_def fun_eq_iff filter_empty_conv split: if_splits) (metis imageI)

lemma kvGroup_inv:
  assumes "distinct keys" "set keys = opKey ` set xs" "\<forall>v\<in>set vs. wellTyped v"
  shows "\<exists>keys'. kvGroup vs (grouped xs) keys = Some (grouped (xs @ vs), keys') \<and> distinct keys' \<and>
    set keys' = opKey ` set (xs @ vs)"
  using assms
proof (induction vs arbitrary: keys xs)
  case Nil
  then show ?case by simp
next
  case (Cons v vs)
  obtain i where i: "Input v = KvIn i"
    using Cons.prems(3) by (cases "Input v") (auto simp: wellTyped_def)
  have k: "opKey v = KvKey i" by (simp add: opKey_def i)
  have vs: "\<forall>v\<in>set vs. wellTyped v" using Cons.prems(3) by simp
  show ?case
  proof (cases "grouped xs (KvKey i)")
    case (Some l)
    then have "KvKey i \<in> opKey ` set xs" by (simp add: grouped_def split: if_splits)
    then have "set keys = opKey ` set (xs @ [v])" using Cons.prems(2) k by auto
    from Cons.IH[OF Cons.prems(1) this vs] show ?thesis
      using Some by (simp add: i grouped_snoc_old[OF Some k])
  next
    case None
    then have new: "KvKey i \<notin> opKey ` set xs" by (simp add: grouped_def split: if_splits)
    have "distinct (keys @ [KvKey i])" "set (keys @ [KvKey i]) = opKey ` set (xs @ [v])"
      using Cons.prems(1,2) k new by auto
    from Cons.IH[OF this vs] show ?thesis
      using None by (simp add: i grouped_snoc_new[OF None k])
  qed
qed

text \<open>The partitions are the sub-histories of the keys that occur, in the order of the keys.\<close>

lemma kvPartition_eq:
  assumes "\<forall>v\<in>set history. wellTyped v"
  shows "kvPartition history =
    Some (map (\<lambda>k. filter (\<lambda>v. opKey v = k) history) (sorted_list_of_set (opKey ` set history)))"
proof -
  have e: "grouped [] = Map.empty" by (simp add: grouped_def)
  obtain keys where g: "kvGroup history Map.empty [] = Some (grouped history, keys)" "distinct keys"
      "set keys = opKey ` set history"
    using kvGroup_inv[of "[]" "[]" history] assms by (auto simp: e)
  have s: "sort keys = sorted_list_of_set (opKey ` set history)"
    using g(2,3) sorted_list_of_set_sort_remdups[of keys] by (simp add: distinct_remdups_id)
  have "map (\<lambda>k. case grouped history k of Some l \<Rightarrow> l | None \<Rightarrow> []) (sort keys) =
      map (\<lambda>k. filter (\<lambda>v. opKey v = k) history) (sort keys)"
    by (rule map_cong) (auto simp: grouped_def g(3))
  then show ?thesis by (simp add: kvPartition_def g(1) s)
qed

end
