(* ===== verification/Kv_SrvSys.thy ===== *)
theory Kv_SrvSys
  imports Kv_Srv Models_Kv
begin

text \<open>
  The key/value server of \<^verbatim>\<open>src/src/kvsrv\<close> together with its clerks and an unreliable network.  A clerk draws
  a sequence number and sends its request as often as it likes; the network loses, delays and reorders
  requests and replies, so the server may handle any request that was ever sent, any number of times, and a
  clerk may receive any reply that was ever produced for its request.  One clerk may have several operations
  under way.  The history records what happened, in order: calls, executions of a handler, and
  returns.
\<close>

section \<open>The system\<close>

datatype Ev =
    Inv Request
  | Exec Request string bool
  | Ret Request string

record KvSys =
  srv :: KVServer
  clerks :: "int \<Rightarrow> Clerk"
  pending :: "Request \<rightharpoonup> Reply"
  hist :: "Ev list"

definition initSys :: KvSys where
  "initSys = \<lparr> srv = StartKVServer, clerks = MakeClerk, pending = Map.empty, hist = [] \<rparr>"

text \<open>A clerk enters an operation.\<close>

definition call :: "KvSys \<Rightarrow> int \<Rightarrow> Clerk \<times> Request \<Rightarrow> KvSys" where
  "call s c ckr = s\<lparr> clerks := (clerks s)(c := fst ckr), pending := (pending s)(snd ckr \<mapsto> zeroReply),
     hist := hist s @ [Inv (snd ckr)] \<rparr>"

text \<open>The server handles a request.\<close>

definition exec :: "KvSys \<Rightarrow> Request \<Rightarrow> KvSys" where
  "exec s r = (let (kv, reply) = serve (srv s) r in
     s\<lparr> srv := kv, hist := hist s @ [Exec r (Value reply) (OpResult reply)] \<rparr>)"

text \<open>A reply reaches the loop of a clerk: one iteration of it.\<close>

definition receive :: "KvSys \<Rightarrow> Request \<Rightarrow> Reply \<Rightarrow> Reply \<Rightarrow> KvSys" where
  "receive s r reply new = (let reply1 = decodeReply reply new in
     if OpResult reply1
     then s\<lparr> pending := (pending s)(r := None), hist := hist s @ [Ret r (Value reply1)] \<rparr>
     else s\<lparr> pending := (pending s)(r \<mapsto> reply1) \<rparr>)"

inductive kvstep :: "KvSys \<Rightarrow> KvSys \<Rightarrow> bool" where
  callGet: "kvstep s (call s c (GetBegin (clerks s c) key))"
| callPut: "kvstep s (call s c (ClerkPut (clerks s c) key value))"
| callAppend: "kvstep s (call s c (ClerkAppend (clerks s c) key value))"
| handle: "Inv r \<in> set (hist s) \<Longrightarrow> kvstep s (exec s r)"
| reply: "pending s r = Some rep \<Longrightarrow> Exec r v b \<in> set (hist s) \<Longrightarrow>
    kvstep s (receive s r rep \<lparr> Value = v, OpResult = b \<rparr>)"

inductive kvreach :: "KvSys \<Rightarrow> bool" where
  start: "kvreach initSys"
| more: "kvreach s \<Longrightarrow> kvstep s s' \<Longrightarrow> kvreach s'"

section \<open>What a history says\<close>

text \<open>The values of the keys after a history, when each write counts at its first successful execution.  The
  list holds the writes that have counted.\<close>

definition track :: "Request list \<times> (string \<Rightarrow> string) \<Rightarrow> Ev \<Rightarrow> Request list \<times> (string \<Rightarrow> string)" where
  "track st e = (case e of
      Exec r v True \<Rightarrow>
        if isGet r \<or> r \<in> set (fst st) then st
        else (fst st @ [r], (snd st)(reqKey r := written r (snd st (reqKey r))))
    | _ \<Rightarrow> st)"

definition tracked :: "Ev list \<Rightarrow> Request list \<times> (string \<Rightarrow> string)" where
  "tracked h = foldl track ([], \<lambda>_. '''') h"

definition effective :: "Ev list \<Rightarrow> Request list" where
  "effective h = fst (tracked h)"

definition valueAt :: "Ev list \<Rightarrow> string \<Rightarrow> string" where
  "valueAt h = snd (tracked h)"

lemma track_nil [simp]: "effective [] = []" "valueAt [] = (\<lambda>_. '''')"
  by (simp_all add: effective_def valueAt_def tracked_def)

lemma track_other [simp]:
  "effective (h @ [Inv r]) = effective h" "valueAt (h @ [Inv r]) = valueAt h"
  "effective (h @ [Ret r v]) = effective h" "valueAt (h @ [Ret r v]) = valueAt h"
  "effective (h @ [Exec r v False]) = effective h" "valueAt (h @ [Exec r v False]) = valueAt h"
  by (simp_all add: effective_def valueAt_def tracked_def track_def)

lemma track_exec:
  "effective (h @ [Exec r v True]) = (if isGet r \<or> r \<in> set (effective h) then effective h else effective h @ [r])"
  "valueAt (h @ [Exec r v True]) = (if isGet r \<or> r \<in> set (effective h) then valueAt h
     else (valueAt h)(reqKey r := written r (valueAt h (reqKey r))))"
  by (auto simp: effective_def valueAt_def tracked_def track_def)

lemma Ev_cases:
  obtains r where "e = Inv r" | r v where "e = Ret r v" | r v where "e = Exec r v True"
    | r v where "e = Exec r v False"
  by (metis (full_types) Ev.exhaust)

lemma effective_iff: "r \<in> set (effective h) \<longleftrightarrow> \<not> isGet r \<and> (\<exists>v. Exec r v True \<in> set h)"
proof (induction h rule: rev_induct)
  case (snoc e h)
  then show ?case by (cases e rule: Ev_cases) (auto simp: track_exec)
qed simp

lemma effective_distinct: "distinct (effective h)"
proof (induction h rule: rev_induct)
  case (snoc e h)
  then show ?case by (cases e rule: Ev_cases) (auto simp: track_exec)
qed simp

section \<open>The invariant\<close>

definition invClerk :: "KvSys \<Rightarrow> bool" where
  "invClerk s \<longleftrightarrow>
     (\<forall>c. clientId (clerks s c) = c \<and> 0 \<le> ackSeq (clerks s c)) \<and>
     (\<forall>r. Inv r \<in> set (hist s) \<longrightarrow> 0 \<le> reqSeq r \<and> reqSeq r < ackSeq (clerks s (reqClient r))) \<and>
     (\<forall>r r'. Inv r \<in> set (hist s) \<longrightarrow> Inv r' \<in> set (hist s) \<longrightarrow>
        reqClient r = reqClient r' \<longrightarrow> reqSeq r = reqSeq r' \<longrightarrow> r = r')"

definition invAck :: "KvSys \<Rightarrow> bool" where
  "invAck s \<longleftrightarrow>
     (\<forall>c n q. clientAck (srv s) c = Some n \<longrightarrow> 0 \<le> q \<longrightarrow> q \<le> n \<longrightarrow>
        (\<exists>r v. Exec r v True \<in> set (hist s) \<and> reqClient r = c \<and> reqSeq r = q)) \<and>
     (\<forall>r v. Exec r v True \<in> set (hist s) \<longrightarrow> oldAck (srv s) r)"

definition invStore :: "KvSys \<Rightarrow> bool" where
  "invStore s \<longleftrightarrow> valueOf (srv s) = valueAt (hist s)"

text \<open>What is true of every event of the history with respect to the events before it.\<close>

definition okEvent :: "Ev list \<Rightarrow> Ev \<Rightarrow> bool" where
  "okEvent h e = (case e of
      Inv r \<Rightarrow> Inv r \<notin> set h
    | Exec r v b \<Rightarrow> Inv r \<in> set h \<and> (if b then isGet r \<longrightarrow> v = valueAt h (reqKey r) else v = '''')
    | Ret r v \<Rightarrow> Exec r v True \<in> set h \<and> (\<forall>v'. Ret r v' \<notin> set h))"

definition okHist :: "Ev list \<Rightarrow> bool" where
  "okHist h \<longleftrightarrow> (\<forall>k < length h. okEvent (take k h) (h ! k))"

definition invPending :: "KvSys \<Rightarrow> bool" where
  "invPending s \<longleftrightarrow>
     (\<forall>r rep. pending s r = Some rep \<longrightarrow> rep = zeroReply) \<and>
     (\<forall>r. pending s r \<noteq> None \<longleftrightarrow> Inv r \<in> set (hist s) \<and> (\<forall>v. Ret r v \<notin> set (hist s)))"

definition kvinv :: "KvSys \<Rightarrow> bool" where
  "kvinv s \<longleftrightarrow> invClerk s \<and> invAck s \<and> invStore s \<and> okHist (hist s) \<and> invPending s"

lemma okHist_snoc: "okHist (h @ [e]) \<longleftrightarrow> okHist h \<and> okEvent h e"
  by (auto simp: okHist_def nth_append less_Suc_eq)

lemma okHist_Exec_Inv: "okHist h \<Longrightarrow> Exec r v b \<in> set h \<Longrightarrow> Inv r \<in> set h"
  by (induction h rule: rev_induct) (auto simp: okHist_snoc okEvent_def)

lemma okHist_Ret_Exec: "okHist h \<Longrightarrow> Ret r v \<in> set h \<Longrightarrow> Exec r v True \<in> set h"
  by (induction h rule: rev_induct) (auto simp: okHist_snoc okEvent_def)

lemma okHist_False: "okHist h \<Longrightarrow> Exec r v False \<in> set h \<Longrightarrow> v = ''''"
  by (induction h rule: rev_induct) (auto simp: okHist_snoc okEvent_def)

lemma kvinv_init: "kvinv initSys"
  by (auto simp: kvinv_def invClerk_def invAck_def invStore_def okHist_def invPending_def initSys_def
      MakeClerk_def StartKVServer_def valueOf_def)

text \<open>A clerk's call: the request is new, since its sequence number is.\<close>

lemma kvinv_call:
  assumes "kvinv s" and r: "reqClient r = c" "reqSeq r = ackSeq (clerks s c)"
    and ck: "ck = (clerks s c)\<lparr>ackSeq := ackSeq (clerks s c) + 1\<rparr>"
  shows "kvinv (call s c (ck, r))"
proof -
  have I: "invClerk s" "invAck s" "invStore s" "okHist (hist s)" "invPending s"
    using assms(1) by (auto simp: kvinv_def)
  have new: "Inv r \<notin> set (hist s)" using I(1) r by (fastforce simp: invClerk_def)
  have noret: "Ret r v \<notin> set (hist s)" for v
    using new okHist_Ret_Exec[OF I(4)] okHist_Exec_Inv[OF I(4)] by blast
  have "invClerk (call s c (ck, r))"
    using I(1) r ck by (fastforce simp: invClerk_def call_def)
  moreover have "invAck (call s c (ck, r))" using I(2) by (simp add: invAck_def call_def)
  moreover have "invStore (call s c (ck, r))" using I(3) by (simp add: invStore_def call_def)
  moreover have "okHist (hist (call s c (ck, r)))" using I(4) new by (simp add: call_def okHist_snoc okEvent_def)
  moreover have "invPending (call s c (ck, r))" using I(5) noret by (auto simp: invPending_def call_def)
  ultimately show ?thesis by (simp add: kvinv_def)
qed

text \<open>An execution.  The client's next request takes effect; an old one must have succeeded before, because the
  server acknowledges a client's sequence numbers one after another.\<close>

lemma invAck_old:
  assumes "kvinv s" "Inv r \<in> set (hist s)" "oldAck (srv s) r"
  shows "\<exists>v. Exec r v True \<in> set (hist s)"
proof -
  have I: "invClerk s" "invAck s" "okHist (hist s)" using assms(1) by (auto simp: kvinv_def)
  obtain n where n: "clientAck (srv s) (reqClient r) = Some n" "reqSeq r \<le> n"
    using assms(3) by (auto simp: oldAck_def split: option.splits)
  have "0 \<le> reqSeq r" using I(1) assms(2) by (auto simp: invClerk_def)
  then obtain r' v where r': "Exec r' v True \<in> set (hist s)" "reqClient r' = reqClient r" "reqSeq r' = reqSeq r"
    using I(2) n unfolding invAck_def by blast
  then have "r' = r"
    using I(1) assms(2) okHist_Exec_Inv[OF I(3) r'(1)] by (auto simp: invClerk_def)
  then show ?thesis using r'(1) by blast
qed

lemma invAck_next:
  assumes "kvinv s" "nextAck (srv s) r"
  shows "Exec r v True \<notin> set (hist s)"
  using assms next_not_old by (auto simp: kvinv_def invAck_def)

lemma exec_next:
  assumes inv: "kvinv s" and sent: "Inv r \<in> set (hist s)" and nx: "nextAck (srv s) r"
  shows "kvinv (exec s r)"
proof -
  have I: "invClerk s" "invAck s" "invStore s" "okHist (hist s)" "invPending s"
    using inv by (auto simp: kvinv_def)
  have pos: "0 \<le> reqSeq r" using I(1) sent by (auto simp: invClerk_def)
  define kv where "kv = fst (serve (srv s) r)"
  have kv: "serve (srv s) r = (kv, \<lparr> Value = valueOf (srv s) (reqKey r), OpResult = True \<rparr>)"
      "valueOf kv = (valueOf (srv s))(reqKey r := written r (valueOf (srv s) (reqKey r)))"
      "clientAck kv = (clientAck (srv s))(reqClient r \<mapsto> reqSeq r)"
    using serve_next[OF nx pos] by (simp_all add: kv_def prod_eq_iff)
  have not_yet: "r \<notin> set (effective (hist s))" using invAck_next[OF inv nx] by (simp add: effective_iff)
  have e: "exec s r = s\<lparr> srv := kv, hist := hist s @ [Exec r (valueOf (srv s) (reqKey r)) True] \<rparr>"
    by (simp add: exec_def kv(1))
  have "invClerk (exec s r)" using I(1) by (simp add: invClerk_def e)
  moreover have "invAck (exec s r)"
  proof -
    have "oldAck kv r' " if "oldAck (srv s) r'" for r'
      using that nx kv(3) by (auto simp: oldAck_def nextAck_def split: option.splits if_splits)
    moreover have "oldAck kv r" using kv(3) by (simp add: oldAck_def)
    moreover have "\<exists>r' v. Exec r' v True \<in> set (hist (exec s r)) \<and> reqClient r' = c \<and> reqSeq r' = q"
      if ck: "clientAck kv c = Some n" "0 \<le> q" "q \<le> n" for c n q
    proof (cases "c = reqClient r \<and> q = reqSeq r")
      case True
      then show ?thesis by (auto simp: e)
    next
      case False
      then have "\<exists>m. clientAck (srv s) c = Some m \<and> q \<le> m"
        using ck kv(3) nx by (auto simp: nextAck_def split: if_splits option.splits)
      then obtain r' v where "Exec r' v True \<in> set (hist s)" "reqClient r' = c" "reqSeq r' = q"
        using I(2) ck(2) unfolding invAck_def by blast
      then show ?thesis by (auto simp: e)
    qed
    ultimately show ?thesis using I(2) unfolding invAck_def by (auto simp: e)
  qed
  moreover have "invStore (exec s r)"
    using I(3) kv(2) not_yet by (auto simp: invStore_def e track_exec)
  moreover have "okHist (hist (exec s r))"
    using I(3,4) sent by (simp add: e okHist_snoc okEvent_def invStore_def)
  moreover have "invPending (exec s r)" using I(5) by (simp add: invPending_def e)
  ultimately show ?thesis by (simp add: kvinv_def)
qed

lemma exec_old:
  assumes inv: "kvinv s" and sent: "Inv r \<in> set (hist s)" and old: "oldAck (srv s) r"
  shows "kvinv (exec s r)"
proof -
  have I: "invClerk s" "invAck s" "invStore s" "okHist (hist s)" "invPending s"
    using inv by (auto simp: kvinv_def)
  have pos: "0 \<le> reqSeq r" using I(1) sent by (auto simp: invClerk_def)
  have e: "exec s r = s\<lparr> hist := hist s @ [Exec r (if isGet r then valueOf (srv s) (reqKey r) else '''') True] \<rparr>"
    using serve_old[OF old pos] by (cases "serve (srv s) r") (simp add: exec_def)
  have again: "isGet r \<or> r \<in> set (effective (hist s))"
    using invAck_old[OF inv sent old] by (auto simp: effective_iff)
  have "invClerk (exec s r)" using I(1) by (simp add: invClerk_def e)
  moreover have "invAck (exec s r)" using I(2) old unfolding invAck_def e by (simp split: if_splits) blast
  moreover have "invStore (exec s r)" using I(3) again by (auto simp: invStore_def e track_exec)
  moreover have "okHist (hist (exec s r))"
    using I(3,4) sent by (simp add: e okHist_snoc okEvent_def invStore_def)
  moreover have "invPending (exec s r)" using I(5) by (simp add: invPending_def e)
  ultimately show ?thesis by (simp add: kvinv_def)
qed

lemma exec_ahead:
  assumes inv: "kvinv s" and sent: "Inv r \<in> set (hist s)" and no: "\<not> nextAck (srv s) r" "\<not> oldAck (srv s) r"
  shows "kvinv (exec s r)"
  using assms
  by (simp add: exec_def serve_ahead[OF no] zeroReply_def kvinv_def invClerk_def invAck_def invStore_def
      okHist_snoc okEvent_def invPending_def)

lemma kvinv_receive:
  assumes inv: "kvinv s" and p: "pending s r = Some rep" and x: "Exec r v b \<in> set (hist s)"
  shows "kvinv (receive s r rep \<lparr> Value = v, OpResult = b \<rparr>)"
proof -
  have I: "okHist (hist s)" "invPending s" using inv by (auto simp: kvinv_def)
  have rep: "rep = zeroReply" "\<And>v. Ret r v \<notin> set (hist s)" using I(2) p unfolding invPending_def by blast+
  show ?thesis
  proof (cases b)
    case True
    have d: "decodeReply rep \<lparr> Value = v, OpResult = b \<rparr> = \<lparr> Value = v, OpResult = True \<rparr>"
      using rep True by (simp add: decodeReply_def zeroReply_def)
    have e: "receive s r rep \<lparr> Value = v, OpResult = b \<rparr> = s\<lparr> pending := (pending s)(r := None), hist := hist s @ [Ret r v] \<rparr>"
      by (simp add: receive_def d)
    have "okHist (hist s @ [Ret r v])" using I(1) x True rep(2) by (simp add: okHist_snoc okEvent_def)
    moreover have "invPending (s\<lparr> pending := (pending s)(r := None), hist := hist s @ [Ret r v] \<rparr>)"
      using I(2) by (auto simp: invPending_def)
    ultimately show ?thesis using inv
      by (simp add: e kvinv_def invClerk_def invAck_def invStore_def)
  next
    case False
    then have "v = ''''" using okHist_False[OF I(1)] x by simp
    then have d: "decodeReply rep \<lparr> Value = v, OpResult = b \<rparr> = zeroReply"
      using rep False by (simp add: decodeReply_def zeroReply_def)
    have "receive s r rep \<lparr> Value = v, OpResult = b \<rparr> = s"
      using p unfolding receive_def d Let_def by (simp add: rep(1)) (simp add: zeroReply_def fun_upd_idem)
    then show ?thesis using inv by simp
  qed
qed

lemma kvinv_step:
  assumes "kvstep s s'" "kvinv s"
  shows "kvinv s'"
proof -
  have id: "clientId (clerks s c) = c" for c using assms(2) by (simp add: kvinv_def invClerk_def)
  show ?thesis using assms(1)
  proof cases
    case (callGet c key)
    show ?thesis unfolding callGet GetBegin_def by (rule kvinv_call[OF assms(2)]) (simp_all add: id)
  next
    case (callPut c key val)
    show ?thesis unfolding callPut ClerkPut_def PutAppendBegin_def
      by (rule kvinv_call[OF assms(2)]) (simp_all add: id)
  next
    case (callAppend c key val)
    show ?thesis unfolding callAppend ClerkAppend_def PutAppendBegin_def
      by (rule kvinv_call[OF assms(2)]) (simp_all add: id)
  next
    case (handle r)
    then show ?thesis using assms(2) exec_next exec_old exec_ahead
      by (cases rule: serve_cases[of "srv s" r]) blast+
  next
    case (reply r rep v b)
    then show ?thesis using assms(2) kvinv_receive by blast
  qed
qed

lemma kvreach_inv: "kvreach s \<Longrightarrow> kvinv s"
  by (induction rule: kvreach.induct) (auto intro: kvinv_init kvinv_step)

end
