(* ===== verification/Kv_SrvLin.thy ===== *)
theory Kv_SrvLin
  imports Kv_SrvSys
begin

text \<open>
  What clients of \<^verbatim>\<open>src/src/kvsrv\<close> observe, measured by the repository's own specification
  \<^verbatim>\<open>src/src/models/kv.go\<close>.  \<open>completed\<close> turns a history of the system into the list of operations that a
  test hands to the checker, with positions of the history as times.  The linearization point of a write is its
  first successful execution, that of a read the execution whose reply the clerk took.
\<close>

section \<open>Operations of a history\<close>

text \<open>The input of an operation.  The test of kvsrv records an append with code 3, whose output is compared
  with the old value; code 2 leaves the output of an append open.\<close>

fun kvInputOf :: "8 word \<Rightarrow> Request \<Rightarrow> KvInput" where
  "kvInputOf app (RGet args) = \<lparr> KvOp = 0, KvKey = GKey args, KvInValue = '''' \<rparr>"
| "kvInputOf app (RPut args) = \<lparr> KvOp = 1, KvKey = PKey args, KvInValue = PValue args \<rparr>"
| "kvInputOf app (RAppend args) = \<lparr> KvOp = app, KvKey = PKey args, KvInValue = PValue args \<rparr>"

fun retOf :: "Ev \<Rightarrow> (Request \<times> string) option" where
  "retOf (Ret r v) = Some (r, v)"
| "retOf _ = None"

definition returns :: "Ev list \<Rightarrow> (Request \<times> string) list" where
  "returns h = collect (\<lambda>i. retOf (h ! i)) (length h)"

definition opOf :: "8 word \<Rightarrow> Ev list \<Rightarrow> Request \<times> string \<Rightarrow> KvVal Operation" where
  "opOf app h rv =
    \<lparr> OpClientId = reqClient (fst rv), Input = KvIn (kvInputOf app (fst rv)),
      CallTime = int (firstPos (\<lambda>e. e = Inv (fst rv)) h),
      Output = KvOut \<lparr> KvOutValue = snd rv \<rparr>,
      ReturnTime = int (firstPos (\<lambda>e. e = Ret (fst rv) (snd rv)) h) \<rparr>"

definition completed :: "8 word \<Rightarrow> Ev list \<Rightarrow> KvVal Operation list" where
  "completed app h = map (opOf app h) (returns h)"

lemma opKey_opOf [simp]: "opKey (opOf app h rv) = reqKey (fst rv)"
  by (cases "fst rv") (simp_all add: opKey_def opOf_def)

lemma set_returns: "set (returns h) = {(r, v). Ret r v \<in> set h}"
proof -
  have "retOf e = Some (r, v) \<longleftrightarrow> e = Ret r v" for e r v by (cases e) auto
  then show ?thesis by (auto simp: returns_def set_collect in_set_conv_nth)
qed

lemma Ret_unique:
  assumes "okHist h" "Ret r v \<in> set h" "Ret r v' \<in> set h"
  shows "v = v'"
  using assms by (induction h rule: rev_induct) (auto simp: okHist_snoc okEvent_def)

lemma distinct_returns: "okHist h \<Longrightarrow> distinct (returns h)"
proof -
  assume ok: "okHist h"
  have "retOf (h ! j) \<noteq> Some (r, v)" if "i < j" "j < length h" "retOf (h ! i) = Some (r, v)" for i j r v
  proof
    assume "retOf (h ! j) = Some (r, v)"
    then have ij: "h ! j = Ret r v" "h ! i = Ret r v"
      using that(3) by (cases "h ! j"; cases "h ! i"; auto)+
    have "okEvent (take j h) (h ! j)" using ok that(2) by (simp add: okHist_def)
    moreover have "Ret r v \<in> set (take j h)" using that ij(2) by (force simp: in_set_conv_nth)
    ultimately show False using ij(1) by (simp add: okEvent_def)
  qed
  then show ?thesis unfolding returns_def by (intro distinct_collect) auto
qed

section \<open>Linearization points\<close>

fun succeeds :: "Request \<Rightarrow> Ev \<Rightarrow> bool" where
  "succeeds r (Exec r' _ b) \<longleftrightarrow> r' = r \<and> b"
| "succeeds _ _ \<longleftrightarrow> False"

definition point :: "Ev list \<Rightarrow> Request \<times> string \<Rightarrow> nat" where
  "point h rv = firstPos (if isGet (fst rv) then (\<lambda>e. e = Exec (fst rv) (snd rv) True) else succeeds (fst rv)) h"

lemma succeeds_iff: "succeeds r e \<longleftrightarrow> (\<exists>v. e = Exec r v True)"
  by (cases e) auto

lemma point_props:
  assumes ok: "okHist h" and ret: "Ret r v \<in> set h"
  shows "point h (r, v) < length h"
    and "\<exists>w. h ! point h (r, v) = Exec r w True \<and> (isGet r \<longrightarrow> w = v)"
    and "firstPos (\<lambda>e. e = Inv r) h < point h (r, v)"
    and "point h (r, v) < firstPos (\<lambda>e. e = Ret r v) h"
proof -
  define P where "P = (if isGet r then (\<lambda>e. e = Exec r v True) else succeeds r)"
  have p: "point h (r, v) = firstPos P h" by (simp add: point_def P_def)
  have P: "P (Exec r v True)" by (simp add: P_def)
  have hit: "firstPos P h < length h \<and> P (h ! firstPos P h)"
    using firstPos_hit[OF okHist_Ret_Exec[OF ok ret]] P by blast
  then show "point h (r, v) < length h" by (simp add: p)
  show ex: "\<exists>w. h ! point h (r, v) = Exec r w True \<and> (isGet r \<longrightarrow> w = v)"
    using hit by (auto simp: p P_def succeeds_iff split: if_splits)
  then obtain w where w: "h ! point h (r, v) = Exec r w True" by blast
  have "okEvent (take (point h (r, v)) h) (Exec r w True)"
    using ok hit w by (auto simp: okHist_def p)
  then have "Inv r \<in> set (take (point h (r, v)) h)" by (simp add: okEvent_def)
  then show "firstPos (\<lambda>e. e = Inv r) h < point h (r, v)" by (rule firstPos_take) simp
  define j where "j = firstPos (\<lambda>e. e = Ret r v) h"
  have j: "j < length h" "h ! j = Ret r v" using firstPos_hit[OF ret, of "\<lambda>e. e = Ret r v"] by (simp_all add: j_def)
  then have "okEvent (take j h) (Ret r v)" using ok unfolding okHist_def by metis
  then have "Exec r v True \<in> set (take j h)" by (simp add: okEvent_def)
  then show "point h (r, v) < firstPos (\<lambda>e. e = Ret r v) h"
    using firstPos_take[of _ j h P] P by (simp add: p j_def)
qed

text \<open>The operation on a key whose linearization point is a given position.\<close>

fun execOf :: "Ev \<Rightarrow> Request option" where
  "execOf (Exec r _ True) = Some r"
| "execOf _ = None"

definition pointAt :: "Ev list \<Rightarrow> string \<Rightarrow> nat \<Rightarrow> (Request \<times> string) option" where
  "pointAt h k i =
    (case execOf (h ! i) of
       None \<Rightarrow> None
     | Some r \<Rightarrow> List.find (\<lambda>rv. fst rv = r \<and> reqKey r = k \<and> point h rv = i) (returns h))"

lemma find_SomeD: "List.find P xs = Some x \<Longrightarrow> x \<in> set xs \<and> P x"
  by (auto simp: find_Some_iff)

lemma execOf_iff: "execOf e = Some r \<longleftrightarrow> (\<exists>v. e = Exec r v True)"
  by (cases e rule: Ev_cases) auto

lemma pointAt_iff:
  assumes "okHist h"
  shows "pointAt h k i = Some (r, v) \<longleftrightarrow> Ret r v \<in> set h \<and> reqKey r = k \<and> point h (r, v) = i"
proof
  assume "pointAt h k i = Some (r, v)"
  then obtain r' where f: "List.find (\<lambda>rv. fst rv = r' \<and> reqKey r' = k \<and> point h rv = i) (returns h) = Some (r, v)"
    by (auto simp: pointAt_def split: option.splits)
  show "Ret r v \<in> set h \<and> reqKey r = k \<and> point h (r, v) = i"
    using find_SomeD[OF f] by (auto simp: set_returns)
next
  assume R: "Ret r v \<in> set h \<and> reqKey r = k \<and> point h (r, v) = i"
  then obtain w where w: "h ! i = Exec r w True" using point_props(2)[OF assms] by blast
  let ?Q = "\<lambda>rv. fst rv = r \<and> reqKey r = k \<and> point h rv = i"
  have "(r, v) \<in> set (returns h)" using R by (simp add: set_returns)
  then obtain rv where f: "List.find ?Q (returns h) = Some rv"
    using R by (cases "List.find ?Q (returns h)") (auto simp: find_None_iff)
  then have "?Q rv" "rv \<in> set (returns h)" by (auto dest: find_SomeD)
  then have "rv = (r, v)" using Ret_unique[OF assms] R by (cases rv) (auto simp: set_returns)
  then show "pointAt h k i = Some (r, v)" using f by (simp add: pointAt_def w)
qed

definition linOrder :: "Ev list \<Rightarrow> string \<Rightarrow> nat \<Rightarrow> (Request \<times> string) list" where
  "linOrder h k n = collect (pointAt h k) n"

text \<open>The order keeps real time, and holds the operations of its key exactly.\<close>

lemma linOrder_realTime:
  assumes "okHist h"
  shows "keepsRealTime (map (opOf app h) (linOrder h k n))"
proof -
  have "\<not> ReturnTime (opOf app h b) < CallTime (opOf app h a)"
    if "i < j" "pointAt h k i = Some a" "pointAt h k j = Some b" for i j a b
  proof -
    obtain ra va rb vb where ab: "a = (ra, va)" "b = (rb, vb)" by (cases a, cases b)
    have "firstPos (\<lambda>e. e = Inv ra) h < i" "j < firstPos (\<lambda>e. e = Ret rb vb) h"
      using that(2,3) point_props(3,4)[OF assms] unfolding ab pointAt_iff[OF assms] by auto
    then show ?thesis using that(1) by (simp add: opOf_def ab)
  qed
  then show ?thesis unfolding keepsRealTime_def sorted_wrt_map linOrder_def by (intro sorted_wrt_collect) blast
qed

lemma linOrder_mset:
  assumes ok: "okHist h"
  shows "mset (linOrder h k (length h)) = mset (filter (\<lambda>rv. reqKey (fst rv) = k) (returns h))"
proof -
  have "distinct (linOrder h k (length h))"
    unfolding linOrder_def by (rule distinct_collect) (auto simp: pointAt_iff[OF ok])
  moreover have "distinct (filter (\<lambda>rv. reqKey (fst rv) = k) (returns h))"
    using distinct_returns[OF ok] by simp
  moreover have "set (linOrder h k (length h)) = set (filter (\<lambda>rv. reqKey (fst rv) = k) (returns h))"
    using point_props(1)[OF ok] by (fastforce simp: linOrder_def set_collect pointAt_iff[OF ok] set_returns)
  ultimately show ?thesis using set_eq_iff_mset_eq_distinct by blast
qed

text \<open>It is legal: the state of the specification after the points below \<open>j\<close> is the value the history
  gives the key there.\<close>

lemma kvStep_op:
  assumes "isGet r \<Longrightarrow> v = st"
  shows "kvStep st (KvIn (kvInputOf 2 r)) (KvOut \<lparr> KvOutValue = v \<rparr>) = Some (True, written r st)"
  using assms by (cases r) (simp_all add: kvStep_def)

lemma point_write:
  assumes "okHist h" "j < length h" "h ! j = Exec r w True" "\<not> isGet r" "Ret r v \<in> set h"
  shows "point h (r, v) = j \<longleftrightarrow> r \<notin> set (effective (take j h))"
proof
  assume "point h (r, v) = j"
  then have "\<not> succeeds r (h ! i)" if "i < j" for i
    using that firstPos_before assms(4) by (auto simp: point_def)
  then show "r \<notin> set (effective (take j h))"
    unfolding effective_iff by (auto simp: succeeds_iff in_set_conv_nth)
next
  assume "r \<notin> set (effective (take j h))"
  then have "\<not> succeeds r (h ! i)" if "i < j" for i
    using that assms(2,4) unfolding effective_iff by (auto simp: succeeds_iff in_set_conv_nth)
  then show "point h (r, v) = j"
    using assms(2,3,4) unfolding point_def by (intro firstPos_eqI) auto
qed

lemma take_Suc_ev: "j < length h \<Longrightarrow> take (Suc j) h = take j h @ [h ! j]"
  by (rule take_Suc_conv_app_nth)

lemma linOrder_legal:
  assumes ok: "okHist h" and all: "\<And>r. Inv r \<in> set h \<Longrightarrow> \<exists>v. Ret r v \<in> set h" and "j \<le> length h"
  shows "runFrom KvModel '''' (map (\<lambda>rv. inOut (opOf 2 h rv)) (linOrder h k j)) = Some (valueAt (take j h) k)"
  using assms(3)
proof (induction j)
  case 0
  then show ?case by (simp add: linOrder_def)
next
  case (Suc j)
  let ?st = "valueAt (take j h) k"
  have j: "j < length h" and IH: "runFrom KvModel '''' (map (\<lambda>rv. inOut (opOf 2 h rv)) (linOrder h k j)) = Some ?st"
    using Suc by auto
  show ?case
  proof (cases "pointAt h k j")
    case (Some rv)
    obtain r v where rv: "rv = (r, v)" by (cases rv)
    have R: "Ret r v \<in> set h" "reqKey r = k" "point h (r, v) = j"
      using Some pointAt_iff[OF ok] by (auto simp: rv)
    obtain w where w: "h ! j = Exec r w True" "isGet r \<longrightarrow> w = v" using point_props(2)[OF ok R(1)] R(3) by auto
    have get: "isGet r \<Longrightarrow> v = ?st" using ok j w R(2) by (auto simp: okHist_def okEvent_def)
    have "valueAt (take (Suc j) h) k = written r ?st"
      using point_write[OF ok j w(1) _ R(1)] R(2,3)
      by (cases "isGet r") (simp_all add: take_Suc_ev[OF j] w(1) track_exec)
    moreover have "linOrder h k (Suc j) = linOrder h k j @ [(r, v)]" by (simp add: linOrder_def Some rv)
    moreover have "inOut (opOf 2 h (r, v)) = (KvIn (kvInputOf 2 r), KvOut \<lparr> KvOutValue = v \<rparr>)"
      by (simp add: opOf_def inOut_def)
    ultimately show ?thesis using kvStep_op[of r v ?st] get by (simp add: runFrom_append IH)
  next
    case None
    have "valueAt (take (Suc j) h) k = ?st"
    proof (cases "h ! j" rule: Ev_cases)
      case (3 r w)
      have "Inv r \<in> set h" using ok j 3 okHist_Exec_Inv nth_mem by metis
      then obtain v where v: "Ret r v \<in> set h" using all by blast
      have "\<not> (reqKey r = k \<and> point h (r, v) = j)" using None v pointAt_iff[OF ok, of k j r v] by simp
      then show ?thesis using point_write[OF ok j 3 _ v] by (auto simp: take_Suc_ev[OF j] 3 track_exec)
    qed (simp_all add: take_Suc_ev[OF j])
    then show ?thesis using IH by (simp add: linOrder_def None)
  qed
qed

lemma completed_key:
  "filter (\<lambda>v. opKey v = k) (completed app h) = map (opOf app h) (filter (\<lambda>rv. reqKey (fst rv) = k) (returns h))"
  by (simp add: completed_def filter_map comp_def)

lemma completed_linearizable:
  assumes "okHist h" "\<And>r. Inv r \<in> set h \<Longrightarrow> \<exists>v. Ret r v \<in> set h"
  shows "linearizable KvModel (filter (\<lambda>v. opKey v = k) (completed 2 h))"
proof -
  have "linearization KvModel (filter (\<lambda>v. opKey v = k) (completed 2 h)) (map (opOf 2 h) (linOrder h k (length h)))"
    unfolding linearization_def
    using linOrder_mset[OF assms(1)] linOrder_realTime[OF assms(1)] linOrder_legal[OF assms order_refl]
    by (simp add: completed_key comp_def)
  then show ?thesis by (auto simp: linearizable_def)
qed

lemma completed_wellTyped: "\<forall>v\<in>set (completed app h). wellTyped v"
  by (auto simp: completed_def wellTyped_def opOf_def)

lemma idle_returned:
  assumes "kvreach s" "pending s = Map.empty" "Inv r \<in> set (hist s)"
  shows "\<exists>v. Ret r v \<in> set (hist s)"
  using kvreach_inv[OF assms(1)] assms(2,3) unfolding kvinv_def invPending_def by auto

text \<open>A state without an operation under way.\<close>

lemma idle_linearizable:
  assumes "kvreach s" and "pending s = Map.empty"
  shows "\<exists>ps. kvPartition (completed 2 (hist s)) = Some ps \<and> (\<forall>p\<in>set ps. linearizable KvModel p)"
proof -
  have "okHist (hist s)" using kvreach_inv[OF assms(1)] by (simp add: kvinv_def)
  then have "linearizable KvModel (filter (\<lambda>v. opKey v = k) (completed 2 (hist s)))" for k
    by (rule completed_linearizable) (rule idle_returned[OF assms])
  then show ?thesis unfolding kvPartition_eq[OF completed_wellTyped] by simp
qed

end
