(* ===== verification/Kv_SrvProps.thy ===== *)
theory Kv_SrvProps
  imports Kv_SrvLin
begin

text \<open>
  Properties of the key/value server of \<^verbatim>\<open>src/src/kvsrv\<close> and its clerks over an unreliable network:
  linearizability with respect to \<^verbatim>\<open>src/src/models/kv.go\<close>, exactly-once execution, the clerk's retry loop, and
  what a retransmitted append returns.
\<close>

section \<open>Exactly once\<close>

text \<open>The writes of one client take effect in the order of their sequence numbers.\<close>

definition inClientOrder :: "Request list \<Rightarrow> bool" where
  "inClientOrder rs \<longleftrightarrow> sorted_wrt (\<lambda>a b. reqClient a = reqClient b \<longrightarrow> reqSeq a < reqSeq b) rs"

text \<open>The effect of a write on the values of the keys.\<close>

definition applyWrite :: "(string \<Rightarrow> string) \<Rightarrow> Request \<Rightarrow> string \<Rightarrow> string" where
  "applyWrite st r = st(reqKey r := written r (st (reqKey r)))"

lemma valueAt_replay: "valueAt h = foldl applyWrite (\<lambda>_. '''') (effective h)"
proof (induction h rule: rev_induct)
  case (snoc e h)
  then show ?case by (cases e rule: Ev_cases) (auto simp: track_exec applyWrite_def)
qed simp

lemma exec_order:
  assumes inv: "kvinv s" and sent: "Inv r \<in> set (hist s)" and "inClientOrder (effective (hist s))"
  shows "inClientOrder (effective (hist (exec s r)))"
proof (cases rule: serve_cases[of "srv s" r])
  case 1
  have "reqSeq a < reqSeq r" if "a \<in> set (effective (hist s))" "reqClient a = reqClient r" for a
  proof -
    have "oldAck (srv s) a" using that(1) inv by (auto simp: effective_iff kvinv_def invAck_def)
    then show ?thesis using 1 that(2) by (auto simp: oldAck_def nextAck_def split: option.splits)
  qed
  then show ?thesis using assms(3)
    by (cases "OpResult (snd (serve (srv s) r))")
      (auto simp: exec_def track_exec inClientOrder_def sorted_wrt_append split: prod.splits)
next
  case 2
  then have "isGet r \<or> r \<in> set (effective (hist s))"
    using invAck_old[OF inv sent] by (auto simp: effective_iff)
  then show ?thesis using assms(3)
    by (cases "OpResult (snd (serve (srv s) r))") (auto simp: exec_def track_exec split: prod.splits)
next
  case 3
  then show ?thesis using assms(3) by (simp add: exec_def serve_ahead zeroReply_def)
qed

lemma receive_effective: "effective (hist (receive s r rep new)) = effective (hist s)"
  by (simp add: receive_def Let_def)

lemma kvreach_order: "kvreach s \<Longrightarrow> inClientOrder (effective (hist s))"
proof (induction rule: kvreach.induct)
  case start
  show ?case by (simp add: initSys_def inClientOrder_def)
next
  case (more s s')
  from more(2) show ?case
    by cases (use more(3) exec_order[OF kvreach_inv[OF more(1)]] in \<open>auto simp: call_def receive_effective\<close>)
qed

section \<open>A run with a lost reply\<close>

text \<open>Client 7 appends "a" and then "b" to key "k".  The reply to the second append is lost; the clerk sends the
  request again, and the server finds it old.\<close>

definition reqA :: Request where
  "reqA = RAppend \<lparr> PKey = ''k'', PValue = ''a'', PClientId = 7, PAckSeq = 0 \<rparr>"

definition reqB :: Request where
  "reqB = RAppend \<lparr> PKey = ''k'', PValue = ''b'', PClientId = 7, PAckSeq = 1 \<rparr>"

definition runA :: KvSys where
  "runA = receive (exec (call initSys 7 (ClerkAppend (clerks initSys 7) ''k'' ''a'')) reqA) reqA zeroReply
     \<lparr> Value = '''', OpResult = True \<rparr>"

definition runB :: KvSys where
  "runB = receive (exec (exec (call runA 7 (ClerkAppend (clerks runA 7) ''k'' ''b'')) reqB) reqB) reqB zeroReply
     \<lparr> Value = '''', OpResult = True \<rparr>"

lemmas run_defs = runA_def runB_def receive_def exec_def call_def ClerkAppend_def PutAppendBegin_def initSys_def
  MakeClerk_def StartKVServer_def reqA_def reqB_def decodeReply_def kvsrv_defs Let_def

lemma runA_fields:
  "hist runA = [Inv reqA, Exec reqA '''' True, Ret reqA '''']" "pending runA = Map.empty"
  "clerks runA = MakeClerk(7 := \<lparr> clientId = 7, ackSeq = 1 \<rparr>)"
  "srv runA = \<lparr> store = [''k'' \<mapsto> ''a''], clientAck = [7 \<mapsto> 0] \<rparr>"
  by (simp_all add: run_defs)

lemma runB_fields:
  "hist runB = hist runA @ [Inv reqB, Exec reqB ''a'' True, Exec reqB '''' True, Ret reqB '''']"
  "pending runB = Map.empty"
  "srv runB = \<lparr> store = [''k'' \<mapsto> ''ab''], clientAck = [7 \<mapsto> 1] \<rparr>"
  unfolding runB_def receive_def exec_def call_def runA_fields by (simp_all add: run_defs)

lemma runA_reachable: "kvreach runA"
proof -
  let ?s1 = "call initSys 7 (ClerkAppend (clerks initSys 7) ''k'' ''a'')"
  have 1: "kvreach ?s1" by (rule kvreach.more[OF kvreach.start kvstep.callAppend])
  have 2: "kvreach (exec ?s1 reqA)"
    by (rule kvreach.more[OF 1 kvstep.handle]) (simp add: run_defs)
  show ?thesis unfolding runA_def
    by (rule kvreach.more[OF 2 kvstep.reply]) (simp_all add: run_defs)
qed

lemma runB_reachable: "kvreach runB"
proof -
  let ?s1 = "call runA 7 (ClerkAppend (clerks runA 7) ''k'' ''b'')"
  have 1: "kvreach ?s1" by (rule kvreach.more[OF runA_reachable kvstep.callAppend])
  have 2: "kvreach (exec ?s1 reqB)"
    by (rule kvreach.more[OF 1 kvstep.handle]) (simp add: run_defs)
  have 3: "kvreach (exec (exec ?s1 reqB) reqB)"
    by (rule kvreach.more[OF 2 kvstep.handle]) (simp add: run_defs)
  show ?thesis unfolding runB_def
    by (rule kvreach.more[OF 3 kvstep.reply]) (simp_all add: run_defs)
qed

section \<open>Properties\<close>

text \<open>C12: linearizability of the key/value server.  When no operation is under way, the test's partition of the
  completed operations by key succeeds and every partition is linearizable for the model of a key, where an append
  is recorded without its return value.\<close>

theorem kvsrv_linearizable:
  assumes "kvreach s" and "pending s = Map.empty"
  shows "\<exists>ps. kvPartition (completed 2 (hist s)) = Some ps \<and> (\<forall>p\<in>set ps. linearizable KvModel p)"
  by (rule idle_linearizable[OF assms])

theorem kvsrv_linearizable_witness:
  "\<exists>ps. kvPartition (completed 2 (hist runB)) = Some ps \<and> (\<forall>p\<in>set ps. linearizable KvModel p)"
  by (rule kvsrv_linearizable[OF runB_reachable runB_fields(2)])

text \<open>C13: exactly-once semantics.  In every reachable state the server's store is the result of applying a list of
  writes one after the other, in which no request occurs twice, the writes of a client stand in the order in which it
  issued them, and every write that has returned to its caller occurs.\<close>

theorem kvsrv_exactly_once:
  assumes "kvreach s"
  shows "valueOf (srv s) = foldl applyWrite (\<lambda>_. '''') (effective (hist s)) \<and>
    distinct (effective (hist s)) \<and> inClientOrder (effective (hist s)) \<and>
    (\<forall>r v. Ret r v \<in> set (hist s) \<longrightarrow> \<not> isGet r \<longrightarrow> r \<in> set (effective (hist s)))"
proof -
  have inv: "kvinv s" by (rule kvreach_inv[OF assms])
  then have "valueOf (srv s) = foldl applyWrite (\<lambda>_. '''') (effective (hist s))"
    by (simp add: kvinv_def invStore_def valueAt_replay)
  moreover have "r \<in> set (effective (hist s))" if "Ret r v \<in> set (hist s)" "\<not> isGet r" for r v
    using that inv okHist_Ret_Exec by (auto simp: effective_iff kvinv_def)
  ultimately show ?thesis using effective_distinct kvreach_order[OF assms] by blast
qed

theorem kvsrv_exactly_once_witness:
  "valueOf (srv runB) = foldl applyWrite (\<lambda>_. '''') (effective (hist runB)) \<and> valueOf (srv runB) ''k'' = ''ab'' \<and>
    reqB \<in> set (effective (hist runB))"
proof -
  have "valueOf (srv runB) ''k'' = ''ab''" "Ret reqB '''' \<in> set (hist runB)" "\<not> isGet reqB"
    by (simp_all add: runB_fields valueOf_def reqB_def)
  then show ?thesis using kvsrv_exactly_once[OF runB_reachable] by blast
qed

text \<open>C14: the clerk's append can return a wrong value.  There is a reachable state with no operation under way in
  which the completed operations, recorded as the test of the server records them, are not linearizable: a
  retransmitted append is answered with an empty value although the key held one.\<close>

theorem kvsrv_append_value_lost:
  "\<exists>s. kvreach s \<and> pending s = Map.empty \<and> Ret reqB '''' \<in> set (hist s) \<and>
     \<not> linearizable KvModel (completed 3 (hist s))"
proof -
  let ?a = "opOf 3 (hist runB) (reqA, '''')" and ?b = "opOf 3 (hist runB) (reqB, '''')"
  have c: "completed 3 (hist runB) = [?a, ?b]"
    by (simp add: completed_def returns_def runB_fields runA_fields eval_nat_numeral)
  have t: "ReturnTime ?a < CallTime ?b"
    by (simp add: opOf_def runB_fields runA_fields firstPos_def reqA_def reqB_def)
  have i: "map inOut [?a, ?b] = [(KvIn \<lparr> KvOp = 3, KvKey = ''k'', KvInValue = ''a'' \<rparr>, KvOut \<lparr> KvOutValue = '''' \<rparr>),
      (KvIn \<lparr> KvOp = 3, KvKey = ''k'', KvInValue = ''b'' \<rparr>, KvOut \<lparr> KvOutValue = '''' \<rparr>)]"
    by (simp add: inOut_def opOf_def reqA_def reqB_def)
  have "\<not> linearization KvModel [?a, ?b] order" for order
  proof
    assume L: "linearization KvModel [?a, ?b] order"
    then have m: "mset order = {#?a, ?b#}" by (simp add: linearization_def)
    then have "length order = 2" by (metis size_mset size_add_mset size_empty numeral_2_eq_2)
    then obtain x y where o: "order = [x, y]" by (auto simp: length_Suc_conv numeral_2_eq_2)
    then have "(x = ?a \<and> y = ?b) \<or> (x = ?b \<and> y = ?a)" using m by (auto simp: add_eq_conv_ex)
    then show False
      using L t i unfolding linearization_def o keepsRealTime_def by (auto simp: kvStep_def)
  qed
  then have "\<not> linearizable KvModel (completed 3 (hist runB))" by (simp add: c linearizable_def)
  moreover have "Ret reqB '''' \<in> set (hist runB)" by (simp add: runB_fields)
  ultimately show ?thesis using runB_reachable runB_fields(2) by blast
qed

section \<open>The retry loop\<close>

text \<open>What happens while a clerk is in the loop: one iteration of it, in which the request is lost, or the server handles it and the reply is
  lost, or the reply arrives; or the server handles something else, from another clerk or from another operation of this one.\<close>

datatype Fate = RequestLost | ReplyLost | Delivered

datatype loopEvent = Attempt Fate | Other Request

fun afterEvent :: "Request \<Rightarrow> KVServer \<Rightarrow> loopEvent \<Rightarrow> KVServer" where
  "afterEvent r kv (Attempt RequestLost) = kv"
| "afterEvent r kv (Attempt _) = fst (serve kv r)"
| "afterEvent r kv (Other q) = fst (serve kv q)"

text \<open>The server at the end, and the outcomes of the clerk's calls.\<close>

definition serverAfter :: "KVServer \<Rightarrow> Request \<Rightarrow> loopEvent list \<Rightarrow> KVServer" where
  "serverAfter kv r es = foldl (afterEvent r) kv es"

fun outcomes :: "KVServer \<Rightarrow> Request \<Rightarrow> loopEvent list \<Rightarrow> Reply option list" where
  "outcomes kv r [] = []"
| "outcomes kv r (Attempt Delivered # es) = Some (snd (serve kv r)) # outcomes (afterEvent r kv (Attempt Delivered)) r es"
| "outcomes kv r (Attempt f # es) = None # outcomes (afterEvent r kv (Attempt f)) r es"
| "outcomes kv r (Other q # es) = outcomes (afterEvent r kv (Other q)) r es"

text \<open>The requests that took effect, each the next one of its client when the server handled it.\<close>

fun applied :: "KVServer \<Rightarrow> Request \<Rightarrow> loopEvent list \<Rightarrow> Request list" where
  "applied kv r [] = []"
| "applied kv r (e # es) =
     (case e of
        Attempt RequestLost \<Rightarrow> []
      | Attempt _ \<Rightarrow> if nextAck kv r then [r] else []
      | Other q \<Rightarrow> if nextAck kv q then [q] else []) @ applied (afterEvent r kv e) r es"

text \<open>A request is accepted when it is the client's next one or an old one; else it is ahead, and refused.\<close>

definition accepted :: "KVServer \<Rightarrow> Request \<Rightarrow> bool" where
  "accepted kv r \<longleftrightarrow> nextAck kv r \<or> oldAck kv r"

definition gotAnswer :: "KVServer \<Rightarrow> Request \<Rightarrow> loopEvent list \<Rightarrow> bool" where
  "gotAnswer kv r es \<longleftrightarrow> (\<exists>pre post. es = pre @ Attempt Delivered # post \<and> accepted (serverAfter kv r pre) r)"

text \<open>Sequence numbers are not negative, and one number of a client belongs to one request.\<close>

definition numbered :: "Request \<Rightarrow> loopEvent list \<Rightarrow> bool" where
  "numbered r es \<longleftrightarrow> 0 \<le> reqSeq r \<and>
     (\<forall>q. Other q \<in> set es \<longrightarrow> 0 \<le> reqSeq q \<and> (reqClient q = reqClient r \<longrightarrow> reqSeq q = reqSeq r \<longrightarrow> q = r))"

lemma serverAfter_simps [simp]:
  "serverAfter kv r [] = kv" "serverAfter kv r (e # es) = serverAfter (afterEvent r kv e) r es"
  by (simp_all add: serverAfter_def)

lemma numbered_Cons: "numbered r (e # es) \<Longrightarrow> numbered r es"
  by (auto simp: numbered_def)

lemma gotAnswer_simps [simp]:
  "\<not> gotAnswer kv r []"
  "gotAnswer kv r (e # es) \<longleftrightarrow> e = Attempt Delivered \<and> accepted kv r \<or> gotAnswer (afterEvent r kv e) r es"
proof -
  show "\<not> gotAnswer kv r []" by (simp add: gotAnswer_def)
  show "gotAnswer kv r (e # es) \<longleftrightarrow> e = Attempt Delivered \<and> accepted kv r \<or> gotAnswer (afterEvent r kv e) r es"
    unfolding gotAnswer_def Cons_eq_append_conv by (auto intro: exI[of _ "[]"]) (metis append_Cons serverAfter_simps)
qed

text \<open>What one request does to the acknowledgement of another.\<close>

lemma serve_ack:
  assumes "0 \<le> reqSeq q"
  shows "clientAck (fst (serve kv q)) = (if nextAck kv q then (clientAck kv)(reqClient q \<mapsto> reqSeq q) else clientAck kv)"
  using serve_next(2)[of kv q] serve_old(1)[of kv q] serve_ahead[of kv q] assms
  by (cases rule: serve_cases[of kv q]) auto

lemma old_serve:
  assumes "0 \<le> reqSeq q" "0 \<le> reqSeq r" "reqClient q = reqClient r \<longrightarrow> reqSeq q = reqSeq r \<longrightarrow> q = r"
  shows "oldAck (fst (serve kv q)) r \<longleftrightarrow> oldAck kv r \<or> q = r \<and> nextAck kv r"
  using assms by (auto simp: oldAck_def nextAck_def serve_ack split: option.splits)

lemma serve_value:
  assumes "0 \<le> reqSeq q"
  shows "valueOf (fst (serve kv q)) = foldl applyWrite (valueOf kv) (if nextAck kv q then [q] else [])"
  using serve_next(1)[of kv q] serve_old(1)[of kv q] serve_ahead[of kv q] assms
  by (cases rule: serve_cases[of kv q]) (auto simp: applyWrite_def)

lemma serve_reply:
  assumes "0 \<le> reqSeq r"
  shows "snd (serve kv r) = (if accepted kv r
    then \<lparr> Value = (if isGet r \<or> nextAck kv r then valueOf kv (reqKey r) else ''''), OpResult = True \<rparr> else zeroReply)"
  using serve_next(3)[of kv r] serve_old(2)[of kv r] serve_ahead[of kv r] assms
  by (cases rule: serve_cases[of kv r]) (auto simp: accepted_def)

section \<open>Its invariants\<close>

lemma applied_value:
  "numbered r es \<Longrightarrow> valueOf (serverAfter kv r es) = foldl applyWrite (valueOf kv) (applied kv r es)"
proof (induction es arbitrary: kv)
  case (Cons e es)
  have "valueOf (afterEvent r kv e) = foldl applyWrite (valueOf kv) (case e of Attempt RequestLost \<Rightarrow> []
      | Attempt _ \<Rightarrow> if nextAck kv r then [r] else [] | Other q \<Rightarrow> if nextAck kv q then [q] else [])"
    using Cons.prems serve_value by (cases e) (auto simp: numbered_def split: Fate.splits)
  then show ?case using Cons.IH[OF numbered_Cons[OF Cons.prems]] by simp
qed simp

lemma applied_count:
  "numbered r es \<Longrightarrow> count_list (applied kv r es) r = (if \<not> oldAck kv r \<and> oldAck (serverAfter kv r es) r then 1 else 0) \<and>
    (oldAck kv r \<longrightarrow> oldAck (serverAfter kv r es) r)"
proof (induction es arbitrary: kv)
  case (Cons e es)
  have "oldAck (afterEvent r kv e) r \<longleftrightarrow> oldAck kv r \<or> e \<in> {Attempt ReplyLost, Attempt Delivered, Other r} \<and> nextAck kv r"
    using Cons.prems old_serve[of _ r kv] by (cases "(r, kv, e)" rule: afterEvent.cases) (auto simp: numbered_def)
  then show ?case using Cons.IH[OF numbered_Cons[OF Cons.prems], of "afterEvent r kv e"] next_not_old[of kv r]
    by (cases "(r, kv, e)" rule: afterEvent.cases) auto
qed simp

lemma loop_returns:
  "0 \<le> reqSeq r \<Longrightarrow> callLoop zeroReply (outcomes kv r es) \<noteq> None \<longleftrightarrow> gotAnswer kv r es"
proof (induction es arbitrary: kv)
  case (Cons e es)
  then show ?case using serve_ahead[of kv r] serve_reply[of r kv]
    by (cases "(r, kv, e)" rule: afterEvent.cases) (auto simp: decodeReply_def zeroReply_def accepted_def Let_def)
qed simp

lemma loop_value:
  "0 \<le> reqSeq r \<Longrightarrow> callLoop zeroReply (outcomes kv r es) = Some v \<Longrightarrow>
   \<exists>pre post. es = pre @ Attempt Delivered # post \<and> \<not> gotAnswer kv r pre \<and> accepted (serverAfter kv r pre) r \<and>
     v = (if isGet r \<or> nextAck (serverAfter kv r pre) r then valueOf (serverAfter kv r pre) (reqKey r) else '''')"
proof (induction es arbitrary: kv)
  case (Cons e es)
  show ?case
  proof (cases "e = Attempt Delivered \<and> accepted kv r")
    case True
    then show ?thesis using Cons.prems serve_reply[of r kv]
      by (intro exI[of _ "[]"] exI[of _ es]) (auto simp: decodeReply_def zeroReply_def Let_def)
  next
    case False
    then have "callLoop zeroReply (outcomes (afterEvent r kv e) r es) = Some v"
      using Cons.prems serve_reply[of r kv] by (cases "(r, kv, e)" rule: afterEvent.cases) (auto simp: decodeReply_def zeroReply_def Let_def)
    then obtain pre post where "es = pre @ Attempt Delivered # post" "\<not> gotAnswer (afterEvent r kv e) r pre" "accepted (serverAfter (afterEvent r kv e) r pre) r"
        "v = (if isGet r \<or> nextAck (serverAfter (afterEvent r kv e) r pre) r then valueOf (serverAfter (afterEvent r kv e) r pre) (reqKey r) else '''')"
      using Cons.IH[OF Cons.prems(1)] by blast
    then show ?thesis using False by (intro exI[of _ "e # pre"] exI[of _ post]) simp
  qed
qed simp

lemma gotAnswer_old:
  "numbered r es \<Longrightarrow> gotAnswer kv r es \<Longrightarrow> oldAck (serverAfter kv r es) r"
proof (induction es arbitrary: kv)
  case (Cons e es)
  note n = numbered_Cons[OF Cons.prems(1)]
  show ?case
  proof (cases "e = Attempt Delivered \<and> accepted kv r")
    case True
    then have "oldAck (afterEvent r kv e) r" using old_serve[of r r kv] Cons.prems(1) by (auto simp: accepted_def numbered_def)
    then show ?thesis using applied_count[OF n] by simp
  next
    case False
    then have "gotAnswer (afterEvent r kv e) r es" using Cons.prems(2) by auto
    then show ?thesis using Cons.IH[OF n] by simp
  qed
qed simp

text \<open>C15: the retry loop ends with the first accepted reply, and the operation happens once.  Let a clerk be in the loop for a request that the
  server has not yet executed, while the server handles other requests in between; no sequence number is negative, and a request of the
  same client with the same number is this one again.  Then, whatever the network loses: the loop returns exactly if a reply arrives
  from a server that did not refuse the request for being ahead, and after a refusal it calls again; when it has returned, the request
  has taken effect exactly once, and it never does more than once; the values of the keys are those that the requests which took
  effect lead to, one after the other; and a read returns the value that the key had at the server, as does a write whose reply is the one
  of its execution, while another write returns the empty string.\<close>

theorem clerk_loop_once:
  assumes "\<not> oldAck kv r" and "numbered r es"
  shows "(callLoop zeroReply (outcomes kv r es) \<noteq> None \<longleftrightarrow> gotAnswer kv r es) \<and>
    (\<forall>v. callLoop zeroReply (outcomes kv r es) = Some v \<longrightarrow> count_list (applied kv r es) r = 1 \<and>
      (\<exists>pre post. es = pre @ Attempt Delivered # post \<and> \<not> gotAnswer kv r pre \<and> accepted (serverAfter kv r pre) r \<and>
        v = (if isGet r \<or> nextAck (serverAfter kv r pre) r then valueOf (serverAfter kv r pre) (reqKey r) else ''''))) \<and>
    count_list (applied kv r es) r \<le> 1 \<and>
    valueOf (serverAfter kv r es) = foldl applyWrite (valueOf kv) (applied kv r es)"
proof -
  have n: "0 \<le> reqSeq r" using assms(2) by (simp add: numbered_def)
  have "count_list (applied kv r es) r = 1" if "callLoop zeroReply (outcomes kv r es) = Some v" for v
    using that loop_returns[OF n, of kv es] gotAnswer_old[OF assms(2)] applied_count[OF assms(2), of kv] assms(1) by simp
  moreover have "count_list (applied kv r es) r \<le> 1" using applied_count[OF assms(2), of kv] by simp
  ultimately show ?thesis using loop_returns[OF n, of kv es] loop_value[OF n, of kv es] applied_value[OF assms(2), of kv] by blast
qed

text \<open>The second request of a client comes before the first and is refused; then the reply to it is lost.\<close>

definition overtaken :: "loopEvent list" where
  "overtaken = [Attempt Delivered, Other reqA, Attempt RequestLost, Attempt ReplyLost, Attempt Delivered]"

theorem clerk_loop_once_witness:
  "callLoop zeroReply (outcomes StartKVServer reqB (take 4 overtaken)) = None \<and>
    callLoop zeroReply (outcomes StartKVServer reqB overtaken) \<noteq> None \<and>
    count_list (applied StartKVServer reqB overtaken) reqB = 1 \<and> valueOf (serverAfter StartKVServer reqB overtaken) ''k'' = ''ab''"
proof -
  have o: "\<not> oldAck StartKVServer reqB" by (simp add: oldAck_def StartKVServer_def)
  have n: "numbered reqB overtaken" "numbered reqB (take 4 overtaken)" by (auto simp: numbered_def overtaken_def reqA_def reqB_def)
  have a: "gotAnswer StartKVServer reqB overtaken" "\<not> gotAnswer StartKVServer reqB (take 4 overtaken)"
    by (simp_all add: overtaken_def accepted_def reqA_def reqB_def StartKVServer_def kvsrv_defs)
  have "foldl applyWrite (valueOf StartKVServer) (applied StartKVServer reqB overtaken) ''k'' = ''ab''"
    by (simp add: overtaken_def applyWrite_def reqA_def reqB_def StartKVServer_def kvsrv_defs)
  then show ?thesis using clerk_loop_once[OF o n(1)] clerk_loop_once[OF o n(2)] a by auto
qed

end
