(* ===== verification/Kv_Raft.thy ===== *)
theory Kv_Raft
  imports Kv_Common Raft_Apply
begin

text \<open>
  The replicated key/value server and its clerk, \<^verbatim>\<open>src/src/kvraft/server.go\<close> and \<^verbatim>\<open>client.go\<close>.  A server sits on a Raft
  peer of \<open>Raft_State\<close>, whose commands are \<open>Op\<close> values and whose snapshots are lists of \<open>kvgob\<close> values.
  A Go map that may be nil is an option; writing to a nil map is a panic.  A channel is an index into
  \<open>chans\<close>, the buffers of all channels made so far; the channels here have capacity one, and a send on a
  full one blocks.  A pointer to a reply that may be nil is an option.

  \<open>HandlerClientRequest\<close> runs in pieces, since it gives up the server's lock between them: the duplicate check,
  \<open>Start\<close>, the registration of the channel, the select, and the removal of the channel.  \<open>ApplyTicket\<close> handles
  one message per iteration.
\<close>

section \<open>The server\<close>

record KVServer =
  kvMe :: nat
  kvDead :: int
  maxraftstate :: int
  kvLastApplied :: int
  Store :: "(string, string) fmap option"
  ClientMaxReq :: "(int, int) fmap option"
  ClientLastReqRest :: "(int, ClientRequestReply) fmap option"
  notifyChannel :: "(int, nat) fmap"
  chans :: "ClientRequestReply option list list"

text \<open>A lookup in a map that may be nil finds nothing in a nil map; an assignment to one panics.\<close>

definition mapGet :: "('k, 'v) fmap option \<Rightarrow> 'k \<Rightarrow> 'v option" where
  "mapGet m k = (case m of None \<Rightarrow> None | Some f \<Rightarrow> fmlookup f k)"

definition mapSet :: "('k, 'v) fmap option \<Rightarrow> 'k \<Rightarrow> 'v \<Rightarrow> ('k, 'v) fmap option option" where
  "mapSet m k v = (case m of None \<Rightarrow> None | Some f \<Rightarrow> Some (Some (fmupd k v f)))"

subsection \<open>The state machine\<close>

definition StateMachineGet :: "KVServer \<Rightarrow> string \<Rightarrow> string \<times> Err" where
  "StateMachineGet kv key = (case mapGet (Store kv) key of Some v \<Rightarrow> (v, OK) | None \<Rightarrow> ('''', NoKey))"

definition StateMachinePut :: "KVServer \<Rightarrow> string \<Rightarrow> string \<Rightarrow> (KVServer \<times> Err) option" where
  "StateMachinePut kv key value = do {
     st \<leftarrow> mapSet (Store kv) key value;
     Some (kv\<lparr>Store := st\<rparr>, OK) }"

definition StateMachineAppend :: "KVServer \<Rightarrow> string \<Rightarrow> string \<Rightarrow> (KVServer \<times> Err) option" where
  "StateMachineAppend kv key value = do {
     let old = (case mapGet (Store kv) key of Some v \<Rightarrow> v | None \<Rightarrow> '''');
     st \<leftarrow> mapSet (Store kv) key (old @ value);
     Some (kv\<lparr>Store := st\<rparr>, OK) }"

definition ApplyToStateMachine :: "KVServer \<Rightarrow> Op \<Rightarrow> (KVServer \<times> ClientRequestReply) option" where
  "ApplyToStateMachine kv opLog =
    (case opOp opLog of
       OpGet \<Rightarrow> (let (value, err) = StateMachineGet kv (opKeyOf opLog)
                 in Some (kv, emptyReply\<lparr>rpErr := err, rpValue := value\<rparr>))
     | OpPut \<Rightarrow> do { (kv1, err) \<leftarrow> StateMachinePut kv (opKeyOf opLog) (opValue opLog);
                     Some (kv1, emptyReply\<lparr>rpErr := err\<rparr>) }
     | OpAppend \<Rightarrow> do { (kv1, err) \<leftarrow> StateMachineAppend kv (opKeyOf opLog) (opValue opLog);
                     Some (kv1, emptyReply\<lparr>rpErr := err\<rparr>) })"

subsection \<open>Notification channels\<close>

definition GetNotifyChannel :: "int \<Rightarrow> KVServer \<Rightarrow> KVServer \<times> nat" where
  "GetNotifyChannel index kv =
    (case fmlookup (notifyChannel kv) index of
       Some ch \<Rightarrow> (kv, ch)
     | None \<Rightarrow> (kv\<lparr>notifyChannel := fmupd index (length (chans kv)) (notifyChannel kv),
                    chans := chans kv @ [[]]\<rparr>, length (chans kv)))"

definition RemoveNotifyChannel :: "int \<Rightarrow> KVServer \<Rightarrow> KVServer" where
  "RemoveNotifyChannel index kv = kv\<lparr>notifyChannel := fmdrop index (notifyChannel kv)\<rparr>"

text \<open>A send on a channel with a buffer for one value, and a receive.\<close>

definition chanSend :: "nat \<Rightarrow> ClientRequestReply option \<Rightarrow> KVServer \<Rightarrow> KVServer outcome" where
  "chanSend ch r kv =
    (if ch \<ge> length (chans kv) \<or> chans kv ! ch \<noteq> [] then Blocked
     else Runs (kv\<lparr>chans := (chans kv)[ch := [r]]\<rparr>))"

definition chanRecv :: "nat \<Rightarrow> KVServer \<Rightarrow> (KVServer \<times> ClientRequestReply option) outcome" where
  "chanRecv ch kv =
    (if ch \<ge> length (chans kv) \<or> chans kv ! ch = [] then Blocked
     else Runs (kv\<lparr>chans := (chans kv)[ch := tl (chans kv ! ch)]\<rparr>, hd (chans kv ! ch)))"

subsection \<open>Client requests\<close>

definition handler_check :: "KVServer \<Rightarrow> ClientRequestArgs \<Rightarrow> ClientRequestReply option" where
  "handler_check kv args =
    (case mapGet (ClientMaxReq kv) (crClientId args) of
       Some maxReq \<Rightarrow> if maxReq \<ge> crReqSeq args \<and> crOp args \<noteq> OpGet
                       then Some (emptyReply\<lparr>rpErr := Duplicate\<rparr>) else None
     | None \<Rightarrow> None)"

definition opLogOf :: "ClientRequestArgs \<Rightarrow> Op" where
  "opLogOf args = \<lparr>opOp = crOp args, opKeyOf = crKey args, opValue = crValue args,
     opClient = crClientId args, opSeq = crReqSeq args\<rparr>"

text \<open>\<open>Start\<close>: either the reply \<open>WrongLeader\<close> or the index of the new entry.\<close>

definition handler_start :: "ClientRequestArgs \<Rightarrow> (Op, kvgob) Raft \<Rightarrow>
    ((Op, kvgob) Raft \<times> (ClientRequestReply + int) \<times> effect list) option" where
  "handler_start args rf = do {
     (rf1, (index, _, ok), effs) \<leftarrow> Start (Some (opLogOf args)) rf;
     Some (rf1, if \<not> ok then Inl (emptyReply\<lparr>rpErr := WrongLeader\<rparr>) else Inr index, effs) }"

definition handler_register :: "int \<Rightarrow> KVServer \<Rightarrow> KVServer \<times> nat" where
  "handler_register index kv = GetNotifyChannel index kv"

text \<open>The select: a result from the channel, whose pointer is dereferenced, or the timeout.\<close>

definition handler_result :: "nat \<Rightarrow> KVServer \<Rightarrow> (KVServer \<times> ClientRequestReply) outcome" where
  "handler_result ch kv =
    (case chanRecv ch kv of
       Runs (kv1, Some result) \<Rightarrow> Runs (kv1, emptyReply\<lparr>rpValue := rpValue result, rpErr := rpErr result\<rparr>)
     | Runs (kv1, None) \<Rightarrow> Panics
     | Blocked \<Rightarrow> Blocked
     | Panics \<Rightarrow> Panics)"

definition handler_timeout :: ClientRequestReply where
  "handler_timeout = emptyReply\<lparr>rpErr := TimeOut\<rparr>"

definition handler_cleanup :: "int \<Rightarrow> KVServer \<Rightarrow> KVServer" where
  "handler_cleanup index kv = RemoveNotifyChannel index kv"

subsection \<open>Snapshots\<close>

definition ShouldSnapShot :: "(Op gob list \<Rightarrow> int) \<Rightarrow> KVServer \<Rightarrow> (Op, kvgob) Raft \<Rightarrow> bool" where
  "ShouldSnapShot bytesOf kv rf \<longleftrightarrow> maxraftstate kv \<noteq> -1 \<and> GetRaftStateSize bytesOf rf > maxraftstate kv"

text \<open>A nil map is encoded as an empty one.\<close>

definition encodeSnapShot :: "KVServer \<Rightarrow> kvgob list" where
  "encodeSnapShot kv =
    [GStore (case Store kv of Some m \<Rightarrow> m | None \<Rightarrow> fmempty),
     GMaxReq (case ClientMaxReq kv of Some m \<Rightarrow> m | None \<Rightarrow> fmempty),
     GLastRest (case ClientLastReqRest kv of Some m \<Rightarrow> m | None \<Rightarrow> fmempty)]"

definition TakeSnapShot :: "int \<Rightarrow> KVServer \<Rightarrow> (Op, kvgob) Raft \<Rightarrow> (Op, kvgob) Raft option" where
  "TakeSnapShot index kv rf = Snapshot index (encodeSnapShot kv) rf"

text \<open>The three \<open>Decode\<close> calls, joined by a short-circuit \<open>||\<close>: after the first failure the remaining maps
  stay nil.  The failure is only printed.\<close>

fun decodeSnapShot :: "kvgob list \<Rightarrow>
    (string, string) fmap option \<times> (int, int) fmap option \<times> (int, ClientRequestReply) fmap option" where
  "decodeSnapShot (GStore a # GMaxReq b # GLastRest c # _) = (Some a, Some b, Some c)"
| "decodeSnapShot (GStore a # GMaxReq b # _) = (Some a, Some b, None)"
| "decodeSnapShot (GStore a # _) = (Some a, None, None)"
| "decodeSnapShot _ = (None, None, None)"

definition RestoreSnapShot :: "kvgob list \<Rightarrow> KVServer \<Rightarrow> KVServer" where
  "RestoreSnapShot snapShot kv =
    (if snapShot = [] then kv
     else let (a, b, c) = decodeSnapShot snapShot
          in kv\<lparr>Store := a, ClientMaxReq := b, ClientLastReqRest := c\<rparr>)"

subsection \<open>The apply loop\<close>

text \<open>A command that is new for its client: run it, remember the reply and the sequence number.\<close>

definition executeCommand :: "Op \<Rightarrow> KVServer \<Rightarrow> (KVServer \<times> ClientRequestReply option) option" where
  "executeCommand opLog kv = do {
     (kv1, reply) \<leftarrow> ApplyToStateMachine kv opLog;
     rest \<leftarrow> mapSet (ClientLastReqRest kv1) (opClient opLog) reply;
     maxReq \<leftarrow> mapSet (ClientMaxReq kv1) (opClient opLog) (opSeq opLog);
     Some (kv1\<lparr>ClientLastReqRest := rest, ClientMaxReq := maxReq\<rparr>, Some reply) }"

text \<open>The reply to a command, from the cache when the client has been served beyond it.\<close>

definition applyCommand :: "Op \<Rightarrow> KVServer \<Rightarrow> (KVServer \<times> ClientRequestReply option) option" where
  "applyCommand opLog kv =
    (case mapGet (ClientMaxReq kv) (opClient opLog) of
       Some index \<Rightarrow>
         if index \<ge> opSeq opLog then Some (kv, mapGet (ClientLastReqRest kv) (opClient opLog))
         else executeCommand opLog kv
     | None \<Rightarrow> executeCommand opLog kv)"

text \<open>A leader hands the reply to whoever waits for the index.\<close>

definition notifyLeader :: "int \<Rightarrow> ClientRequestReply option \<Rightarrow> (Op, kvgob) Raft \<Rightarrow> KVServer \<Rightarrow> KVServer outcome" where
  "notifyLeader index reply rf kv =
    (if snd (GetState rf)
     then let (kv1, ch) = GetNotifyChannel index kv in chanSend ch reply kv1
     else Runs kv)"

definition snapShotIfLarge :: "(Op gob list \<Rightarrow> int) \<Rightarrow> int \<Rightarrow> (Op, kvgob) Raft \<Rightarrow> KVServer \<Rightarrow>
    (KVServer \<times> (Op, kvgob) Raft) outcome" where
  "snapShotIfLarge bytesOf index rf kv =
    (if ShouldSnapShot bytesOf kv rf
     then (case TakeSnapShot index kv rf of None \<Rightarrow> Panics | Some rf1 \<Rightarrow> Runs (kv, rf1))
     else Runs (kv, rf))"

definition ApplyTicket :: "(Op gob list \<Rightarrow> int) \<Rightarrow> (Op, kvgob) ApplyMsg \<Rightarrow> (Op, kvgob) Raft \<Rightarrow> KVServer \<Rightarrow>
    (KVServer \<times> (Op, kvgob) Raft) outcome" where
  "ApplyTicket bytesOf msg rf kv =
    (if amCommandValid msg then
       if amCommandIndex msg \<le> kvLastApplied kv then Runs (kv, rf)
       else (case amCommand msg of
           None \<Rightarrow> Panics
         | Some opLog \<Rightarrow>
             (case applyCommand opLog (kv\<lparr>kvLastApplied := amCommandIndex msg\<rparr>) of
                None \<Rightarrow> Panics
              | Some (kv1, reply) \<Rightarrow>
                  (case notifyLeader (amCommandIndex msg) reply rf kv1 of
                     Runs kv2 \<Rightarrow> snapShotIfLarge bytesOf (amCommandIndex msg) rf kv2
                   | Blocked \<Rightarrow> Blocked
                   | Panics \<Rightarrow> Panics)))
     else if amSnapshotValid msg then Runs (RestoreSnapShot (amSnapshot msg) kv, rf)
     else Runs (kv, rf))"

subsection \<open>Start and end\<close>

definition KvKill :: "KVServer \<Rightarrow> (Op, kvgob) Raft \<Rightarrow> KVServer \<times> (Op, kvgob) Raft" where
  "KvKill kv rf = (kv\<lparr>kvDead := 1\<rparr>, Kill rf)"

definition kvKilled :: "KVServer \<Rightarrow> bool" where
  "kvKilled kv \<longleftrightarrow> kvDead kv = 1"

definition StartKVServer :: "int \<Rightarrow> nat \<Rightarrow> nat \<Rightarrow> (Op, kvgob) Persister \<Rightarrow> int \<Rightarrow>
    (KVServer \<times> (Op, kvgob) Raft) option" where
  "StartKVServer now servers self ps maxrs = do {
     rf \<leftarrow> Make now servers self ps;
     Some (RestoreSnapShot (ReadSnapshot ps)
       \<lparr>kvMe = self, kvDead = 0, maxraftstate = maxrs, kvLastApplied = -1, Store = Some fmempty,
        ClientMaxReq = Some fmempty, ClientLastReqRest = Some fmempty,
        notifyChannel = fmempty, chans = []\<rparr>, rf) }"

section \<open>The clerk\<close>

record Clerk =
  ckServers :: nat
  ckClientId :: int
  ckReqSeq :: int
  ckLeaderId :: nat

definition MakeClerk :: "nat \<Rightarrow> int \<Rightarrow> Clerk" where
  "MakeClerk servers rand = \<lparr>ckServers = servers, ckClientId = rand, ckReqSeq = 0, ckLeaderId = 0\<rparr>"

definition requestArgs :: "Clerk \<Rightarrow> string \<Rightarrow> string \<Rightarrow> OperationOp \<Rightarrow> ClientRequestArgs" where
  "requestArgs ck key value op = \<lparr>crOp = op, crKey = key, crValue = value,
     crClientId = ckClientId ck, crReqSeq = ckReqSeq ck\<rparr>"

text \<open>One iteration of the loop of \<open>SendClientRequest\<close>, on the outcome of the call: \<open>None\<close> when \<open>Call\<close> fails.
  \<open>Inl\<close> continues the loop, \<open>Inr\<close> returns.\<close>

definition sendIteration :: "ClientRequestReply option \<Rightarrow> Clerk \<Rightarrow> Clerk + Clerk \<times> string" where
  "sendIteration res ck =
    (case res of
       None \<Rightarrow> Inl (ck\<lparr>ckLeaderId := (ckLeaderId ck + 1) mod ckServers ck\<rparr>)
     | Some reply \<Rightarrow>
         if rpErr reply = WrongLeader \<or> rpErr reply = TimeOut
         then Inl (ck\<lparr>ckLeaderId := (ckLeaderId ck + 1) mod ckServers ck\<rparr>)
         else Inr (ck\<lparr>ckReqSeq := ckReqSeq ck + 1\<rparr>, rpValue reply))"

text \<open>The loop, where \<open>call k s\<close> is the outcome of the \<open>k\<close>-th call when it goes to server \<open>s\<close>.  The
  fuel bounds the number of calls; \<open>None\<close> means that the loop is still running after them.\<close>

fun sendLoop :: "nat \<Rightarrow> (nat \<Rightarrow> nat \<Rightarrow> ClientRequestReply option) \<Rightarrow> nat \<Rightarrow> Clerk \<Rightarrow> (Clerk \<times> string) option" where
  "sendLoop 0 call k ck = None"
| "sendLoop (Suc fuel) call k ck =
     (case sendIteration (call k (ckLeaderId ck)) ck of
        Inr res \<Rightarrow> Some res
      | Inl ck1 \<Rightarrow> sendLoop fuel call (Suc k) ck1)"

definition SendClientRequest :: "nat \<Rightarrow> (ClientRequestArgs \<Rightarrow> nat \<Rightarrow> nat \<Rightarrow> ClientRequestReply option) \<Rightarrow> Clerk \<Rightarrow>
    string \<Rightarrow> string \<Rightarrow> OperationOp \<Rightarrow> (Clerk \<times> string) option" where
  "SendClientRequest fuel call ck key value op = sendLoop fuel (call (requestArgs ck key value op)) 0 ck"

definition ClerkGet :: "nat \<Rightarrow> (ClientRequestArgs \<Rightarrow> nat \<Rightarrow> nat \<Rightarrow> ClientRequestReply option) \<Rightarrow> Clerk \<Rightarrow>
    string \<Rightarrow> (Clerk \<times> string) option" where
  "ClerkGet fuel call ck key = SendClientRequest fuel call ck key '''' OpGet"

definition ClerkPutAppend :: "nat \<Rightarrow> (ClientRequestArgs \<Rightarrow> nat \<Rightarrow> nat \<Rightarrow> ClientRequestReply option) \<Rightarrow> Clerk \<Rightarrow>
    string \<Rightarrow> string \<Rightarrow> string \<Rightarrow> Clerk option" where
  "ClerkPutAppend fuel call ck key value op =
    (if op = ''Put'' then map_option fst (SendClientRequest fuel call ck key value OpPut)
     else if op = ''Append'' then map_option fst (SendClientRequest fuel call ck key value OpAppend)
     else Some ck)"

definition ClerkPut :: "nat \<Rightarrow> (ClientRequestArgs \<Rightarrow> nat \<Rightarrow> nat \<Rightarrow> ClientRequestReply option) \<Rightarrow> Clerk \<Rightarrow>
    string \<Rightarrow> string \<Rightarrow> Clerk option" where
  "ClerkPut fuel call ck key value = ClerkPutAppend fuel call ck key value ''Put''"

definition ClerkAppend :: "nat \<Rightarrow> (ClientRequestArgs \<Rightarrow> nat \<Rightarrow> nat \<Rightarrow> ClientRequestReply option) \<Rightarrow> Clerk \<Rightarrow>
    string \<Rightarrow> string \<Rightarrow> Clerk option" where
  "ClerkAppend fuel call ck key value = ClerkPutAppend fuel call ck key value ''Append''"

end
