(* ===== verification/Kv_RaftSM.thy ===== *)
theory Kv_RaftSM
  imports Kv_Raft
begin

text \<open>
  The replicated server of \<^verbatim>\<open>src/src/kvraft/server.go\<close> as a state machine.  \<open>SM\<close> is the part of a server that
  is replicated and put into snapshots, \<open>smApply\<close> what a command does to it; the refinement lemmas show
  that the apply loop performs \<open>smApply\<close> on it whatever the Raft peer's role, the waiting requests and the size of the log.
  \<open>kvOK\<close> is the server's invariant.
\<close>

section \<open>The abstract state machine\<close>

record SM =
  smStore :: "(string, string) fmap"
  smMax :: "(int, int) fmap"
  smRest :: "(int, ClientRequestReply) fmap"

definition smInit :: SM where
  "smInit = \<lparr>smStore = fmempty, smMax = fmempty, smRest = fmempty\<rparr>"

definition storeGet :: "(string, string) fmap \<Rightarrow> string \<Rightarrow> string" where
  "storeGet st key = (case fmlookup st key of Some v \<Rightarrow> v | None \<Rightarrow> '''')"

definition execStore :: "Op \<Rightarrow> (string, string) fmap \<Rightarrow> (string, string) fmap" where
  "execStore c st = (case opOp c of
       OpGet \<Rightarrow> st
     | OpPut \<Rightarrow> fmupd (opKeyOf c) (opValue c) st
     | OpAppend \<Rightarrow> fmupd (opKeyOf c) (storeGet st (opKeyOf c) @ opValue c) st)"

definition execReply :: "Op \<Rightarrow> (string, string) fmap \<Rightarrow> ClientRequestReply" where
  "execReply c st = (case opOp c of
       OpGet \<Rightarrow> \<lparr>rpErr = (if fmlookup st (opKeyOf c) = None then NoKey else OK), rpValue = storeGet st (opKeyOf c)\<rparr>
     | _ \<Rightarrow> \<lparr>rpErr = OK, rpValue = ''''\<rparr>)"

definition smOld :: "Op \<Rightarrow> SM \<Rightarrow> bool" where
  "smOld c sm \<longleftrightarrow> (case fmlookup (smMax sm) (opClient c) of Some m \<Rightarrow> opSeq c \<le> m | None \<Rightarrow> False)"

definition smApply :: "Op \<Rightarrow> SM \<Rightarrow> SM" where
  "smApply c sm =
    (if smOld c sm then sm
     else \<lparr>smStore = execStore c (smStore sm), smMax = fmupd (opClient c) (opSeq c) (smMax sm),
           smRest = fmupd (opClient c) (execReply c (smStore sm)) (smRest sm)\<rparr>)"

definition smReply :: "Op \<Rightarrow> SM \<Rightarrow> ClientRequestReply option" where
  "smReply c sm = fmlookup (smRest (smApply c sm)) (opClient c)"

definition smRun :: "Op list \<Rightarrow> SM" where
  "smRun log = foldl (\<lambda>sm c. smApply c sm) smInit log"

lemma smRun_simps [simp]: "smRun [] = smInit" "smRun (log @ [c]) = smApply c (smRun log)"
  by (simp_all add: smRun_def)

section \<open>Refinement\<close>

text \<open>The replicated part of a server, when no map is nil.\<close>

definition absKv :: "KVServer \<Rightarrow> SM option" where
  "absKv kv = (case (Store kv, ClientMaxReq kv, ClientLastReqRest kv) of
      (Some a, Some b, Some c) \<Rightarrow> Some \<lparr>smStore = a, smMax = b, smRest = c\<rparr>
    | _ \<Rightarrow> None)"

lemma absKv_Some: "absKv kv = Some sm \<longleftrightarrow>
    Store kv = Some (smStore sm) \<and> ClientMaxReq kv = Some (smMax sm) \<and> ClientLastReqRest kv = Some (smRest sm)"
  by (cases sm) (auto simp: absKv_def split: option.splits)

lemma ApplyToStateMachine_refines:
  assumes "Store kv = Some st"
  shows "ApplyToStateMachine kv c = Some (kv\<lparr>Store := Some (execStore c st)\<rparr>, execReply c st)"
  using assms by (cases "opOp c"; cases "fmlookup st (opKeyOf c)")
    (simp_all add: ApplyToStateMachine_def StateMachineGet_def StateMachinePut_def StateMachineAppend_def
      mapGet_def mapSet_def execStore_def execReply_def storeGet_def emptyReply_def)

lemma executeCommand_refines:
  assumes "absKv kv = Some sm"
  shows "executeCommand c kv =
    Some (kv\<lparr>Store := Some (execStore c (smStore sm)), ClientLastReqRest := Some (fmupd (opClient c) (execReply c (smStore sm)) (smRest sm)),
       ClientMaxReq := Some (fmupd (opClient c) (opSeq c) (smMax sm))\<rparr>, Some (execReply c (smStore sm)))"
  using assms by (simp add: absKv_Some executeCommand_def ApplyToStateMachine_refines mapSet_def)

text \<open>What \<open>applyCommand\<close> leaves alone.\<close>

definition sameRest :: "KVServer \<Rightarrow> KVServer \<Rightarrow> bool" where
  "sameRest kv kv' \<longleftrightarrow> kvLastApplied kv' = kvLastApplied kv \<and> notifyChannel kv' = notifyChannel kv \<and>
     chans kv' = chans kv \<and> maxraftstate kv' = maxraftstate kv"

lemma applyCommand_refines:
  assumes "absKv kv = Some sm"
  shows "\<exists>kv'. applyCommand c kv = Some (kv', smReply c sm) \<and> absKv kv' = Some (smApply c sm) \<and> sameRest kv kv'"
proof (cases "smOld c sm")
  case True
  then show ?thesis using assms
    by (auto simp: applyCommand_def absKv_Some smOld_def smApply_def smReply_def mapGet_def sameRest_def
        split: option.splits)
next
  case False
  then have "applyCommand c kv = executeCommand c kv"
    using assms by (auto simp: applyCommand_def absKv_Some smOld_def mapGet_def split: option.splits)
  then show ?thesis using False
    by (simp add: executeCommand_refines[OF assms] absKv_Some smApply_def smReply_def sameRest_def)
qed

lemma absKv_frame [simp]:
  "absKv (kv\<lparr>kvLastApplied := i\<rparr>) = absKv kv" "absKv (kv\<lparr>chans := cs\<rparr>) = absKv kv"
  "absKv (kv\<lparr>notifyChannel := nc\<rparr>) = absKv kv"
  by (auto simp: absKv_def split: option.splits)

section \<open>The invariant of a server\<close>

text \<open>No map is nil, every client with a sequence number has a cached reply, and the channel of an index that has not
  been applied is empty and belongs to no other index.\<close>

definition chansOK :: "KVServer \<Rightarrow> bool" where
  "chansOK kv \<longleftrightarrow>
     (\<forall>i ch. fmlookup (notifyChannel kv) i = Some ch \<longrightarrow>
        ch < length (chans kv) \<and> (kvLastApplied kv < i \<longrightarrow> chans kv ! ch = []) \<and>
        (\<forall>j. fmlookup (notifyChannel kv) j = Some ch \<longrightarrow> j = i))"

definition smOK :: "SM \<Rightarrow> bool" where
  "smOK sm \<longleftrightarrow> fmdom' (smMax sm) \<subseteq> fmdom' (smRest sm)"

definition kvOK :: "KVServer \<Rightarrow> bool" where
  "kvOK kv \<longleftrightarrow> (\<exists>sm. absKv kv = Some sm \<and> smOK sm) \<and> chansOK kv"

lemma smOK_init [simp]: "smOK smInit"
  by (simp add: smOK_def smInit_def)

lemma smOK_apply: "smOK sm \<Longrightarrow> smOK (smApply c sm)"
  by (auto simp: smOK_def smApply_def)

lemma smOK_run: "smOK (smRun log)"
  by (induction log rule: rev_induct) (simp_all add: smOK_apply)

lemma smReply_not_nil:
  assumes "smOK sm"
  shows "smReply c sm \<noteq> None"
proof (cases "smOld c sm")
  case True
  then obtain m where "fmlookup (smMax sm) (opClient c) = Some m" by (auto simp: smOld_def split: option.splits)
  then have "opClient c \<in> fmdom' (smRest sm)" using assms by (auto simp: smOK_def fmdom'I)
  then show ?thesis using True by (auto simp: smReply_def smApply_def fmlookup_dom'_iff)
next
  case False
  then show ?thesis by (simp add: smReply_def smApply_def)
qed

lemma GetNotifyChannel_OK:
  assumes "chansOK kv" "GetNotifyChannel i kv = (kv1, ch)"
  shows "chansOK kv1" "fmlookup (notifyChannel kv1) i = Some ch" "absKv kv1 = absKv kv"
    "kvLastApplied kv1 = kvLastApplied kv" "maxraftstate kv1 = maxraftstate kv"
proof -
  show "fmlookup (notifyChannel kv1) i = Some ch" "absKv kv1 = absKv kv"
    "kvLastApplied kv1 = kvLastApplied kv" "maxraftstate kv1 = maxraftstate kv"
    using assms(2) by (auto simp: GetNotifyChannel_def absKv_def split: option.splits)
  show "chansOK kv1"
  proof (cases "fmlookup (notifyChannel kv) i")
    case None
    have lt: "c < length (chans kv)" if "fmlookup (notifyChannel kv) j = Some c" for j c
      using assms(1) that by (auto simp: chansOK_def)
    show ?thesis using assms None
      by (auto simp: GetNotifyChannel_def chansOK_def nth_append less_SucI dest: lt split: if_splits)
  qed (use assms in \<open>auto simp: GetNotifyChannel_def\<close>)
qed

text \<open>Sending on the channel of the index that has just been applied.\<close>

lemma chanSend_OK:
  assumes "chansOK kv" "fmlookup (notifyChannel kv) i = Some ch" "chans kv ! ch = []" "i \<le> kvLastApplied kv"
  shows "chanSend ch r kv = Runs (kv\<lparr>chans := (chans kv)[ch := [r]]\<rparr>)"
    and "chansOK (kv\<lparr>chans := (chans kv)[ch := [r]]\<rparr>)"
proof -
  have ch: "ch < length (chans kv)" "\<And>j. fmlookup (notifyChannel kv) j = Some ch \<Longrightarrow> j = i"
    using assms(1,2) unfolding chansOK_def by blast+
  then show "chanSend ch r kv = Runs (kv\<lparr>chans := (chans kv)[ch := [r]]\<rparr>)"
    using assms(3) by (simp add: chanSend_def)
  show "chansOK (kv\<lparr>chans := (chans kv)[ch := [r]]\<rparr>)"
    using assms(1,4) ch by (fastforce simp: chansOK_def nth_list_update)
qed

section \<open>One iteration of the apply loop\<close>

text \<open>A Raft log whose indices are consecutive, as far as its ends show it.\<close>

definition contiguous :: "('c, 's) Raft \<Rightarrow> bool" where
  "contiguous rf \<longleftrightarrow> rlog rf \<noteq> [] \<and>
     leIndex (last (rlog rf)) = leIndex (hd (rlog rf)) + int (length (rlog rf)) - 1"

lemma Snapshot_total: "contiguous rf \<Longrightarrow> Snapshot i s rf \<noteq> None"
  by (auto simp: contiguous_def Snapshot_def GetFirstLog_def GetLastLog_def hd_conv_nth last_conv_nth go_defs
      nat_diff_distrib split: if_splits)

lemma snapShotIfLarge_total:
  assumes "contiguous rf"
  shows "\<exists>rf'. snapShotIfLarge bytesOf i rf kv = Runs (kv, rf')"
  using Snapshot_total[OF assms, of i "encodeSnapShot kv"]
  by (auto simp: snapShotIfLarge_def TakeSnapShot_def split: option.splits)

text \<open>What a notification does to the channels.\<close>

definition notified :: "int \<Rightarrow> ClientRequestReply option \<Rightarrow> bool \<Rightarrow> KVServer \<Rightarrow> KVServer \<Rightarrow> bool" where
  "notified i r lead kv kv' \<longleftrightarrow>
    (if lead then (let (kv1, ch) = GetNotifyChannel i kv in
        notifyChannel kv' = notifyChannel kv1 \<and> chans kv' = (chans kv1)[ch := [r]])
     else notifyChannel kv' = notifyChannel kv \<and> chans kv' = chans kv)"

lemma notified_cong:
  "notifyChannel kv = notifyChannel k \<Longrightarrow> chans kv = chans k \<Longrightarrow> notified i r lead kv kv' = notified i r lead k kv'"
  by (auto simp: notified_def GetNotifyChannel_def split: option.splits prod.splits)

lemma notifyLeader_OK:
  assumes ok: "chansOK kv" and i: "i \<le> kvLastApplied kv"
    and empty: "\<And>ch. fmlookup (notifyChannel kv) i = Some ch \<Longrightarrow> chans kv ! ch = []"
  shows "\<exists>kv'. notifyLeader i r rf kv = Runs kv' \<and> chansOK kv' \<and> absKv kv' = absKv kv \<and>
    kvLastApplied kv' = kvLastApplied kv \<and> notified i r (state rf = Leader) kv kv'"
proof (cases "state rf = Leader")
  case True
  obtain kv1 ch where g: "GetNotifyChannel i kv = (kv1, ch)" by (cases "GetNotifyChannel i kv")
  note G = GetNotifyChannel_OK[OF ok g]
  have "chans kv1 ! ch = []" using g empty by (auto simp: GetNotifyChannel_def split: option.splits)
  from chanSend_OK[OF G(1,2) this] i G(4) have
    "chanSend ch r kv1 = Runs (kv1\<lparr>chans := (chans kv1)[ch := [r]]\<rparr>)" "chansOK (kv1\<lparr>chans := (chans kv1)[ch := [r]]\<rparr>)"
    by auto
  then show ?thesis using True g G(3,4) by (simp add: notifyLeader_def notified_def GetState_def)
next
  case False
  then show ?thesis using ok by (simp add: notifyLeader_def notified_def GetState_def)
qed

text \<open>A command of an index that has not been applied: the loop neither blocks nor panics, and the replicated part
  makes one step of the abstract machine.\<close>

lemma ApplyTicket_command:
  assumes m: "amCommandValid m" "amCommand m = Some c" "kvLastApplied kv < amCommandIndex m"
    and ok: "kvOK kv" "absKv kv = Some sm" and rf: "contiguous rf"
  obtains kv' rf' where "ApplyTicket bytesOf m rf kv = Runs (kv', rf')" "absKv kv' = Some (smApply c sm)"
    "kvOK kv'" "kvLastApplied kv' = amCommandIndex m"
    "notified (amCommandIndex m) (smReply c sm) (state rf = Leader) kv kv'"
proof -
  let ?i = "amCommandIndex m" and ?kv0 = "kv\<lparr>kvLastApplied := amCommandIndex m\<rparr>"
  have "absKv ?kv0 = Some sm" using ok(2) by simp
  then obtain kv1 where a: "applyCommand c ?kv0 = Some (kv1, smReply c sm)" "absKv kv1 = Some (smApply c sm)"
      "sameRest ?kv0 kv1"
    using applyCommand_refines by blast
  have s: "kvLastApplied kv1 = ?i" "notifyChannel kv1 = notifyChannel kv" "chans kv1 = chans kv"
    using a(3) by (auto simp: sameRest_def)
  have c: "chansOK kv" using ok(1) by (simp add: kvOK_def)
  then have c1: "chansOK kv1" using m(3) unfolding chansOK_def s by fastforce
  have e1: "chans kv1 ! ch = []" if "fmlookup (notifyChannel kv1) ?i = Some ch" for ch
    using that c m(3) s unfolding chansOK_def by auto
  obtain kv2 where n: "notifyLeader ?i (smReply c sm) rf kv1 = Runs kv2" "chansOK kv2" "absKv kv2 = absKv kv1"
      "kvLastApplied kv2 = kvLastApplied kv1" "notified ?i (smReply c sm) (state rf = Leader) kv1 kv2"
    using notifyLeader_OK[OF c1, of ?i "smReply c sm" rf] e1 s(1) by auto
  obtain rf' where t: "snapShotIfLarge bytesOf ?i rf kv2 = Runs (kv2, rf')"
    using snapShotIfLarge_total[OF rf] by blast
  have "ApplyTicket bytesOf m rf kv = Runs (kv2, rf')" using m a(1) n(1) t by (simp add: ApplyTicket_def)
  moreover have "kvOK kv2" using n a(2) ok smOK_apply by (auto simp: kvOK_def)
  moreover have "notified ?i (smReply c sm) (state rf = Leader) kv kv2"
    using n(5) notified_cong[of kv1 kv] s by simp
  ultimately show ?thesis using that n a(2) s(1) by simp
qed

lemma ApplyTicket_old:
  "amCommandValid m \<Longrightarrow> amCommandIndex m \<le> kvLastApplied kv \<Longrightarrow> ApplyTicket bytesOf m rf kv = Runs (kv, rf)"
  by (simp add: ApplyTicket_def)

section \<open>Snapshots\<close>

definition restored :: "SM \<Rightarrow> KVServer \<Rightarrow> KVServer" where
  "restored sm kv = kv\<lparr>Store := Some (smStore sm), ClientMaxReq := Some (smMax sm), ClientLastReqRest := Some (smRest sm)\<rparr>"

lemma encode_abs:
  "absKv kv = Some sm \<Longrightarrow> encodeSnapShot kv = [GStore (smStore sm), GMaxReq (smMax sm), GLastRest (smRest sm)]"
  by (simp add: absKv_Some encodeSnapShot_def)

lemma restore_encode: "absKv kv = Some sm \<Longrightarrow> RestoreSnapShot (encodeSnapShot kv) kv' = restored sm kv'"
  by (simp add: encode_abs RestoreSnapShot_def restored_def)

lemma absKv_restored [simp]: "absKv (restored sm kv) = Some sm"
  by (simp add: absKv_Some restored_def)

lemma restored_sel [simp]:
  "chansOK (restored sm kv) = chansOK kv" "kvLastApplied (restored sm kv) = kvLastApplied kv"
  "notifyChannel (restored sm kv) = notifyChannel kv" "chans (restored sm kv) = chans kv"
  by (simp_all add: restored_def chansOK_def)

end
