(* ===== verification/Raft_Service.thy ===== *)
theory Raft_Service
  imports Raft_Apply
begin

text \<open>
  The interface between Raft and a service that consumes \<open>applyCh\<close>.  A service handles one message at a time; \<open>feed\<close> is
  its loop over the messages it receives, each with the Raft peer as it is at that moment.  The locale states what makes a
  service a replicated state machine: handling a command neither blocks nor panics, and what it does to the replicated part of
  the service depends on the command alone.  Its lemmas say that services that receive the same commands hold the same state,
  and that a snapshot may stand for a prefix of the commands.
\<close>

fun feed :: "(('c, 's) ApplyMsg \<Rightarrow> ('c, 's) Raft \<Rightarrow> 'k \<Rightarrow> ('k \<times> ('c, 's) Raft) outcome) \<Rightarrow>
    (('c, 's) ApplyMsg \<times> ('c, 's) Raft) list \<Rightarrow> 'k \<Rightarrow> 'k outcome" where
  "feed handle [] k = Runs k"
| "feed handle ((m, rf) # ms) k =
     (case handle m rf k of
        Runs (k', rf') \<Rightarrow> feed handle ms k'
      | Blocked \<Rightarrow> Blocked
      | Panics \<Rightarrow> Panics)"

text \<open>Messages that carry commands, with indices that grow beyond \<open>i\<close>.\<close>

fun commandsFrom :: "int \<Rightarrow> (('c, 's) ApplyMsg \<times> ('c, 's) Raft) list \<Rightarrow> bool" where
  "commandsFrom i [] \<longleftrightarrow> True"
| "commandsFrom i ((m, rf) # ms) \<longleftrightarrow>
     amCommandValid m \<and> amCommand m \<noteq> None \<and> i < amCommandIndex m \<and> commandsFrom (amCommandIndex m) ms"

definition commandsOf :: "(('c, 's) ApplyMsg \<times> ('c, 's) Raft) list \<Rightarrow> 'c list" where
  "commandsOf ms = map (\<lambda>(m, rf). the (amCommand m)) ms"

locale raft_service =
  fixes handle :: "('c, 's) ApplyMsg \<Rightarrow> ('c, 's) Raft \<Rightarrow> 'k \<Rightarrow> ('k \<times> ('c, 's) Raft) outcome"
    and view :: "'k \<Rightarrow> 'v"
    and good :: "'k \<Rightarrow> bool"
    and applied :: "'k \<Rightarrow> int"
    and perform :: "'c \<Rightarrow> 'v \<Rightarrow> 'v"
    and rfOK :: "('c, 's) Raft \<Rightarrow> bool"
  assumes handle_command:
    "good k \<Longrightarrow> amCommandValid m \<Longrightarrow> amCommand m = Some c \<Longrightarrow> applied k < amCommandIndex m \<Longrightarrow> rfOK rf \<Longrightarrow>
       \<exists>k' rf'. handle m rf k = Runs (k', rf') \<and> good k' \<and> view k' = perform c (view k) \<and>
         applied k' = amCommandIndex m"
begin

lemma feed_commands:
  assumes "good k" "commandsFrom (applied k) ms" "\<forall>(m, rf) \<in> set ms. rfOK rf"
  shows "\<exists>k'. feed handle ms k = Runs k' \<and> good k' \<and>
    view k' = foldl (\<lambda>v c. perform c v) (view k) (commandsOf ms)"
  using assms
proof (induction ms arbitrary: k)
  case Nil
  then show ?case by (simp add: commandsOf_def)
next
  case (Cons mrf ms)
  obtain m rf where mrf: "mrf = (m, rf)" by (cases mrf)
  obtain c where c: "amCommand m = Some c" using Cons.prems(2) mrf by auto
  obtain k1 rf1 where h: "handle m rf k = Runs (k1, rf1)" "good k1" "view k1 = perform c (view k)"
      "applied k1 = amCommandIndex m"
    using handle_command[of k m c rf] Cons.prems c mrf by auto
  have "\<exists>k'. feed handle ms k1 = Runs k' \<and> good k' \<and>
      view k' = foldl (\<lambda>v c. perform c v) (view k1) (commandsOf ms)"
    by (rule Cons.IH) (use h Cons.prems mrf in auto)
  then show ?case using h c by (simp add: mrf commandsOf_def)
qed

lemma replicas_agree:
  assumes "good k" "commandsFrom (applied k) ms" "\<forall>(m, rf) \<in> set ms. rfOK rf"
    and "good k'" "commandsFrom (applied k') ms'" "\<forall>(m, rf) \<in> set ms'. rfOK rf"
    and "view k = view k'" "commandsOf ms = commandsOf ms'"
  shows "\<exists>r r'. feed handle ms k = Runs r \<and> feed handle ms' k' = Runs r' \<and> view r = view r' \<and> good r \<and> good r'"
  using feed_commands[OF assms(1-3)] feed_commands[OF assms(4-6)] assms(7,8) by auto

end

text \<open>A service that can also install the snapshot of another one.\<close>

locale raft_snapshot_service = raft_service handle view good applied perform rfOK
  for handle :: "('c, 's) ApplyMsg \<Rightarrow> ('c, 's) Raft \<Rightarrow> 'k \<Rightarrow> ('k \<times> ('c, 's) Raft) outcome"
    and view :: "'k \<Rightarrow> 'v"
    and good :: "'k \<Rightarrow> bool"
    and applied :: "'k \<Rightarrow> int"
    and perform :: "'c \<Rightarrow> 'v \<Rightarrow> 'v"
    and rfOK :: "('c, 's) Raft \<Rightarrow> bool" +
  fixes encode :: "'k \<Rightarrow> 's list"
  assumes install_snapshot:
    "good k \<Longrightarrow> good j \<Longrightarrow> \<not> amCommandValid m \<Longrightarrow> amSnapshotValid m \<Longrightarrow> amSnapshot m = encode j \<Longrightarrow>
       \<exists>k'. handle m rf k = Runs (k', rf) \<and> good k' \<and> view k' = view j \<and> applied k' = applied k"
begin

text \<open>Catching up by a snapshot is the same as catching up by the commands it stands for.\<close>

lemma snapshot_for_prefix:
  assumes "good k0" "commandsFrom (applied k0) pre" "\<forall>(m, rf) \<in> set pre. rfOK rf" "feed handle pre k0 = Runs j"
    and "good k" "commandsFrom (applied k) post" "\<forall>(m, rf) \<in> set post. rfOK rf"
    and "\<not> amCommandValid m" "amSnapshotValid m" "amSnapshot m = encode j"
  shows "\<exists>k'. feed handle ((m, rf) # post) k = Runs k' \<and> good k' \<and>
    view k' = foldl (\<lambda>v c. perform c v) (view k0) (commandsOf pre @ commandsOf post)"
proof -
  have j: "good j" "view j = foldl (\<lambda>v c. perform c v) (view k0) (commandsOf pre)"
    using feed_commands[OF assms(1-3)] assms(4) by auto
  obtain k1 where k1: "handle m rf k = Runs (k1, rf)" "good k1" "view k1 = view j" "applied k1 = applied k"
    using install_snapshot[OF assms(5) j(1) assms(8-10)] by blast
  then have "\<exists>k'. feed handle post k1 = Runs k' \<and> good k' \<and>
      view k' = foldl (\<lambda>v c. perform c v) (view k1) (commandsOf post)"
    using feed_commands[OF k1(2), of post] assms(6,7) by simp
  then show ?thesis using k1 j by simp
qed

end

end
