(* ===== verification/Kv_RaftProps.thy ===== *)
theory Kv_RaftProps
  imports Kv_RaftSM Raft_Service Raft_Props
begin

text \<open>
  Properties of the replicated key/value server: on top of the Raft cluster its replicas agree, commands take effect once,
  a snapshot stands for the commands before it, the apply loop never gets stuck, and the clerk's loop finds a server that answers.
  One property shows a flaw: a waiting request is matched with the result of a command by the log index alone.
\<close>

section \<open>The server is a service of Raft\<close>

interpretation kvsvc: raft_service "ApplyTicket bytesOf" absKv kvOK kvLastApplied "\<lambda>c. map_option (smApply c)" contiguous
proof unfold_locales
  fix k c and m :: "(Op, kvgob) ApplyMsg" and rf :: "(Op, kvgob) Raft"
  assume a: "kvOK k" "amCommandValid m" "amCommand m = Some c" "kvLastApplied k < amCommandIndex m" "contiguous rf"
  obtain sm where sm: "absKv k = Some sm" using a(1) by (auto simp: kvOK_def)
  obtain k' rf' where "ApplyTicket bytesOf m rf k = Runs (k', rf')" "absKv k' = Some (smApply c sm)" "kvOK k'"
      "kvLastApplied k' = amCommandIndex m"
    using ApplyTicket_command[OF a(2,3,4,1) sm a(5)] by metis
  then show "\<exists>k' rf'. ApplyTicket bytesOf m rf k = Runs (k', rf') \<and> kvOK k' \<and>
      absKv k' = map_option (smApply c) (absKv k) \<and> kvLastApplied k' = amCommandIndex m"
    using sm by auto
qed

interpretation kvsnap: raft_snapshot_service "ApplyTicket bytesOf" absKv kvOK kvLastApplied
  "\<lambda>c. map_option (smApply c)" contiguous encodeSnapShot
proof unfold_locales
  fix k j and m :: "(Op, kvgob) ApplyMsg" and rf :: "(Op, kvgob) Raft"
  assume a: "kvOK k" "kvOK j" "\<not> amCommandValid m" "amSnapshotValid m" "amSnapshot m = encodeSnapShot j"
  obtain sm where sm: "absKv j = Some sm" "smOK sm" using a(2) by (auto simp: kvOK_def)
  have "ApplyTicket bytesOf m rf k = Runs (restored sm k, rf)"
    using a(3-5) by (simp add: ApplyTicket_def restore_encode[OF sm(1)])
  then show "\<exists>k'. ApplyTicket bytesOf m rf k = Runs (k', rf) \<and> kvOK k' \<and> absKv k' = absKv j \<and>
      kvLastApplied k' = kvLastApplied k"
    using a(1) sm by (auto simp: kvOK_def)
qed

text \<open>A server started on blank storage.\<close>

definition freshKv :: "nat \<Rightarrow> int \<Rightarrow> KVServer" where
  "freshKv self maxrs = \<lparr>kvMe = self, kvDead = 0, maxraftstate = maxrs, kvLastApplied = -1, Store = Some fmempty,
     ClientMaxReq = Some fmempty, ClientLastReqRest = Some fmempty, notifyChannel = fmempty, chans = []\<rparr>"

lemma freshKv_OK: "kvOK (freshKv self maxrs)" "absKv (freshKv self maxrs) = Some smInit" "kvLastApplied (freshKv self maxrs) = -1"
proof -
  show a: "absKv (freshKv self maxrs) = Some smInit" by (simp add: absKv_Some freshKv_def smInit_def)
  show "kvOK (freshKv self maxrs)" unfolding kvOK_def a by (simp add: chansOK_def freshKv_def)
qed (simp add: freshKv_def)

lemma StartKVServer_fresh:
  "psSnapshot ps = [] \<Longrightarrow> StartKVServer now n self ps maxrs = Some (kv, rf) \<Longrightarrow> kv = freshKv self maxrs"
  by (auto simp: StartKVServer_def RestoreSnapShot_def ReadSnapshot_def freshKv_def split: bind_splits)

lemma foldl_smApply: "foldl (\<lambda>v c. map_option (smApply c) v) (Some sm) cs = Some (foldl (\<lambda>s c. smApply c s) sm cs)"
  by (induction cs arbitrary: sm) simp_all

lemma feed_fresh:
  assumes "commandsFrom (-1) ms" "\<forall>(m, rf) \<in> set ms. contiguous rf"
  shows "\<exists>kv. feed (ApplyTicket bytesOf) ms (freshKv self maxrs) = Runs kv \<and> kvOK kv \<and> absKv kv = Some (smRun (commandsOf ms))"
  using kvsvc.feed_commands[OF freshKv_OK(1)[of self maxrs], where ms = ms and bytesOf = bytesOf] assms
  by (simp add: freshKv_OK foldl_smApply smRun_def)

section \<open>Replication\<close>

text \<open>What two services have received up to the same index from a reachable cluster is the same list of commands.\<close>

lemma commandsOf_agree:
  assumes "reachable n sy" "map (amCommandIndex \<circ> fst) ms = map (amCommandIndex \<circ> fst) ms'"
    and "\<forall>(m, rf) \<in> set ms. m \<in> history sy \<and> amCommandValid m" "\<forall>(m, rf) \<in> set ms'. m \<in> history sy \<and> amCommandValid m"
  shows "commandsOf ms = commandsOf ms'"
  using assms(2-4)
proof (induction ms ms' rule: list_induct2')
  case (4 x ms y ms')
  then show ?case using history_agree[OF assms(1), of "fst x" "fst y"]
    by (cases x; cases y) (auto simp: commandsOf_def)
qed (auto simp: commandsOf_def)

text \<open>C16: replicas of the key/value service agree.  Two servers on a reachable Raft cluster that started on blank storage and
  have received the commands of the same log indices, in order, have applied all of them without blocking or panicking, and
  hold the same store, the same table of sequence numbers and the same cached replies, whatever role their
  Raft peers had and whatever the snapshot threshold of each is.\<close>

theorem kv_replicas_agree:
  assumes "reachable n sy"
    and "\<forall>(m, rf) \<in> set ms. m \<in> history sy \<and> amCommandValid m \<and> contiguous rf" "commandsFrom (-1) ms"
    and "\<forall>(m, rf) \<in> set ms'. m \<in> history sy \<and> amCommandValid m \<and> contiguous rf" "commandsFrom (-1) ms'"
    and "map (amCommandIndex \<circ> fst) ms = map (amCommandIndex \<circ> fst) ms'"
    and "psSnapshot ps = []" "StartKVServer now n i ps maxrs = Some (kv, rf)"
    and "psSnapshot ps' = []" "StartKVServer now' n i' ps' maxrs' = Some (kv', rf')"
  shows "\<exists>r r'. feed (ApplyTicket bytesOf) ms kv = Runs r \<and> feed (ApplyTicket bytesOf) ms' kv' = Runs r' \<and>
    Store r = Store r' \<and> ClientMaxReq r = ClientMaxReq r' \<and> ClientLastReqRest r = ClientLastReqRest r' \<and> Store r \<noteq> None"
proof -
  have "commandsOf ms = commandsOf ms'" by (rule commandsOf_agree[OF assms(1,6)]) (use assms(2,4) in auto)
  moreover obtain r where "feed (ApplyTicket bytesOf) ms kv = Runs r" "absKv r = Some (smRun (commandsOf ms))"
    using feed_fresh[OF assms(3), of bytesOf i maxrs] assms(2) StartKVServer_fresh[OF assms(7,8)] by auto
  moreover obtain r' where "feed (ApplyTicket bytesOf) ms' kv' = Runs r'" "absKv r' = Some (smRun (commandsOf ms'))"
    using feed_fresh[OF assms(5), of bytesOf i' maxrs'] assms(4) StartKVServer_fresh[OF assms(9,10)] by auto
  ultimately show ?thesis by (auto simp: absKv_Some)
qed

lemma demo_contiguous: "contiguous demoApplied" "contiguous demoLearned"
  by (simp_all add: contiguous_def demoApplied_def demoLearned_def demoRf_def demoE_def dummyLog_def)

theorem kv_replicas_agree_witness:
  "\<exists>r r'. feed (ApplyTicket (\<lambda>_. 0)) [(demoMsg, demoApplied)] (freshKv 0 (-1)) = Runs r \<and>
    feed (ApplyTicket (\<lambda>_. 0)) [(demoMsg, demoLearned)] (freshKv 1 8000) = Runs r' \<and> Store r = Store r'"
proof -
  let ?ps = "MakePersister :: (Op, kvgob) Persister"
  have s: "StartKVServer 0 2 0 ?ps (-1) = Some (freshKv 0 (-1), demoInit 0)"
    "StartKVServer 0 2 1 ?ps 8000 = Some (freshKv 1 8000, demoInit 1)"
    unfolding StartKVServer_def demo_evals by (simp_all add: freshKv_def RestoreSnapShot_def ReadSnapshot_def MakePersister_def)
  have "m \<in> history demo_learned \<and> amCommandValid m" if "m = demoMsg" for m
    using that by (simp add: demo_learned_sel demoMsg_def commandMsg_def)
  moreover have "commandsFrom (-1) [(demoMsg, rf)]" for rf
    by (simp add: demoMsg_def commandMsg_def demoE_def)
  ultimately have "\<exists>r r'. feed (ApplyTicket (\<lambda>_. 0)) [(demoMsg, demoApplied)] (freshKv 0 (-1)) = Runs r \<and>
      feed (ApplyTicket (\<lambda>_. 0)) [(demoMsg, demoLearned)] (freshKv 1 8000) = Runs r' \<and>
      Store r = Store r' \<and> ClientMaxReq r = ClientMaxReq r' \<and> ClientLastReqRest r = ClientLastReqRest r' \<and> Store r \<noteq> None"
    by (intro kv_replicas_agree[OF demo_learned_reachable _ _ _ _ _ _ s(1) _ s(2)])
      (simp_all add: demo_contiguous MakePersister_def)
  then show ?thesis by blast
qed

section \<open>Exactly once\<close>

text \<open>The commands of a log that take effect: those with a sequence number beyond what their client was served before.\<close>

definition effectiveOps :: "Op list \<Rightarrow> Op list" where
  "effectiveOps log = snd (foldl (\<lambda>(sm, es) c. (smApply c sm, if smOld c sm then es else es @ [c])) (smInit, []) log)"

lemma effectiveOps_simps [simp]:
  "effectiveOps [] = []"
  "effectiveOps (log @ [c]) = (if smOld c (smRun log) then effectiveOps log else effectiveOps log @ [c])"
proof -
  define f where "f = (\<lambda>(sm, es) c. (smApply c sm, if smOld c sm then es else es @ [c]))"
  have "fst (foldl f (smInit, []) log) = smRun log"
    by (induction log rule: rev_induct) (auto simp: f_def split: prod.splits)
  then obtain es where "foldl f (smInit, []) log = (smRun log, es)" by (metis prod.collapse)
  then show "effectiveOps (log @ [c]) = (if smOld c (smRun log) then effectiveOps log else effectiveOps log @ [c])"
    unfolding effectiveOps_def f_def[symmetric] by (simp add: f_def)
qed (simp add: effectiveOps_def)

lemma smRun_store: "smStore (smRun log) = foldl (\<lambda>st c. execStore c st) fmempty (effectiveOps log)"
  by (induction log rule: rev_induct) (simp_all add: smInit_def smApply_def)

lemma smRun_max:
  "c \<in> set (effectiveOps log) \<Longrightarrow> \<exists>m. fmlookup (smMax (smRun log)) (opClient c) = Some m \<and> opSeq c \<le> m"
  "fmlookup (smMax (smRun log)) k = Some m \<Longrightarrow> \<exists>c \<in> set (effectiveOps log). opClient c = k \<and> opSeq c = m"
proof (induction log arbitrary: c k m rule: rev_induct)
  case (snoc d log)
  {
    case 1
    then show ?case using snoc(1)[of c]
      by (auto simp: smApply_def smOld_def split: if_splits option.splits)
  next
    case 2
    then show ?case using snoc(2)[of k m] by (auto simp: smApply_def split: if_splits)
  }
qed (auto simp: smInit_def)

lemma effectiveOps_sorted:
  "sorted_wrt (\<lambda>a b. opClient a = opClient b \<longrightarrow> opSeq a < opSeq b) (effectiveOps log)"
proof (induction log rule: rev_induct)
  case (snoc c log)
  have "opSeq a < opSeq c" if "a \<in> set (effectiveOps log)" "opClient a = opClient c" "\<not> smOld c (smRun log)" for a
    using smRun_max(1)[OF that(1)] that(2,3) by (auto simp: smOld_def)
  then show ?case using snoc by (auto simp: sorted_wrt_append)
qed simp

lemma effectiveOps_covers:
  assumes "c \<in> set log"
  shows "\<exists>d \<in> set (effectiveOps log). opClient d = opClient c \<and> opSeq c \<le> opSeq d"
  using assms
proof (induction log rule: rev_induct)
  case (snoc e log)
  show ?case
  proof (cases "smOld e (smRun log)")
    case True
    then obtain m where "fmlookup (smMax (smRun log)) (opClient e) = Some m" "opSeq e \<le> m"
      by (auto simp: smOld_def split: option.splits)
    then have "\<exists>d \<in> set (effectiveOps log). opClient d = opClient e \<and> opSeq e \<le> opSeq d"
      using smRun_max(2) by blast
    then show ?thesis using snoc True by auto
  qed (use snoc in auto)
qed simp

text \<open>C17: commands of the replicated service take effect once.  A fresh server that receives a log in which requests may occur
  any number of times ends with the store that results from a list of commands in which no request of a client
  occurs twice, a client's commands stand in the order of their sequence numbers, and every command of the log is there or a
  later one of its client is.\<close>

theorem kvraft_exactly_once:
  assumes "commandsFrom (-1) ms" and "\<forall>(m, rf) \<in> set ms. contiguous rf"
  shows "\<exists>kv es. feed (ApplyTicket bytesOf) ms (freshKv self maxrs) = Runs kv \<and>
    Store kv = Some (foldl (\<lambda>st c. execStore c st) fmempty es) \<and> set es \<subseteq> set (commandsOf ms) \<and>
    sorted_wrt (\<lambda>a b. opClient a = opClient b \<longrightarrow> opSeq a < opSeq b) es \<and>
    (\<forall>c \<in> set (commandsOf ms). \<exists>d \<in> set es. opClient d = opClient c \<and> opSeq c \<le> opSeq d)"
proof -
  obtain kv where kv: "feed (ApplyTicket bytesOf) ms (freshKv self maxrs) = Runs kv" "absKv kv = Some (smRun (commandsOf ms))"
    using feed_fresh[OF assms] by blast
  have "set (effectiveOps log) \<subseteq> set log" for log by (induction log rule: rev_induct) auto
  then show ?thesis using kv effectiveOps_sorted effectiveOps_covers
    by (intro exI[of _ kv] exI[of _ "effectiveOps (commandsOf ms)"]) (simp add: absKv_Some smRun_store)
qed

definition putA :: Op where
  "putA = \<lparr>opOp = OpAppend, opKeyOf = ''k'', opValue = ''a'', opClient = 5, opSeq = 1\<rparr>"

definition cmdMsg :: "int \<Rightarrow> Op \<Rightarrow> (Op, kvgob) ApplyMsg" where
  "cmdMsg i c = commandMsg \<lparr>leTerm = 1, leIndex = i, leData = Some c\<rparr>"

lemma cmdMsg_sel [simp]:
  "amCommandValid (cmdMsg i c)" "amCommand (cmdMsg i c) = Some c" "amCommandIndex (cmdMsg i c) = i"
  by (simp_all add: cmdMsg_def commandMsg_def)

theorem kvraft_exactly_once_witness:
  "\<exists>kv es. feed (ApplyTicket (\<lambda>_. 0)) [(cmdMsg 1 demoOp, demoApplied), (cmdMsg 2 putA, demoApplied), (cmdMsg 3 putA, demoApplied)]
      (freshKv 0 (-1)) = Runs kv \<and> Store kv = Some (foldl (\<lambda>st c. execStore c st) fmempty es) \<and>
    (\<exists>d \<in> set es. opClient d = opClient putA \<and> opSeq putA \<le> opSeq d)"
proof -
  let ?ms = "[(cmdMsg 1 demoOp, demoApplied), (cmdMsg 2 putA, demoApplied), (cmdMsg 3 putA, demoApplied)]"
  have "commandsFrom (-1) ?ms" "\<forall>(m, rf) \<in> set ?ms. contiguous rf" by (simp_all add: demo_contiguous)
  from kvraft_exactly_once[OF this, of "\<lambda>_. 0" 0 "-1"] obtain kv es where
    "feed (ApplyTicket (\<lambda>_. 0)) ?ms (freshKv 0 (-1)) = Runs kv"
    "Store kv = Some (foldl (\<lambda>st c. execStore c st) fmempty es)"
    "\<forall>c \<in> set (commandsOf ?ms). \<exists>d \<in> set es. opClient d = opClient c \<and> opSeq c \<le> opSeq d" by blast
  then show ?thesis by (auto simp: commandsOf_def)
qed

section \<open>Snapshots\<close>

text \<open>C18: a snapshot stands for the commands before it.  A server that installs the snapshot another server takes after some
  commands, and then receives further commands, holds the same replicated state as one that has received all commands.\<close>

theorem kv_snapshot_catch_up:
  assumes "commandsFrom (-1) pre" "\<forall>(m, rf) \<in> set pre. contiguous rf"
    and "feed (ApplyTicket bytesOf) pre (freshKv i maxrs) = Runs donor"
    and "commandsFrom (-1) post" "\<forall>(m, rf) \<in> set post. contiguous rf"
    and "\<not> amCommandValid s" "amSnapshotValid s" "amSnapshot s = encodeSnapShot donor"
  shows "\<exists>kv. feed (ApplyTicket bytesOf) ((s, rf) # post) (freshKv j maxrs') = Runs kv \<and>
    absKv kv = Some (smRun (commandsOf pre @ commandsOf post))"
  using kvsnap.snapshot_for_prefix[OF freshKv_OK(1)[of i maxrs] _ assms(2,3) freshKv_OK(1)[of j maxrs'] _ assms(5-8), of rf]
    assms(1,4) by (auto simp: freshKv_OK foldl_smApply smRun_def simp del: feed.simps)

theorem kv_snapshot_catch_up_witness:
  "\<exists>donor. feed (ApplyTicket (\<lambda>_. 0)) [(cmdMsg 1 demoOp, demoApplied)] (freshKv 0 (-1)) = Runs donor \<and>
    (\<exists>kv. feed (ApplyTicket (\<lambda>_. 0)) [(snapshotMsg (encodeSnapShot donor) 1 1, demoLearned), (cmdMsg 2 putA, demoLearned)]
        (freshKv 1 (-1)) = Runs kv \<and> absKv kv = Some (smRun [demoOp, putA]))"
proof -
  have 1: "commandsFrom (-1) [(cmdMsg 1 demoOp, demoApplied)]" "\<forall>(m, rf) \<in> set [(cmdMsg 1 demoOp, demoApplied)]. contiguous rf"
    by (simp_all add: demo_contiguous)
  have 2: "commandsFrom (-1) [(cmdMsg 2 putA, demoLearned)]" "\<forall>(m, rf) \<in> set [(cmdMsg 2 putA, demoLearned)]. contiguous rf"
    by (simp_all add: demo_contiguous)
  obtain donor where d: "feed (ApplyTicket (\<lambda>_. 0)) [(cmdMsg 1 demoOp, demoApplied)] (freshKv 0 (-1)) = Runs donor"
    using feed_fresh[OF 1] by blast
  from kv_snapshot_catch_up[OF 1 d 2, of "snapshotMsg (encodeSnapShot donor) 1 1" demoLearned 1 "-1"] d
  show ?thesis by (auto simp: snapshotMsg_def commandsOf_def simp del: feed.simps)
qed

text \<open>C19: a snapshot that cannot be decoded disables the server.  \<open>RestoreSnapShot\<close> goes on after a failed decode, and the next
  new command panics on a nil map.\<close>

theorem kv_bad_snapshot_panics:
  assumes "snap \<noteq> []" "decodeSnapShot snap = (a, b, None)"
    and "amCommandValid m" "amCommand m = Some c" "kvLastApplied kv < amCommandIndex m"
    and "\<forall>k. b = Some k \<longrightarrow> (\<forall>q. fmlookup k (opClient c) = Some q \<longrightarrow> q < opSeq c)"
  shows "ApplyTicket bytesOf m rf (RestoreSnapShot snap kv) = Panics"
proof -
  let ?kv = "(RestoreSnapShot snap kv)\<lparr>kvLastApplied := amCommandIndex m\<rparr>"
  have r: "ClientLastReqRest ?kv = None" "ClientMaxReq ?kv = b" "kvLastApplied (RestoreSnapShot snap kv) = kvLastApplied kv"
    using assms(1,2) by (auto simp: RestoreSnapShot_def)
  have "ClientLastReqRest kv1 = None" if "ApplyToStateMachine k c = Some (kv1, rep)" "ClientLastReqRest k = None" for k kv1 rep
    using that by (auto simp: ApplyToStateMachine_def StateMachinePut_def StateMachineAppend_def Let_def
        split: OperationOp.splits bind_splits prod.splits)
  then have "executeCommand c ?kv = None"
    using r(1) by (auto simp: executeCommand_def mapSet_def split: bind_splits option.splits)
  then have "applyCommand c ?kv = None"
    using assms(6) r(2) by (auto simp: applyCommand_def mapGet_def split: option.splits)
  then show ?thesis using assms(3-5) r(3) by (simp add: ApplyTicket_def)
qed

theorem kv_bad_snapshot_panics_witness:
  "ApplyTicket (\<lambda>_. 0) (cmdMsg 1 demoOp) demoApplied (RestoreSnapShot [GStore fmempty] (freshKv 0 (-1))) = Panics"
  by (rule kv_bad_snapshot_panics[of _ "Some fmempty" None]) (simp_all add: freshKv_def)

section \<open>The apply loop is never stuck\<close>

text \<open>The life of a server: it starts blank or from the snapshot of another one, requests register channels, read results and
  remove channels, and the loop handles commands and snapshots.\<close>

inductive kvLive :: "KVServer \<Rightarrow> bool" where
  boot: "kvLive (freshKv self maxrs)"
| reboot: "kvLive j \<Longrightarrow> kvLive (RestoreSnapShot (encodeSnapShot j) (freshKv self maxrs))"
| register: "kvLive kv \<Longrightarrow> handler_register i kv = (kv', ch) \<Longrightarrow> kvLive kv'"
| result: "kvLive kv \<Longrightarrow> handler_result ch kv = Runs (kv', reply) \<Longrightarrow> kvLive kv'"
| cleanup: "kvLive kv \<Longrightarrow> kvLive (handler_cleanup i kv)"
| command: "kvLive kv \<Longrightarrow> amCommandValid m \<Longrightarrow> contiguous rf \<Longrightarrow>
    ApplyTicket bytesOf m rf kv = Runs (kv', rf') \<Longrightarrow> kvLive kv'"
| install: "kvLive kv \<Longrightarrow> kvLive j \<Longrightarrow> \<not> amCommandValid m \<Longrightarrow> amSnapshotValid m \<Longrightarrow> amSnapshot m = encodeSnapShot j \<Longrightarrow>
    ApplyTicket bytesOf m rf kv = Runs (kv', rf') \<Longrightarrow> kvLive kv'"

definition noNil :: "KVServer \<Rightarrow> bool" where
  "noNil kv \<longleftrightarrow> (\<forall>b \<in> set (chans kv). None \<notin> set b)"

lemma noNil_notified:
  assumes "noNil kv" "notified i r lead kv kv'" "r \<noteq> None"
  shows "noNil kv'"
proof -
  have "set (chans kv') \<subseteq> set (chans kv) \<union> {[], [r]}"
    using assms(2)
    by (auto simp: notified_def GetNotifyChannel_def split: if_splits option.splits
        dest!: set_update_subset_insert[THEN subsetD])
  then show ?thesis using assms(1,3) by (auto simp: noNil_def)
qed

lemma register_OK:
  assumes "kvOK kv" "noNil kv" "handler_register i kv = (kv', ch)"
  shows "kvOK kv' \<and> noNil kv'"
  using assms GetNotifyChannel_OK[of kv i kv' ch]
  by (auto simp: kvOK_def handler_register_def noNil_def GetNotifyChannel_def split: option.splits)

lemma result_OK:
  assumes "kvOK kv" "noNil kv" "handler_result ch kv = Runs (kv', reply)"
  shows "kvOK kv' \<and> noNil kv'"
proof -
  have kv': "kv' = kv\<lparr>chans := (chans kv)[ch := tl (chans kv ! ch)]\<rparr>" "ch < length (chans kv)"
    using assms(3) by (auto simp: handler_result_def chanRecv_def split: if_splits option.splits outcome.splits prod.splits)
  have e: "chans kv ! c = [] \<Longrightarrow> (chans kv)[ch := tl (chans kv ! ch)] ! c = []" for c
    using kv'(2) by (cases "c = ch") auto
  have "chansOK kv'" using assms(1) unfolding kv'(1) chansOK_def kvOK_def by (auto intro!: e)
  moreover have "noNil kv'" using assms(2) kv'(2) unfolding kv'(1) noNil_def
    by (auto dest!: set_update_subset_insert[THEN subsetD] dest: list.set_sel(2)) (metis list.sel(2) list.set_sel(2) nth_mem)
  ultimately show ?thesis using assms(1) by (simp add: kvOK_def kv'(1))
qed

lemma cleanup_OK: "kvOK kv \<Longrightarrow> noNil kv \<Longrightarrow> kvOK (handler_cleanup i kv) \<and> noNil (handler_cleanup i kv)"
  by (auto simp: kvOK_def chansOK_def noNil_def handler_cleanup_def RemoveNotifyChannel_def split: if_splits)

lemma command_OK:
  assumes "kvOK kv" "noNil kv" "amCommandValid m" "contiguous rf" "ApplyTicket bytesOf m rf kv = Runs (kv', rf')"
  shows "kvOK kv' \<and> noNil kv'"
proof (cases "amCommandIndex m \<le> kvLastApplied kv")
  case True
  then show ?thesis using assms by (simp add: ApplyTicket_old)
next
  case False
  then obtain c where c: "amCommand m = Some c"
    using assms(3,5) by (cases "amCommand m") (auto simp: ApplyTicket_def)
  obtain sm where sm: "absKv kv = Some sm" "smOK sm" using assms(1) by (auto simp: kvOK_def)
  have lt: "kvLastApplied kv < amCommandIndex m" using False by simp
  obtain k r where k: "ApplyTicket bytesOf m rf kv = Runs (k, r)" "kvOK k"
      "notified (amCommandIndex m) (smReply c sm) (state rf = Leader) kv k"
    using ApplyTicket_command[OF assms(3) c lt assms(1) sm(1) assms(4)] by metis
  then show ?thesis using assms(5) noNil_notified[OF assms(2) k(3) smReply_not_nil[OF sm(2)]] by simp
qed

lemma restore_OK:
  assumes "kvOK kv" "noNil kv" "kvOK j"
  shows "kvOK (RestoreSnapShot (encodeSnapShot j) kv) \<and> noNil (RestoreSnapShot (encodeSnapShot j) kv)"
proof -
  obtain sm where sm: "absKv j = Some sm" "smOK sm" using assms(3) by (auto simp: kvOK_def)
  then show ?thesis using assms(1,2) by (auto simp: restore_encode[OF sm(1)] kvOK_def noNil_def)
qed

lemma noNil_fresh: "noNil (freshKv self maxrs)"
  by (simp add: noNil_def freshKv_def)

lemma kvLive_OK: "kvLive kv \<Longrightarrow> kvOK kv \<and> noNil kv"
proof (induction rule: kvLive.induct)
  case (reboot j self maxrs)
  then show ?case using restore_OK[OF freshKv_OK(1) noNil_fresh] by blast
next
  case (install kv j m bytesOf rf kv' rf')
  then show ?case using restore_OK[of kv j] by (auto simp: ApplyTicket_def)
qed (use freshKv_OK(1) noNil_fresh register_OK result_OK command_OK cleanup_OK in \<open>blast+\<close>)

text \<open>C20: the apply loop of a server is never stuck.  In every state a server can get into, the loop handles every
  command to the end: the send to the notification channel does not block, no nil map is written, and no nil reply is handed to
  a waiting request.\<close>

theorem kv_apply_never_stuck:
  assumes "kvLive kv" "contiguous rf" "amCommandValid m" "amCommand m \<noteq> None"
  shows "(\<exists>kv' rf'. ApplyTicket bytesOf m rf kv = Runs (kv', rf')) \<and> handler_result ch kv \<noteq> Panics"
proof
  have ok: "kvOK kv" "noNil kv" using kvLive_OK[OF assms(1)] by auto
  show "\<exists>kv' rf'. ApplyTicket bytesOf m rf kv = Runs (kv', rf')"
  proof (cases "amCommandIndex m \<le> kvLastApplied kv")
    case True
    then show ?thesis using assms(3) by (simp add: ApplyTicket_old)
  next
    case False
    then show ?thesis using kvsvc.handle_command[OF ok(1) assms(3) _ _ assms(2)] assms(4) by fastforce
  qed
  show "handler_result ch kv \<noteq> Panics"
    using ok(2) unfolding handler_result_def chanRecv_def noNil_def
    by (auto split: option.splits if_splits) (metis hd_in_set not_le nth_mem)
qed

theorem kv_apply_never_stuck_witness:
  "\<exists>kv' rf'. ApplyTicket (\<lambda>_. 0) (cmdMsg 1 demoOp) demoApplied (fst (handler_register 1 (freshKv 0 (-1)))) = Runs (kv', rf')"
proof -
  have "kvLive (fst (handler_register 1 (freshKv 0 (-1))))"
    by (rule kvLive.register[OF kvLive.boot, of 1 0 "-1" _ "snd (handler_register 1 (freshKv 0 (-1)))"]) simp
  from kv_apply_never_stuck[OF this demo_contiguous(1), of "cmdMsg 1 demoOp" "\<lambda>_. 0"] show ?thesis by simp
qed

section \<open>Requests are matched by index alone\<close>

lemma notified_channel:
  assumes "notified i r True kv kv'" "fmlookup (notifyChannel kv) i = Some ch" "ch < length (chans kv)"
  shows "chans kv' ! ch = [r]" "ch < length (chans kv')"
  using assms by (auto simp: notified_def GetNotifyChannel_def)

text \<open>C21: a request can be answered with the result of another client's command.  If a request waits for log index \<open>i\<close> and
  the command that the leader delivers there is another client's put, because the entry of the request was replaced after
  a change of leaders, then the waiting request is answered \<open>OK\<close>, while the server still regards it as not executed.\<close>

theorem kv_wrong_request_acknowledged:
  assumes "kvLive kv" "kvLastApplied kv < i" "handler_register i kv = (kv1, ch)"
    and "contiguous rf" "state rf = Leader" "amCommandValid m" "amCommandIndex m = i" "amCommand m = Some c"
    and "absKv kv = Some sm" "\<not> smOld c sm" "opOp c = OpPut" "opClient c \<noteq> crClientId args"
    and "crOp args \<noteq> OpGet" "handler_check kv args = None"
  shows "\<exists>kv2 rf2 kv3 reply. ApplyTicket bytesOf m rf kv1 = Runs (kv2, rf2) \<and>
    handler_result ch kv2 = Runs (kv3, reply) \<and> rpErr reply = OK \<and> handler_check kv3 args = None"
proof -
  have "kvOK kv1" using kvLive_OK[OF kvLive.register[OF assms(1,3)]] by simp
  moreover have g: "GetNotifyChannel i kv = (kv1, ch)" using assms(3) by (simp add: handler_register_def)
  moreover have "chansOK kv" using kvLive_OK[OF assms(1)] by (simp add: kvOK_def)
  note G = GetNotifyChannel_OK[OF this g]
  ultimately obtain kv2 rf2 where a: "ApplyTicket bytesOf m rf kv1 = Runs (kv2, rf2)" "absKv kv2 = Some (smApply c sm)"
      "notified i (smReply c sm) True kv1 kv2"
    using ApplyTicket_command[OF assms(6,8) _ _ _ assms(4), of kv1 sm bytesOf] assms(2,5,7,9) by auto metis
  have "ch < length (chans kv1)" using G(1,2) by (auto simp: chansOK_def)
  note n = notified_channel[OF a(3) G(2) this]
  have "smReply c sm = Some \<lparr>rpErr = OK, rpValue = ''''\<rparr>"
    using assms(10,11) by (simp add: smReply_def smApply_def execReply_def)
  then have h: "handler_result ch kv2 = Runs (kv2\<lparr>chans := (chans kv2)[ch := []]\<rparr>, \<lparr>rpErr = OK, rpValue = ''''\<rparr>)"
    using n by (simp add: handler_result_def chanRecv_def emptyReply_def)
  have "mapGet (ClientMaxReq kv2) (crClientId args) = mapGet (ClientMaxReq kv) (crClientId args)"
    using a(2) assms(9,10,12) by (simp add: absKv_Some smApply_def mapGet_def)
  then have "handler_check (kv2\<lparr>chans := (chans kv2)[ch := []]\<rparr>) args = None"
    using assms(14) by (simp add: handler_check_def)
  then show ?thesis using a(1) h by auto
qed

definition lostArgs :: ClientRequestArgs where
  "lostArgs = \<lparr>crOp = OpPut, crKey = ''x'', crValue = ''lost'', crClientId = 9, crReqSeq = 0\<rparr>"

theorem kv_wrong_request_acknowledged_witness:
  "\<exists>kv1 ch kv2 rf2 kv3 reply. handler_register 1 (freshKv 0 (-1)) = (kv1, ch) \<and>
    ApplyTicket (\<lambda>_. 0) (cmdMsg 1 demoOp) demoApplied kv1 = Runs (kv2, rf2) \<and>
    handler_result ch kv2 = Runs (kv3, reply) \<and> rpErr reply = OK \<and> handler_check kv3 lostArgs = None"
proof -
  obtain kv1 ch where r: "handler_register 1 (freshKv 0 (-1)) = (kv1, ch)" by fastforce
  have "\<exists>kv2 rf2 kv3 reply. ApplyTicket (\<lambda>_. 0) (cmdMsg 1 demoOp) demoApplied kv1 = Runs (kv2, rf2) \<and>
      handler_result ch kv2 = Runs (kv3, reply) \<and> rpErr reply = OK \<and> handler_check kv3 lostArgs = None"
    by (rule kv_wrong_request_acknowledged[OF kvLive.boot _ r demo_contiguous(1) _ _ _ _ freshKv_OK(2), of _ demoOp])
      (simp_all add: freshKv_OK demo_logs smOld_def smInit_def demoOp_def lostArgs_def handler_check_def freshKv_def mapGet_def)
  then show ?thesis using r by blast
qed

section \<open>The clerk's loop\<close>

definition answers :: "ClientRequestReply option \<Rightarrow> bool" where
  "answers res \<longleftrightarrow> (case res of None \<Rightarrow> False | Some r \<Rightarrow> rpErr r \<noteq> WrongLeader \<and> rpErr r \<noteq> TimeOut)"

lemma sendIteration_cases:
  "answers res \<Longrightarrow> sendIteration res ck = Inr (ck\<lparr>ckReqSeq := ckReqSeq ck + 1\<rparr>, rpValue (the res))"
  "\<not> answers res \<Longrightarrow> sendIteration res ck = Inl (ck\<lparr>ckLeaderId := (ckLeaderId ck + 1) mod ckServers ck\<rparr>)"
  by (auto simp: sendIteration_def answers_def split: option.splits)

text \<open>A server \<open>d\<close> places after the remembered leader is reached with \<open>d + 1\<close> calls.\<close>

lemma sendLoop_finds:
  assumes "\<And>k. answers (call k j)" "ckServers ck = n" "ckLeaderId ck < n" "(ckLeaderId ck + d) mod n = j" "d < fuel"
  shows "\<exists>l < n. \<exists>v. sendLoop fuel call k ck = Some (ck\<lparr>ckLeaderId := l, ckReqSeq := ckReqSeq ck + 1\<rparr>, v)"
  using assms(2-5)
proof (induction d arbitrary: fuel k ck)
  case 0
  then have "ckLeaderId ck = j" by simp
  then show ?case using 0 sendIteration_cases(1)[OF assms(1)]
    by (cases fuel) (auto intro!: exI[of _ j])
next
  case (Suc d)
  obtain f where f: "fuel = Suc f" "d < f" using Suc.prems(4) by (cases fuel) auto
  show ?case
  proof (cases "answers (call k (ckLeaderId ck))")
    case True
    then show ?thesis using Suc.prems(2) by (auto simp: f sendIteration_cases intro!: exI[of _ "ckLeaderId ck"])
  next
    case False
    let ?ck = "ck\<lparr>ckLeaderId := (ckLeaderId ck + 1) mod n\<rparr>"
    have "\<exists>l < n. \<exists>v. sendLoop f call (Suc k) ?ck = Some (?ck\<lparr>ckLeaderId := l, ckReqSeq := ckReqSeq ?ck + 1\<rparr>, v)"
      by (rule Suc.IH) (use Suc.prems f in \<open>auto simp: mod_simps\<close>)
    then show ?thesis using False by (simp add: f sendIteration_cases Suc.prems(1))
  qed
qed

text \<open>C22: the clerk finds a server that answers.  With \<open>n\<close> servers of which one answers, the loop ends after at most \<open>n\<close> calls; it has
  advanced the clerk's sequence number by one and remembers a valid server.\<close>

theorem clerk_finds_leader:
  assumes "\<forall>k. answers (call (requestArgs ck key value op) k j)"
    and "ckServers ck = n" "ckLeaderId ck < n" "j < n"
  shows "\<exists>l < n. \<exists>v. SendClientRequest n call ck key value op = Some (ck\<lparr>ckLeaderId := l, ckReqSeq := ckReqSeq ck + 1\<rparr>, v)"
proof -
  have "(ckLeaderId ck + (j + n - ckLeaderId ck) mod n) mod n = j" using assms(3,4) by (simp add: mod_simps)
  moreover have "(j + n - ckLeaderId ck) mod n < n" using assms(4) by simp
  ultimately show ?thesis unfolding SendClientRequest_def
    by (intro sendLoop_finds[where j = j and d = "(j + n - ckLeaderId ck) mod n"]) (use assms in auto)
qed

definition demoCall :: "ClientRequestArgs \<Rightarrow> nat \<Rightarrow> nat \<Rightarrow> ClientRequestReply option" where
  "demoCall args k s = (if s = 2 then Some \<lparr>rpErr = OK, rpValue = ''v''\<rparr> else if s = 1 then None
     else Some \<lparr>rpErr = WrongLeader, rpValue = ''''\<rparr>)"

theorem clerk_finds_leader_witness:
  "\<exists>l < 3. \<exists>v. SendClientRequest 3 demoCall (MakeClerk 3 9) ''k'' '''' OpGet =
     Some ((MakeClerk 3 9)\<lparr>ckLeaderId := l, ckReqSeq := ckReqSeq (MakeClerk 3 9) + 1\<rparr>, v)"
  by (rule clerk_finds_leader[of demoCall _ _ _ _ 2]) (simp_all add: demoCall_def answers_def MakeClerk_def)

end
