(* ===== verification/Porcupine_Bitset.thy ===== *)
theory Porcupine_Bitset
  imports Go_Prelude "HOL-Library.Word"
begin

text \<open>
  \<^verbatim>\<open>src/src/porcupine/bitset.go\<close>: a set of small numbers in 64-bit words.  Positions are Go's \<open>uint\<close>; an access beyond
  the slice is a panic, \<open>None\<close>.  \<open>bits\<close> is the set a bitset stands for; the laws of the operations are stated by the locale
  \<open>finite_bits\<close>, which the operations of the file interpret.
\<close>

unbundle bit_operations_syntax

type_synonym bitset = "64 word list"

definition newBitset :: "nat \<Rightarrow> bitset" where
  "newBitset bits =
    (let extra = (if bits mod 64 \<noteq> 0 then 1 else 0);
         chunks = bits div 64 + extra
     in replicate chunks 0)"

definition clone :: "bitset \<Rightarrow> bitset" where
  "clone b = b"

definition bitsetIndex :: "nat \<Rightarrow> nat \<times> nat" where
  "bitsetIndex pos = (pos div 64, pos mod 64)"

definition bset :: "bitset \<Rightarrow> nat \<Rightarrow> bitset option" where
  "bset b pos =
    (let (major, minor) = bitsetIndex pos in
     do { w \<leftarrow> idx b (int major); set_idx b (int major) (w OR push_bit minor 1) })"

definition bclear :: "bitset \<Rightarrow> nat \<Rightarrow> bitset option" where
  "bclear b pos =
    (let (major, minor) = bitsetIndex pos in
     do { w \<leftarrow> idx b (int major); set_idx b (int major) (w AND NOT (push_bit minor 1)) })"

definition bget :: "bitset \<Rightarrow> nat \<Rightarrow> bool option" where
  "bget b pos =
    (let (major, minor) = bitsetIndex pos in
     do { w \<leftarrow> idx b (int major); Some (w AND push_bit minor 1 \<noteq> 0) })"

text \<open>\<open>bits.OnesCount64\<close>.\<close>

definition OnesCount64 :: "64 word \<Rightarrow> nat" where
  "OnesCount64 w = length (filter (bit w) [0..<64])"

definition popcnt :: "bitset \<Rightarrow> nat" where
  "popcnt b = sum_list (map OnesCount64 b)"

definition bhash :: "bitset \<Rightarrow> 64 word" where
  "bhash b = foldl (\<lambda>h v. h XOR v) (of_nat (popcnt b)) b"

definition bequals :: "bitset \<Rightarrow> bitset \<Rightarrow> bool" where
  "bequals b b2 \<longleftrightarrow> (if length b \<noteq> length b2 then False else (\<forall>i\<in>set [0..<length b]. b ! i = b2 ! i))"

section \<open>The set of a bitset\<close>

definition bits :: "bitset \<Rightarrow> nat set" where
  "bits b = {p. p div 64 < length b \<and> bit (b ! (p div 64)) (p mod 64)}"

definition capacity :: "bitset \<Rightarrow> nat" where
  "capacity b = 64 * length b"

lemma in_capacity: "p < capacity b \<longleftrightarrow> p div 64 < length b"
  by (auto simp: capacity_def)

lemma bits_bound: "p \<in> bits b \<Longrightarrow> p < capacity b"
  by (simp add: bits_def in_capacity)

lemma newBitset_capacity: "n \<le> capacity (newBitset n)" "capacity (newBitset n) < n + 64"
proof -
  define q r where "q = n div 64" "r = n mod 64"
  have n: "n = 64 * q + r" "r < 64" by (simp_all add: q_r_def)
  have "capacity (newBitset n) = 64 * (q + (if r \<noteq> 0 then 1 else 0))"
    by (simp add: capacity_def newBitset_def q_r_def)
  then show "n \<le> capacity (newBitset n)" "capacity (newBitset n) < n + 64" using n by (auto split: if_splits)
qed

lemma newBitset_bits: "bits (newBitset n) = {}"
  by (simp add: bits_def newBitset_def Let_def)

lemma bset_total: "p < capacity b \<Longrightarrow> \<exists>b'. bset b p = Some b'"
  by (auto simp: bset_def bitsetIndex_def in_capacity go_defs)

lemma div_mod_64: "(q :: nat) div 64 = p div 64 \<Longrightarrow> q mod 64 = p mod 64 \<longleftrightarrow> q = p"
  by (metis div_mod_decomp)

lemma bset_bits:
  assumes "bset b p = Some b'"
  shows "bits b' = insert p (bits b)" "capacity b' = capacity b"
proof -
  have b': "b' = b[p div 64 := b ! (p div 64) OR push_bit (p mod 64) 1]" "p div 64 < length b"
    using assms by (auto simp: bset_def bitsetIndex_def go_defs split: if_splits)
  then show "capacity b' = capacity b" by (simp add: capacity_def)
  have "q \<in> bits b' \<longleftrightarrow> q = p \<or> q \<in> bits b" for q
    using b'(2) div_mod_64[of q p]
    by (cases "q div 64 = p div 64") (auto simp: bits_def b'(1) bit_simps nth_list_update)
  then show "bits b' = insert p (bits b)" by auto
qed

lemma bclear_bits:
  assumes "bclear b p = Some b'"
  shows "bits b' = bits b - {p}" "capacity b' = capacity b"
proof -
  have b': "b' = b[p div 64 := b ! (p div 64) AND NOT (push_bit (p mod 64) 1)]" "p div 64 < length b"
    using assms by (auto simp: bclear_def bitsetIndex_def go_defs split: if_splits)
  then show "capacity b' = capacity b" by (simp add: capacity_def)
  have "q \<in> bits b' \<longleftrightarrow> q \<noteq> p \<and> q \<in> bits b" for q
    using b'(2) div_mod_64[of q p]
    by (cases "q div 64 = p div 64") (auto simp: bits_def b'(1) bit_simps nth_list_update)
  then show "bits b' = bits b - {p}" by auto
qed

lemma bclear_total: "p < capacity b \<Longrightarrow> \<exists>b'. bclear b p = Some b'"
  by (auto simp: bclear_def bitsetIndex_def in_capacity go_defs)

lemma bget_bits: "p < capacity b \<Longrightarrow> bget b p = Some (p \<in> bits b)"
proof -
  assume p: "p < capacity b"
  have "(w AND push_bit k 1 \<noteq> 0) = bit w k" for w :: "64 word" and k
    by (simp add: and_exp_eq_0_iff_not_bit)
  then show ?thesis using p by (simp add: bget_def bitsetIndex_def in_capacity bits_def go_defs)
qed

lemma bequals_iff: "bequals b b2 \<longleftrightarrow> b = b2"
  by (auto simp: bequals_def intro: nth_equalityI)

text \<open>Bitsets of one length are equal if they stand for the same set.\<close>

lemma bits_inject:
  assumes "length b = length b2" "bits b = bits b2"
  shows "b = b2"
proof (rule nth_equalityI[OF assms(1)])
  fix i assume i: "i < length b"
  show "b ! i = b2 ! i"
  proof (rule bit_word_eqI)
    fix k assume "k < LENGTH(64)"
    then have "(i * 64 + k) div 64 = i" "(i * 64 + k) mod 64 = k" by auto
    moreover have "i * 64 + k \<in> bits b \<longleftrightarrow> i * 64 + k \<in> bits b2" using assms(2) by simp
    ultimately show "bit (b ! i) k \<longleftrightarrow> bit (b2 ! i) k" using i assms(1) by (simp add: bits_def)
  qed
qed

lemma bset_length: "bset b p = Some b' \<Longrightarrow> length b' = length b"
  by (auto simp: bset_def bitsetIndex_def go_defs split: if_splits)

lemma bclear_length: "bclear b p = Some b' \<Longrightarrow> length b' = length b"
  by (auto simp: bclear_def bitsetIndex_def go_defs split: if_splits)

text \<open>Clearing a bit that was set undoes the setting.\<close>

lemma bset_bclear:
  assumes "bset b p = Some b1" "p \<notin> bits b"
  shows "bclear b1 p = Some b"
proof -
  have "p < capacity b1" using bset_bits[OF assms(1)] bits_bound[of p b1] by auto
  then obtain b2 where b2: "bclear b1 p = Some b2" using bclear_total by blast
  have "bits b2 = bits b" using bset_bits(1)[OF assms(1)] bclear_bits(1)[OF b2] assms(2) by auto
  then have "b2 = b" using bits_inject[of b2 b] bset_length[OF assms(1)] bclear_length[OF b2] by simp
  then show ?thesis using b2 by simp
qed

section \<open>Counting\<close>

lemma OnesCount64_card: "OnesCount64 w = card {k. k < 64 \<and> bit w k}"
proof -
  have "{k. k < 64 \<and> bit w k} = set (filter (bit w) [0..<64])" by auto
  then show ?thesis unfolding OnesCount64_def by (simp only: distinct_card[OF distinct_filter[OF distinct_upt]])
qed

lemma bits_snoc: "bits (b @ [w]) = bits b \<union> (\<lambda>k. 64 * length b + k) ` {k. k < 64 \<and> bit w k}"
proof (rule set_eqI)
  fix p
  show "p \<in> bits (b @ [w]) \<longleftrightarrow> p \<in> bits b \<union> (\<lambda>k. 64 * length b + k) ` {k. k < 64 \<and> bit w k}"
  proof (cases "p div 64 < length b")
    case True
    then have "p < 64 * length b" by auto
    then show ?thesis using True by (auto simp: bits_def nth_append)
  next
    case False
    show ?thesis
    proof (cases "p div 64 = length b")
      case True
      then have "p = 64 * length b + p mod 64" by (metis mult_div_mod_eq)
      then have "p \<in> (\<lambda>k. 64 * length b + k) ` {k. k < 64 \<and> bit w k} \<longleftrightarrow> bit w (p mod 64)"
        by (auto intro!: image_eqI[of _ _ "p mod 64"])
      then show ?thesis using True by (simp add: bits_def nth_append)
    next
      case neq: False
      then show ?thesis using False by (auto simp: bits_def image_iff)
    qed
  qed
qed

lemma finite_bits_set: "finite (bits b)"
  using bits_bound by (intro finite_subset[of "bits b" "{..<capacity b}"]) auto

lemma popcnt_card: "popcnt b = card (bits b)"
proof (induction b rule: rev_induct)
  case Nil
  then show ?case by (simp add: popcnt_def bits_def)
next
  case (snoc w b)
  have "bits b \<inter> (\<lambda>k. 64 * length b + k) ` {k. k < 64 \<and> bit w k} = {}"
    using bits_bound[of _ b] by (fastforce simp: capacity_def)
  moreover have "card ((\<lambda>k. 64 * length b + k) ` {k. k < 64 \<and> bit w k}) = OnesCount64 w"
    by (simp add: OnesCount64_card card_image inj_on_def)
  moreover have "finite {k. k < (64 :: nat) \<and> bit w k}" by simp
  ultimately show ?case using snoc finite_bits_set[of b]
    by (simp add: popcnt_def bits_snoc card_Un_disjoint)
qed

section \<open>Interface\<close>

text \<open>What the checker relies on: an exact representation of the subsets of a bounded set, in which setting a new
  element can be undone.\<close>

locale finite_bits =
  fixes elems :: "'b \<Rightarrow> nat set"
    and size_of :: "'b \<Rightarrow> nat"
    and fresh :: "nat \<Rightarrow> 'b"
    and add :: "'b \<Rightarrow> nat \<Rightarrow> 'b option"
    and remove :: "'b \<Rightarrow> nat \<Rightarrow> 'b option"
    and same :: "'b \<Rightarrow> 'b \<Rightarrow> bool"
  assumes fresh: "elems (fresh n) = {}" "n \<le> size_of (fresh n)"
    and add: "p < size_of b \<Longrightarrow> \<exists>b'. add b p = Some b' \<and> elems b' = insert p (elems b) \<and> size_of b' = size_of b"
    and undo: "add b p = Some b' \<Longrightarrow> p \<notin> elems b \<Longrightarrow> remove b' p = Some b"
    and same: "size_of b = size_of b' \<Longrightarrow> same b b' \<longleftrightarrow> elems b = elems b'"
begin

text \<open>Adding the elements of a list, from the fresh set.\<close>

lemma add_all:
  assumes "\<forall>p \<in> set ps. p < n"
  shows "\<exists>b. foldl (\<lambda>ob p. Option.bind ob (\<lambda>b. add b p)) (Some (fresh n)) ps = Some b \<and> elems b = set ps \<and>
    size_of b = size_of (fresh n)"
  using assms
proof (induction ps rule: rev_induct)
  case Nil
  then show ?case using fresh(1) by simp
next
  case (snoc p ps)
  then obtain b where b: "foldl (\<lambda>ob p. Option.bind ob (\<lambda>b. add b p)) (Some (fresh n)) ps = Some b" "elems b = set ps"
      "size_of b = size_of (fresh n)" by auto
  then have "p < size_of b" using snoc.prems fresh(2)[of n] by simp
  then show ?case using add[of p b] b by auto
qed

end

interpretation bitset_set: finite_bits bits capacity newBitset bset bclear bequals
proof unfold_locales
  fix n show "bits (newBitset n) = {}" "n \<le> capacity (newBitset n)" by (rule newBitset_bits newBitset_capacity)+
next
  fix p b assume "p < capacity b"
  then show "\<exists>b'. bset b p = Some b' \<and> bits b' = insert p (bits b) \<and> capacity b' = capacity b"
    using bset_total bset_bits by metis
next
  fix b p b' assume "bset b p = Some b'" "p \<notin> bits b"
  then show "bclear b' p = Some b" by (rule bset_bclear)
next
  fix b b' :: bitset assume "capacity b = capacity b'"
  then show "bequals b b' = (bits b = bits b')"
    using bits_inject by (auto simp: bequals_iff capacity_def)
qed

end
