(* ===== verification/Porcupine_Checker.thy ===== *)
theory Porcupine_Checker
  imports Porcupine_Model Porcupine_Bitset
begin

text \<open>
  \<^verbatim>\<open>src/src/porcupine/checker.go\<close>: the search for a linearization, on a doubly linked list of call and return entries from which
  the operations linearized so far are lifted out, with a cache of the configurations that have been entered.

  The nodes live in a heap, a list of nodes; a pointer is an address or nil (\<open>None\<close>), and going through a nil pointer is a
  panic.  What \<open>sort.Sort\<close> does with elements that compare equal is not specified, so the sorting function is an
  argument of \<open>makeEntries\<close>.  The kill flag is read once per iteration: \<open>kill k\<close> is what the \<open>k\<close>-th read returns.  The
  pointers in \<open>longest\<close> are indices into the sequences made so far.
\<close>

section \<open>Entries\<close>

datatype entryKind = callEntry | returnEntry

record 'v entry =
  ekind :: entryKind
  evalue :: 'v
  eid :: int
  etime :: int
  eclientId :: int

record 'v linearizationInfo =
  liHistory :: "'v entry list list"
  partialLinearizations :: "int list list list"

definition entryLess :: "'v entry \<Rightarrow> 'v entry \<Rightarrow> bool" where
  "entryLess a b =
    (if etime a \<noteq> etime b then etime a < etime b
     else ekind a = callEntry \<and> ekind b = returnEntry)"

fun rawEntries :: "int \<Rightarrow> 'v Operation list \<Rightarrow> 'v entry list" where
  "rawEntries i [] = []"
| "rawEntries i (elem # history) =
     \<lparr> ekind = callEntry, evalue = Input elem, eid = i, etime = CallTime elem, eclientId = OpClientId elem \<rparr> #
     \<lparr> ekind = returnEntry, evalue = Output elem, eid = i, etime = ReturnTime elem, eclientId = OpClientId elem \<rparr> #
     rawEntries (i + 1) history"

definition makeEntries :: "('v entry list \<Rightarrow> 'v entry list) \<Rightarrow> 'v Operation list \<Rightarrow> 'v entry list" where
  "makeEntries sorter history = sorter (rawEntries 0 history)"

fun renumberFrom :: "(int \<rightharpoonup> int) \<Rightarrow> int \<Rightarrow> 'v Event list \<Rightarrow> 'v Event list" where
  "renumberFrom m i [] = []"
| "renumberFrom m i (v # events) =
     (case m (EvId v) of
        Some r \<Rightarrow> v\<lparr>EvId := r\<rparr> # renumberFrom m i events
      | None \<Rightarrow> v\<lparr>EvId := i\<rparr> # renumberFrom (m(EvId v \<mapsto> i)) (i + 1) events)"

definition renumber :: "'v Event list \<Rightarrow> 'v Event list" where
  "renumber events = renumberFrom Map.empty 0 events"

fun convertFrom :: "int \<Rightarrow> 'v Event list \<Rightarrow> 'v entry list" where
  "convertFrom i [] = []"
| "convertFrom i (elem # events) =
     \<lparr> ekind = (if EvKind elem = ReturnEvent then returnEntry else callEntry), evalue = EvValue elem,
       eid = EvId elem, etime = i, eclientId = EvClientId elem \<rparr> # convertFrom (i + 1) events"

definition convertEntries :: "'v Event list \<Rightarrow> 'v entry list" where
  "convertEntries events = convertFrom 0 events"

section \<open>The linked list\<close>

record 'v node =
  nvalue :: "'v option"
  nmatch :: "nat option"
  nid :: int
  nnext :: "nat option"
  nprev :: "nat option"

type_synonym 'v heap = "'v node list"

definition deref :: "'v heap \<Rightarrow> nat option \<Rightarrow> 'v node option" where
  "deref h p = (case p of None \<Rightarrow> None | Some a \<Rightarrow> if a < length h then Some (h ! a) else None)"

definition putNext :: "nat option \<Rightarrow> nat option \<Rightarrow> 'v heap \<Rightarrow> 'v heap option" where
  "putNext p v h = (case p of None \<Rightarrow> None | Some a \<Rightarrow> if a < length h then Some (h[a := (h ! a)\<lparr>nnext := v\<rparr>]) else None)"

definition putPrev :: "nat option \<Rightarrow> nat option \<Rightarrow> 'v heap \<Rightarrow> 'v heap option" where
  "putPrev p v h = (case p of None \<Rightarrow> None | Some a \<Rightarrow> if a < length h then Some (h[a := (h ! a)\<lparr>nprev := v\<rparr>]) else None)"

definition insertBefore :: "nat \<Rightarrow> nat option \<Rightarrow> 'v heap \<Rightarrow> 'v heap option" where
  "insertBefore n mark h =
    (case mark of
       None \<Rightarrow> Some h
     | Some _ \<Rightarrow> do {
         m \<leftarrow> deref h mark;
         let beforeMark = nprev m;
         h1 \<leftarrow> putPrev mark (Some n) h;
         h2 \<leftarrow> putNext (Some n) mark h1;
         if beforeMark \<noteq> None then do {
           h3 \<leftarrow> putPrev (Some n) beforeMark h2;
           putNext beforeMark (Some n) h3 }
         else Some h2 })"

text \<open>The number of nodes from a node on.\<close>

definition lengthBody :: "'v heap \<Rightarrow> nat option \<times> nat \<Rightarrow> (nat option \<times> nat, nat) ctl" where
  "lengthBody h s = (case s of
      (None, l) \<Rightarrow> Halt l
    | (Some a, l) \<Rightarrow> orCrash (do { n \<leftarrow> deref h (Some a); Some (Go (nnext n, l + 1)) }))"

definition lengthNodes :: "'v heap \<Rightarrow> nat option \<Rightarrow> nat option option" where
  "lengthNodes h n = runLoop (lengthBody h) (n, 0)"

text \<open>The loop runs over the entries from the last one to the first; its argument is the reversed list.\<close>

fun linkEntries :: "'v entry list \<Rightarrow> 'v heap \<Rightarrow> (int \<rightharpoonup> nat) \<Rightarrow> nat option \<Rightarrow> ('v heap \<times> nat option) option" where
  "linkEntries [] h match root = Some (h, root)"
| "linkEntries (elem # elems) h match root =
     (let a = length h in
      if ekind elem = returnEntry
      then do {
        h1 \<leftarrow> insertBefore a root
          (h @ [\<lparr> nvalue = Some (evalue elem), nmatch = None, nid = eid elem, nnext = None, nprev = None \<rparr>]);
        linkEntries elems h1 (match(eid elem \<mapsto> a)) (Some a) }
      else do {
        h1 \<leftarrow> insertBefore a root
          (h @ [\<lparr> nvalue = Some (evalue elem), nmatch = match (eid elem), nid = eid elem, nnext = None, nprev = None \<rparr>]);
        linkEntries elems h1 match (Some a) })"

definition makeLinkedEntries :: "'v entry list \<Rightarrow> ('v heap \<times> nat option) option" where
  "makeLinkedEntries entries = linkEntries (rev entries) [] Map.empty None"

definition lift :: "nat option \<Rightarrow> 'v heap \<Rightarrow> 'v heap option" where
  "lift entry h = do {
     e \<leftarrow> deref h entry;
     h1 \<leftarrow> putNext (nprev e) (nnext e) h;
     e1 \<leftarrow> deref h1 entry;
     h2 \<leftarrow> putPrev (nnext e1) (nprev e1) h1;
     e2 \<leftarrow> deref h2 entry;
     let match = nmatch e2;
     m \<leftarrow> deref h2 match;
     h3 \<leftarrow> putNext (nprev m) (nnext m) h2;
     m3 \<leftarrow> deref h3 match;
     if nnext m3 \<noteq> None then putPrev (nnext m3) (nprev m3) h3 else Some h3 }"

definition unlift :: "nat option \<Rightarrow> 'v heap \<Rightarrow> 'v heap option" where
  "unlift entry h = do {
     e \<leftarrow> deref h entry;
     let match = nmatch e;
     m \<leftarrow> deref h match;
     h1 \<leftarrow> putNext (nprev m) match h;
     m1 \<leftarrow> deref h1 match;
     h2 \<leftarrow> (if nnext m1 \<noteq> None then putPrev (nnext m1) match h1 else Some h1);
     e2 \<leftarrow> deref h2 entry;
     h3 \<leftarrow> putNext (nprev e2) entry h2;
     e3 \<leftarrow> deref h3 entry;
     putPrev (nnext e3) entry h3 }"

section \<open>The search\<close>

type_synonym 's cache = "64 word \<Rightarrow> (bitset \<times> 's) list"

definition cacheContains :: "('s \<Rightarrow> 's \<Rightarrow> bool) \<Rightarrow> 's cache \<Rightarrow> bitset \<times> 's \<Rightarrow> bool" where
  "cacheContains eq cache entry \<longleftrightarrow>
     list_ex (\<lambda>elem. bequals (fst entry) (fst elem) \<and> eq (snd entry) (snd elem)) (cache (bhash (fst entry)))"

text \<open>\<open>fillDefault\<close> replaces a nil \<open>Equal\<close> before a search starts.\<close>

definition modelEqual :: "('v, 's) Model \<Rightarrow> 's \<Rightarrow> 's \<Rightarrow> bool" where
  "modelEqual model = (case Equal model of Some eq \<Rightarrow> eq | None \<Rightarrow> ShallowEqual)"

record ('v, 's) Search =
  sHeap :: "'v heap"
  sEntry :: "nat option"
  sLin :: bitset
  sCache :: "'s cache"
  sCalls :: "(nat \<times> 's) list"
  sLongest :: "nat option list"
  sSeqs :: "int list list"
  sState :: 's
  sReads :: nat

text \<open>\<open>uint(id)\<close> and an index of \<open>longest\<close>.\<close>

definition uint_of :: "int \<Rightarrow> nat" where
  "uint_of i = nat (i mod 2 ^ 64)"

definition callIds :: "'v heap \<Rightarrow> (nat \<times> 's) list \<Rightarrow> int list option" where
  "callIds h calls = those (map (\<lambda>c. map_option nid (deref h (Some (fst c)))) calls)"

text \<open>The loop that records the current calls as the longest sequence of those operations for which it is longer.  The
  sequence is made once, when it is first needed.\<close>

fun recordLongest :: "int list \<Rightarrow> int list \<Rightarrow> nat option list \<Rightarrow> int list list \<Rightarrow> bool \<Rightarrow> (nat option list \<times> int list list) option" where
  "recordLongest ids [] longest seqs made = Some (longest, seqs)"
| "recordLongest ids (i # rest) longest seqs made = do {
     old \<leftarrow> idx longest i;
     let longer = (case old of None \<Rightarrow> True | Some q \<Rightarrow> length ids > length (seqs ! q));
     if longer then do {
       let seqs1 = (if made then seqs else seqs @ [ids]);
       longest1 \<leftarrow> set_idx longest i (Some (length seqs1 - 1));
       recordLongest ids rest longest1 seqs1 True }
     else recordLongest ids rest longest seqs made }"

text \<open>A call entry: try to linearize its operation next.\<close>

definition tryCall :: "('v, 's) Model \<Rightarrow> nat \<Rightarrow> 'v node \<Rightarrow> ('v, 's) Search \<Rightarrow> ('v, 's) Search option" where
  "tryCall model head e st = do {
     matching \<leftarrow> deref (sHeap st) (nmatch e);
     v \<leftarrow> nvalue e;
     out \<leftarrow> nvalue matching;
     (ok, newState) \<leftarrow> Step model (sState st) v out;
     if ok then do {
       newLin \<leftarrow> bset (clone (sLin st)) (uint_of (nid e));
       if \<not> cacheContains (modelEqual model) (sCache st) (newLin, newState) then do {
         let hash = bhash newLin;
         a \<leftarrow> sEntry st;
         lin \<leftarrow> bset (sLin st) (uint_of (nid e));
         h1 \<leftarrow> lift (sEntry st) (sHeap st);
         hn \<leftarrow> deref h1 (Some head);
         Some (st\<lparr>sCache := (sCache st)(hash := sCache st hash @ [(newLin, newState)]),
                 sCalls := sCalls st @ [(a, sState st)], sState := newState, sLin := lin,
                 sHeap := h1, sEntry := nnext hn\<rparr>) }
       else Some (st\<lparr>sEntry := nnext e\<rparr>) }
     else Some (st\<lparr>sEntry := nnext e\<rparr>) }"

text \<open>A return entry: its operation should have been linearized by now, so take back the last call.\<close>

definition backtrack :: "bool \<Rightarrow> ('v, 's) Search \<Rightarrow> ('v, 's) Search option" where
  "backtrack computePartial st = do {
     (longest, seqs) \<leftarrow>
       (if computePartial then do {
          ids \<leftarrow> callIds (sHeap st) (sCalls st);
          recordLongest ids ids (sLongest st) (sSeqs st) False }
        else Some (sLongest st, sSeqs st));
     let (a, old) = last (sCalls st);
     e \<leftarrow> deref (sHeap st) (Some a);
     lin \<leftarrow> bclear (sLin st) (uint_of (nid e));
     h1 \<leftarrow> unlift (Some a) (sHeap st);
     e1 \<leftarrow> deref h1 (Some a);
     Some (st\<lparr>sLongest := longest, sSeqs := seqs, sState := old, sLin := lin, sCalls := butlast (sCalls st),
             sHeap := h1, sEntry := nnext e1\<rparr>) }"

definition searchBody :: "('v, 's) Model \<Rightarrow> bool \<Rightarrow> (nat \<Rightarrow> bool) \<Rightarrow> nat \<Rightarrow> ('v, 's) Search \<Rightarrow>
    (('v, 's) Search, bool \<times> nat option list \<times> int list list) ctl" where
  "searchBody model computePartial kill head st = orCrash (do {
     hn \<leftarrow> deref (sHeap st) (Some head);
     if nnext hn = None then do {
       seq \<leftarrow> callIds (sHeap st) (sCalls st);
       Some (Halt (True, map (\<lambda>_. Some (length (sSeqs st))) (sLongest st), sSeqs st @ [seq])) }
     else if kill (sReads st) then Some (Halt (False, sLongest st, sSeqs st))
     else do {
       let st1 = st\<lparr>sReads := sReads st + 1\<rparr>;
       e \<leftarrow> deref (sHeap st1) (sEntry st1);
       if nmatch e \<noteq> None then do { st2 \<leftarrow> tryCall model head e st1; Some (Go st2) }
       else if sCalls st1 = [] then Some (Halt (False, sLongest st1, sSeqs st1))
       else do { st2 \<leftarrow> backtrack computePartial st1; Some (Go st2) } } })"

text \<open>The state before the loop, and the address of the head node.\<close>

definition searchInit :: "('v, 's) Model \<Rightarrow> 'v entry list \<Rightarrow> (('v, 's) Search \<times> nat) option option" where
  "searchInit model history = (case makeLinkedEntries history of
      None \<Rightarrow> Some None
    | Some (h, entry) \<Rightarrow> (case lengthNodes h entry of
          None \<Rightarrow> None
        | Some None \<Rightarrow> Some None
        | Some (Some l) \<Rightarrow> Some (do {
            let n = l div 2;
            h1 \<leftarrow> insertBefore (length h) entry
              (h @ [\<lparr> nvalue = None, nmatch = None, nid = -1, nnext = None, nprev = None \<rparr>]);
            Some (\<lparr> sHeap = h1, sEntry = entry, sLin = newBitset n, sCache = (\<lambda>_. []), sCalls = [],
                    sLongest = replicate n None, sSeqs = [], sState = Init model, sReads = 0 \<rparr>, length h) })))"

definition checkSingle :: "('v, 's) Model \<Rightarrow> 'v entry list \<Rightarrow> bool \<Rightarrow> (nat \<Rightarrow> bool) \<Rightarrow>
    (bool \<times> nat option list \<times> int list list) option option" where
  "checkSingle model history computePartial kill =
    (case searchInit model history of
       None \<Rightarrow> None
     | Some None \<Rightarrow> Some None
     | Some (Some (st, head)) \<Rightarrow> runLoop (searchBody model computePartial kill head) st)"

section \<open>Partitions in parallel\<close>

definition fillDefault :: "('v \<Rightarrow> string) \<Rightarrow> ('s \<Rightarrow> string) \<Rightarrow> ('v, 's) Model \<Rightarrow> ('v, 's) Model" where
  "fillDefault sprintV sprintS model =
    (let model1 = (if Partition model = None then model\<lparr>Partition := Some NoPartition\<rparr> else model);
         model2 = (if PartitionEvent model1 = None then model1\<lparr>PartitionEvent := Some NoPartitionEvent\<rparr> else model1);
         model3 = (if Equal model2 = None then model2\<lparr>Equal := Some ShallowEqual\<rparr> else model2);
         model4 = (if DescribeOperation model3 = None
                   then model3\<lparr>DescribeOperation := Some (DefaultDescribeOperation sprintV)\<rparr> else model3)
     in (if DescribeState model4 = None then model4\<lparr>DescribeState := Some (DefaultDescribeState sprintS)\<rparr> else model4))"

text \<open>A goroutine of \<open>checkParallel\<close>: before its call of \<open>checkSingle\<close>, at the head of the loop of \<open>checkSingle\<close> (with the address of the head
  node), with the result of that call in hand, or ended; an ended goroutine keeps what it has sent.\<close>

datatype ('v, 's) goroutine =
    GoStart
  | GoLoop "('v, 's) Search" nat
  | GoReport bool "nat option list" "int list list"
  | GoDone bool

text \<open>The main goroutine: at the select, waiting for the remaining results, or at the return.\<close>

datatype checkPc = PSelect | PWait | PReturned

text \<open>What the goroutines share: the kill flag, the buffered channel \<open>results\<close> and the slice \<open>longest\<close>, whose element of a partition
  comes with the sequences it points to; and the variables of the main goroutine.\<close>

record ('v, 's) Parallel =
  pGos :: "('v, 's) goroutine list"
  pKill :: bool
  pResults :: "bool list"
  pLongest :: "(nat option list \<times> int list list) list"
  pOk :: bool
  pTimedOut :: bool
  pCount :: nat
  pMain :: checkPc

definition parInit :: "nat \<Rightarrow> ('v, 's) Parallel" where
  "parInit n = \<lparr> pGos = replicate n GoStart, pKill = False, pResults = [], pLongest = replicate n ([], []),
     pOk = True, pTimedOut = False, pCount = 0, pMain = PSelect \<rparr>"

text \<open>The events: a goroutine runs on, the main goroutine takes a result from the channel, or it takes the timeout.  One step of a
  goroutine inside \<open>checkSingle\<close> is what comes before its loop or one iteration, with at most one read of the kill flag.\<close>

datatype parEvent = GoStep nat | TakeResult | TimerFires

definition goStep :: "('v, 's) Model \<Rightarrow> 'v entry list \<Rightarrow> bool \<Rightarrow> bool \<Rightarrow> ('v, 's) goroutine \<Rightarrow> ('v, 's) goroutine outcome" where
  "goStep model subhistory computeInfo kill g = (case g of
      GoStart \<Rightarrow> (case searchInit model subhistory of
          None \<Rightarrow> Blocked
        | Some None \<Rightarrow> Panics
        | Some (Some (st, head)) \<Rightarrow> Runs (GoLoop st head))
    | GoLoop st head \<Rightarrow> (case searchBody model computeInfo (\<lambda>_. kill) head st of
          Halt (ok, l, seqs) \<Rightarrow> Runs (GoReport ok l seqs)
        | Crash \<Rightarrow> Panics
        | Go st' \<Rightarrow> Runs (GoLoop st' head))
    | _ \<Rightarrow> Blocked)"

text \<open>Where the main goroutine goes when it leaves the select loop: with \<open>computeInfo\<close> it waits for the goroutines that have not
  reported.\<close>

definition afterLoop :: "nat \<Rightarrow> bool \<Rightarrow> ('v, 's) Parallel \<Rightarrow> ('v, 's) Parallel" where
  "afterLoop n computeInfo st = st\<lparr>pMain := if computeInfo \<and> pCount st < n then PWait else PReturned\<rparr>"

definition takeResult :: "nat \<Rightarrow> bool \<Rightarrow> ('v, 's) Parallel \<Rightarrow> ('v, 's) Parallel outcome" where
  "takeResult n computeInfo st = (case (pResults st, pMain st) of
      (result # rest, PSelect) \<Rightarrow>
        (let st1 = st\<lparr>pResults := rest, pCount := pCount st + 1, pOk := pOk st \<and> result\<rparr> in
         if \<not> pOk st1 \<and> \<not> computeInfo then Runs (afterLoop n computeInfo (st1\<lparr>pKill := True\<rparr>))
         else if pCount st1 \<ge> n then Runs (afterLoop n computeInfo st1)
         else Runs st1)
    | (result # rest, PWait) \<Rightarrow> Runs (afterLoop n computeInfo (st\<lparr>pResults := rest, pCount := pCount st + 1\<rparr>))
    | _ \<Rightarrow> Blocked)"

definition parStep :: "('v, 's) Model \<Rightarrow> 'v entry list list \<Rightarrow> bool \<Rightarrow> int \<Rightarrow> parEvent \<Rightarrow> ('v, 's) Parallel \<Rightarrow> ('v, 's) Parallel outcome" where
  "parStep model history computeInfo timeout ev st = (case ev of
      GoStep i \<Rightarrow>
        if i < length (pGos st) then (case pGos st ! i of
            GoReport ok l seqs \<Rightarrow>
              if length (pResults st) < length history
              then Runs (st\<lparr>pGos := (pGos st)[i := GoDone ok], pLongest := (pLongest st)[i := (l, seqs)], pResults := pResults st @ [ok]\<rparr>)
              else Blocked
          | g \<Rightarrow> (case goStep model (history ! i) computeInfo (pKill st) g of
              Runs g' \<Rightarrow> Runs (st\<lparr>pGos := (pGos st)[i := g']\<rparr>)
            | Blocked \<Rightarrow> Blocked
            | Panics \<Rightarrow> Panics))
        else Blocked
    | TakeResult \<Rightarrow> takeResult (length history) computeInfo st
    | TimerFires \<Rightarrow>
        if pMain st = PSelect \<and> timeout > 0
        then Runs (afterLoop (length history) computeInfo (st\<lparr>pTimedOut := True, pKill := True\<rparr>))
        else Blocked)"

text \<open>A run by a schedule, up to the return of the main goroutine.  An event that cannot happen is passed over.  \<open>None\<close> is a panic.\<close>

definition parNext :: "('v, 's) Model \<Rightarrow> 'v entry list list \<Rightarrow> bool \<Rightarrow> int \<Rightarrow> parEvent \<Rightarrow> ('v, 's) Parallel \<Rightarrow> ('v, 's) Parallel option" where
  "parNext model history computeInfo timeout ev st =
    (if pMain st = PReturned then Some st
     else case parStep model history computeInfo timeout ev st of Runs st' \<Rightarrow> Some st' | Blocked \<Rightarrow> Some st | Panics \<Rightarrow> None)"

fun parRun :: "('v, 's) Model \<Rightarrow> 'v entry list list \<Rightarrow> bool \<Rightarrow> int \<Rightarrow> parEvent list \<Rightarrow> ('v, 's) Parallel \<Rightarrow> ('v, 's) Parallel option" where
  "parRun model history computeInfo timeout [] st = Some st"
| "parRun model history computeInfo timeout (ev # sched) st =
     Option.bind (parNext model history computeInfo timeout ev st) (parRun model history computeInfo timeout sched)"

text \<open>The distinct pointers of \<open>longest\<close>, each with its sequence; Go ranges over a map of them, in any order.\<close>

definition uniqueSeqs :: "nat option list \<Rightarrow> int list list \<Rightarrow> int list list" where
  "uniqueSeqs longest seqs = map (\<lambda>q. seqs ! q) (remdups (concat (map (\<lambda>v. case v of None \<Rightarrow> [] | Some q \<Rightarrow> [q]) longest)))"

definition parResult :: "'v entry list list \<Rightarrow> bool \<Rightarrow> ('v, 's) Parallel \<Rightarrow> CheckResult \<times> 'v linearizationInfo" where
  "parResult history computeInfo st =
    ((if \<not> pOk st then CheckIllegal else if pTimedOut st then CheckUnknown else CheckOk),
     (if computeInfo
      then \<lparr> liHistory = history, partialLinearizations = map (\<lambda>(longest, seqs). uniqueSeqs longest seqs) (pLongest st) \<rparr>
      else \<lparr> liHistory = [], partialLinearizations = [] \<rparr>))"

text \<open>What has come of a call by the end of a schedule.  The outer \<open>None\<close> is a call that has not returned, the inner one a panic of any
  of the goroutines.\<close>

definition checkParallel :: "('v, 's) Model \<Rightarrow> 'v entry list list \<Rightarrow> bool \<Rightarrow> int \<Rightarrow> parEvent list \<Rightarrow>
    (CheckResult \<times> 'v linearizationInfo) option option" where
  "checkParallel model history computeInfo timeout sched =
    (case parRun model history computeInfo timeout sched (parInit (length history)) of
       None \<Rightarrow> Some None
     | Some st \<Rightarrow> if pMain st = PReturned then Some (Some (parResult history computeInfo st)) else None)"

text \<open>The printers of \<open>fmt.Sprintf\<close> are the first two arguments of what fills in the defaults.\<close>

definition checkEvents :: "('v \<Rightarrow> string) \<Rightarrow> ('s \<Rightarrow> string) \<Rightarrow> ('v, 's) Model \<Rightarrow> 'v Event list \<Rightarrow> bool \<Rightarrow>
    int \<Rightarrow> parEvent list \<Rightarrow> (CheckResult \<times> 'v linearizationInfo) option option" where
  "checkEvents sprintV sprintS model0 history verbose timeout sched =
    (let model = fillDefault sprintV sprintS model0 in
     case Option.bind (PartitionEvent model) (\<lambda>f. f history) of
       None \<Rightarrow> Some None
     | Some partitions \<Rightarrow> checkParallel model (map (\<lambda>sub. convertEntries (renumber sub)) partitions) verbose timeout sched)"

definition checkOperations :: "('v entry list \<Rightarrow> 'v entry list) \<Rightarrow> ('v \<Rightarrow> string) \<Rightarrow> ('s \<Rightarrow> string) \<Rightarrow> ('v, 's) Model \<Rightarrow>
    'v Operation list \<Rightarrow> bool \<Rightarrow> int \<Rightarrow> parEvent list \<Rightarrow>
    (CheckResult \<times> 'v linearizationInfo) option option" where
  "checkOperations sorter sprintV sprintS model0 history verbose timeout sched =
    (let model = fillDefault sprintV sprintS model0 in
     case Option.bind (Partition model) (\<lambda>f. f history) of
       None \<Rightarrow> Some None
     | Some partitions \<Rightarrow> checkParallel model (map (makeEntries sorter) partitions) verbose timeout sched)"

section \<open>The entry points of porcupine.go\<close>

definition CheckOperations :: "('v entry list \<Rightarrow> 'v entry list) \<Rightarrow> ('v \<Rightarrow> string) \<Rightarrow> ('s \<Rightarrow> string) \<Rightarrow> ('v, 's) Model \<Rightarrow>
    'v Operation list \<Rightarrow> parEvent list \<Rightarrow> bool option option" where
  "CheckOperations sorter sprintV sprintS model history sched =
    map_option (map_option (\<lambda>(res, _). res = CheckOk)) (checkOperations sorter sprintV sprintS model history False 0 sched)"

definition CheckOperationsTimeout :: "('v entry list \<Rightarrow> 'v entry list) \<Rightarrow> ('v \<Rightarrow> string) \<Rightarrow> ('s \<Rightarrow> string) \<Rightarrow> ('v, 's) Model \<Rightarrow>
    'v Operation list \<Rightarrow> int \<Rightarrow> parEvent list \<Rightarrow> CheckResult option option" where
  "CheckOperationsTimeout sorter sprintV sprintS model history timeout sched =
    map_option (map_option fst) (checkOperations sorter sprintV sprintS model history False timeout sched)"

definition CheckOperationsVerbose :: "('v entry list \<Rightarrow> 'v entry list) \<Rightarrow> ('v \<Rightarrow> string) \<Rightarrow> ('s \<Rightarrow> string) \<Rightarrow> ('v, 's) Model \<Rightarrow>
    'v Operation list \<Rightarrow> int \<Rightarrow> parEvent list \<Rightarrow> (CheckResult \<times> 'v linearizationInfo) option option" where
  "CheckOperationsVerbose sorter sprintV sprintS model history timeout sched =
    checkOperations sorter sprintV sprintS model history True timeout sched"

definition CheckEvents :: "('v \<Rightarrow> string) \<Rightarrow> ('s \<Rightarrow> string) \<Rightarrow> ('v, 's) Model \<Rightarrow> 'v Event list \<Rightarrow>
    parEvent list \<Rightarrow> bool option option" where
  "CheckEvents sprintV sprintS model history sched =
    map_option (map_option (\<lambda>(res, _). res = CheckOk)) (checkEvents sprintV sprintS model history False 0 sched)"

definition CheckEventsTimeout :: "('v \<Rightarrow> string) \<Rightarrow> ('s \<Rightarrow> string) \<Rightarrow> ('v, 's) Model \<Rightarrow> 'v Event list \<Rightarrow>
    int \<Rightarrow> parEvent list \<Rightarrow> CheckResult option option" where
  "CheckEventsTimeout sprintV sprintS model history timeout sched =
    map_option (map_option fst) (checkEvents sprintV sprintS model history False timeout sched)"

definition CheckEventsVerbose :: "('v \<Rightarrow> string) \<Rightarrow> ('s \<Rightarrow> string) \<Rightarrow> ('v, 's) Model \<Rightarrow> 'v Event list \<Rightarrow>
    int \<Rightarrow> parEvent list \<Rightarrow> (CheckResult \<times> 'v linearizationInfo) option option" where
  "CheckEventsVerbose sprintV sprintS model history timeout sched =
    checkEvents sprintV sprintS model history True timeout sched"

end
