(* ===== verification/Porcupine_Links.thy ===== *)
theory Porcupine_Links
  imports Porcupine_Checker
begin

text \<open>
  The doubly linked list of \<^verbatim>\<open>src/src/porcupine/checker.go\<close>.  \<open>dseg h p xs q\<close> says that the nodes at the addresses \<open>xs\<close> are
  linked in this order in both directions, between a predecessor \<open>p\<close> and a successor \<open>q\<close>.  Taking a node out of the list leaves
  its own links in place, so that it can be put back; \<open>unlift\<close> restores exactly the heap that \<open>lift\<close> found.
\<close>

section \<open>Segments\<close>

fun dseg :: "'v heap \<Rightarrow> nat option \<Rightarrow> nat list \<Rightarrow> nat option \<Rightarrow> bool" where
  "dseg h p [] q \<longleftrightarrow> True"
| "dseg h p (a # as) q \<longleftrightarrow>
     a < length h \<and> nprev (h ! a) = p \<and> nnext (h ! a) = (case as of [] \<Rightarrow> q | b # _ \<Rightarrow> Some b) \<and> dseg h (Some a) as q"

definition lastOr :: "nat option \<Rightarrow> nat list \<Rightarrow> nat option" where
  "lastOr p xs = (if xs = [] then p else Some (last xs))"

definition headOr :: "nat list \<Rightarrow> nat option \<Rightarrow> nat option" where
  "headOr xs q = (case xs of [] \<Rightarrow> q | b # _ \<Rightarrow> Some b)"

lemma or_simps [simp]:
  "lastOr p [] = p" "lastOr p (xs @ [a]) = Some a" "lastOr p [a] = Some a" "headOr [] q = q" "headOr (a # xs) q = Some a"
  by (simp_all add: lastOr_def headOr_def)

lemma dseg_append: "dseg h p (xs @ ys) q \<longleftrightarrow> dseg h p xs (headOr ys q) \<and> dseg h (lastOr p xs) ys q"
  by (induction h p xs q rule: dseg.induct) (auto simp: lastOr_def headOr_def split: list.splits)

lemma dseg_bound: "dseg h p xs q \<Longrightarrow> a \<in> set xs \<Longrightarrow> a < length h"
  by (induction h p xs q rule: dseg.induct) auto

lemma dseg_frame: "a \<notin> set xs \<Longrightarrow> dseg (h[a := n]) p xs q = dseg h p xs q"
  by (induction h p xs q rule: dseg.induct) (auto simp: nth_list_update)

lemma dseg_setNext:
  assumes "dseg h p (xs @ [a]) q" "a \<notin> set xs"
  shows "dseg (h[a := (h ! a)\<lparr>nnext := q'\<rparr>]) p (xs @ [a]) q'"
  using assms by (simp add: dseg_append dseg_frame)

lemma dseg_setPrev:
  assumes "dseg h p (a # ys) q" "a \<notin> set ys"
  shows "dseg (h[a := (h ! a)\<lparr>nprev := p'\<rparr>]) p' (a # ys) q"
  using assms by (simp add: dseg_frame)

section \<open>Taking a node out and putting it back\<close>

definition unlink :: "nat \<Rightarrow> 'v heap \<Rightarrow> 'v heap option" where
  "unlink a h = do {
     n \<leftarrow> deref h (Some a);
     h1 \<leftarrow> putNext (nprev n) (nnext n) h;
     n1 \<leftarrow> deref h1 (Some a);
     if nnext n1 \<noteq> None then putPrev (nnext n1) (nprev n1) h1 else Some h1 }"

definition relink :: "nat \<Rightarrow> 'v heap \<Rightarrow> 'v heap option" where
  "relink a h = do {
     n \<leftarrow> deref h (Some a);
     h1 \<leftarrow> putNext (nprev n) (Some a) h;
     n1 \<leftarrow> deref h1 (Some a);
     if nnext n1 \<noteq> None then putPrev (nnext n1) (Some a) h1 else Some h1 }"

text \<open>The contents of the nodes, which linking does not change.\<close>

definition sameNodes :: "'v heap \<Rightarrow> 'v heap \<Rightarrow> bool" where
  "sameNodes h h' \<longleftrightarrow> length h' = length h \<and>
     (\<forall>a < length h. nvalue (h' ! a) = nvalue (h ! a) \<and> nmatch (h' ! a) = nmatch (h ! a) \<and> nid (h' ! a) = nid (h ! a))"

lemma sameNodes_refl [simp]: "sameNodes h h"
  by (simp add: sameNodes_def)

lemma sameNodes_trans: "sameNodes h h1 \<Longrightarrow> sameNodes h1 h2 \<Longrightarrow> sameNodes h h2"
  by (simp add: sameNodes_def)

lemma unlink_mid:
  assumes "dseg h p (xs @ x # a # ys) q" "distinct (xs @ x # a # ys)" "q = None"
  shows "\<exists>h'. unlink a h = Some h' \<and> dseg h' p (xs @ x # ys) q \<and> sameNodes h h' \<and>
    h' ! a = h ! a \<and> relink a h' = Some h"
proof -
  have d: "dseg h p (xs @ [x]) (Some a)" "nprev (h ! a) = Some x" "nnext (h ! a) = headOr ys q" "dseg h (Some a) ys q"
      "a < length h" "x < length h" "nnext (h ! x) = Some a"
    using assms(1) by (auto simp: dseg_append headOr_def split: list.splits)
  let ?h1 = "h[x := (h ! x)\<lparr>nnext := headOr ys q\<rparr>]"
  have x1: "dseg ?h1 p (xs @ [x]) (headOr ys q)" using dseg_setNext[OF d(1)] assms(2) by auto
  have a1: "?h1 ! a = h ! a" "length ?h1 = length h" using assms(2) by auto
  show ?thesis
  proof (cases ys)
    case Nil
    have "unlink a h = Some ?h1" using d a1 Nil assms(3) by (simp add: unlink_def deref_def putNext_def)
    moreover have "relink a ?h1 = Some h"
      using d a1 Nil assms(2,3) by (simp add: relink_def deref_def putNext_def) (metis list_update_id list_update_overwrite node.surjective node.update_convs(4))
    ultimately show ?thesis using x1 Nil d(6) a1 by (simp add: sameNodes_def nth_list_update)
  next
    case (Cons y ys')
    let ?h2 = "?h1[y := (h ! y)\<lparr>nprev := Some x\<rparr>]"
    have y: "y < length h" "y \<noteq> x" "y \<noteq> a" "nprev (h ! y) = Some a" "x \<noteq> a" "x \<notin> set ys'" "y \<notin> set ys'" "y \<notin> set xs"
      using d(4) assms(2) Cons by auto
    have "unlink a h = Some ?h2" using d a1 y Cons by (simp add: unlink_def deref_def putNext_def putPrev_def)
    moreover have "dseg ?h2 p (xs @ [x]) (Some y)" using x1 Cons y by (simp add: dseg_frame)
    moreover have "dseg ?h2 (Some x) (y # ys') q"
      using d(4) y Cons by (simp add: dseg_frame)
    moreover have "relink a ?h2 = Some h"
    proof -
      have "?h2[x := (?h2 ! x)\<lparr>nnext := Some a\<rparr>, y := (h ! y)\<lparr>nprev := Some a\<rparr>] = h"
        using d y by (intro nth_equalityI) (auto simp: nth_list_update)
      then show ?thesis using d y a1 Cons by (simp add: relink_def deref_def putNext_def putPrev_def nth_list_update)
    qed
    ultimately show ?thesis using Cons y a1 d(6)
      by (auto simp: dseg_append sameNodes_def nth_list_update)
  qed
qed

lemma lift_eq:
  assumes "a < length h" "nnext (h ! a) \<noteq> None" "nprev (h ! a) = Some x" "x \<noteq> a"
  shows "lift (Some a) h = do { h1 \<leftarrow> unlink a h; e \<leftarrow> deref h1 (Some a); m \<leftarrow> nmatch e; unlink m h1 }"
proof -
  have "deref g None = None" for g :: "'a heap" by (simp add: deref_def)
  then show ?thesis using assms
    by (cases "x < length h"; cases "nnext (h ! a)")
      (auto simp: lift_def unlink_def putNext_def deref_def[of h] deref_def[of "list_update _ _ _"] Let_def split: option.splits bind_splits)
qed

lemma unlift_eq:
  assumes "a < length h" "nmatch (h ! a) = Some m" "\<And>h2. relink m h = Some h2 \<Longrightarrow> a < length h2 \<and> nnext (h2 ! a) \<noteq> None \<and> nprev (h2 ! a) \<noteq> Some a"
  shows "unlift (Some a) h = do { h2 \<leftarrow> relink m h; relink a h2 }"
proof -
  have u: "unlift (Some a) h = do {
      h2 \<leftarrow> relink m h;
      e2 \<leftarrow> deref h2 (Some a);
      h3 \<leftarrow> putNext (nprev e2) (Some a) h2;
      e3 \<leftarrow> deref h3 (Some a);
      putPrev (nnext e3) (Some a) h3 }"
    using assms(1,2) by (simp add: unlift_def relink_def deref_def[of h "Some a"] Let_def cong: if_cong)
  show ?thesis
  proof (cases "relink m h")
    case None
    then show ?thesis by (simp add: u)
  next
    case (Some h2)
    have a: "a < length h2" "nnext (h2 ! a) \<noteq> None" "nprev (h2 ! a) \<noteq> Some a" using assms(3)[OF Some] by auto
    then have "deref h3 (Some a) = Some (h2 ! a)" if "putNext (nprev (h2 ! a)) (Some a) h2 = Some h3" for h3
      using that by (auto simp: putNext_def deref_def split: option.splits if_splits)
    then show ?thesis using Some a by (cases "putNext (nprev (h2 ! a)) (Some a) h2") (simp_all add: u relink_def deref_def[of h2])
  qed
qed

lemma snoc_of_mid: "\<exists>zs z. xs @ x # us = zs @ [z]"
  by (metis append_butlast_last_id append_is_Nil_conv list.distinct(1))

text \<open>Lifting an operation takes its two nodes out of the list, and unlifting restores the heap.\<close>

lemma lift_list:
  assumes l: "dseg h None (xs @ x # a # us @ m # vs) None" and d: "distinct (xs @ x # a # us @ m # vs)"
    and m: "nmatch (h ! a) = Some m"
  shows "\<exists>h'. lift (Some a) h = Some h' \<and> dseg h' None (xs @ x # us @ vs) None \<and> sameNodes h h' \<and>
    unlift (Some a) h' = Some h"
proof -
  obtain h1 where h1: "unlink a h = Some h1" "dseg h1 None (xs @ x # us @ m # vs) None" "sameNodes h h1"
      "h1 ! a = h ! a" "relink a h1 = Some h"
    using unlink_mid[OF l d refl] by auto
  obtain zs z where zs: "xs @ x # us = zs @ [z]" using snoc_of_mid[of xs x us] by blast
  have eq: "xs @ x # us @ ws = zs @ z # ws" for ws using arg_cong[OF zs, of "\<lambda>l. l @ ws"] by simp
  have "distinct (xs @ x # us @ m # vs)" using d by auto
  with h1(2) have "dseg h1 None (zs @ z # m # vs) None" "distinct (zs @ z # m # vs)" unfolding eq .
  from unlink_mid[OF this refl] obtain h2 where h2: "unlink m h1 = Some h2" "dseg h2 None (xs @ x # us @ vs) None"
      "sameNodes h1 h2" "relink m h2 = Some h1"
    unfolding eq by blast
  have a: "a < length h" "nnext (h ! a) \<noteq> None" "nprev (h ! a) = Some x" "x \<noteq> a"
    using l d by (auto simp: dseg_append split: list.splits)
  have "lift (Some a) h = Some h2"
    using h1 h2 a m by (simp add: lift_eq[OF a] deref_def sameNodes_def)
  moreover have "unlift (Some a) h2 = Some h"
    by (subst unlift_eq[where m = m]) (use h1 h2 a m in \<open>auto simp: sameNodes_def\<close>)
  ultimately show ?thesis using h2 sameNodes_trans[OF h1(3) h2(3)] by blast
qed

section \<open>Building the list\<close>

lemma dseg_append_heap: "dseg h p xs q \<Longrightarrow> dseg (h @ g) p xs q"
  by (induction h p xs q rule: dseg.induct) (auto simp: nth_append)

text \<open>A new node in front.\<close>

lemma insertBefore_front:
  assumes "dseg h None xs None" "distinct xs" "nnext n = None" "nprev n = None"
  shows "\<exists>h'. insertBefore (length h) (headOr xs None) (h @ [n]) = Some h' \<and>
    dseg h' None (length h # xs) None \<and> sameNodes (h @ [n]) h'"
proof (cases xs)
  case Nil
  then show ?thesis using assms(3,4) by (simp add: insertBefore_def)
next
  case (Cons x ys)
  have x: "x < length h" "nprev (h ! x) = None" "x \<notin> set ys" "length h \<notin> set xs"
    using assms dseg_bound[OF assms(1)] Cons by auto
  let ?h1 = "(h @ [n])[x := ((h @ [n]) ! x)\<lparr>nprev := Some (length h)\<rparr>]"
  let ?h2 = "?h1[length h := n\<lparr>nnext := Some x\<rparr>]"
  have "insertBefore (length h) (headOr xs None) (h @ [n]) = Some ?h2"
    using x Cons by (simp add: insertBefore_def deref_def putPrev_def putNext_def nth_append nth_list_update)
  moreover have "dseg ?h1 (Some (length h)) (x # ys) None"
    using dseg_setPrev[of "h @ [n]" None x ys None "Some (length h)"] dseg_append_heap[OF assms(1), of "[n]"] x Cons by simp
  then have "dseg ?h2 (Some (length h)) (x # ys) None" using x(4) Cons by (subst dseg_frame) auto
  moreover have "sameNodes (h @ [n]) ?h2" using x by (auto simp: sameNodes_def nth_list_update nth_append)
  ultimately show ?thesis using Cons assms(4) x by (auto simp: nth_list_update)
qed

text \<open>The addresses in the order of the list: later nodes have smaller addresses.\<close>

definition desc :: "nat \<Rightarrow> nat list" where
  "desc n = rev [0..<n]"

lemma desc_simps [simp]: "desc 0 = []" "set (desc n) = {..<n}" "distinct (desc n)" "length (desc n) = n"
  by (auto simp: desc_def)

lemma desc_Suc: "desc (Suc n) = n # desc n"
  by (simp add: desc_def)

lemma headOr_desc [simp]: "headOr (desc (Suc n)) q = Some n"
  by (simp add: desc_Suc)

text \<open>The address of the last return entry of an operation in a list.\<close>

fun lastRetR :: "'v entry list \<Rightarrow> int \<Rightarrow> nat option" where
  "lastRetR [] i = None"
| "lastRetR (e # es) i = (if ekind e = returnEntry \<and> eid e = i then Some (length es) else lastRetR es i)"

definition lastRet :: "'v entry list \<Rightarrow> int \<Rightarrow> nat option" where
  "lastRet ds = lastRetR (rev ds)"

lemma lastRet_snoc [simp]:
  "lastRet [] i = None"
  "lastRet (ds @ [e]) i = (if ekind e = returnEntry \<and> eid e = i then Some (length ds) else lastRet ds i)"
  by (simp_all add: lastRet_def)

text \<open>The node at address \<open>a\<close> is made from the entry \<open>ds ! a\<close>, where \<open>ds\<close> lists the entries in the order of the loop.\<close>

definition nodeOf :: "'v entry list \<Rightarrow> nat \<Rightarrow> 'v node \<Rightarrow> bool" where
  "nodeOf ds a n \<longleftrightarrow> nvalue n = Some (evalue (ds ! a)) \<and> nid n = eid (ds ! a) \<and>
     nmatch n = (if ekind (ds ! a) = returnEntry then None else lastRet (take a ds) (eid (ds ! a)))"

definition nodesOf :: "'v entry list \<Rightarrow> 'v heap \<Rightarrow> bool" where
  "nodesOf ds h \<longleftrightarrow> length ds \<le> length h \<and> (\<forall>a < length ds. nodeOf ds a (h ! a))"

lemma nodesOf_same: "nodesOf ds h \<Longrightarrow> sameNodes h h' \<Longrightarrow> nodesOf ds h'"
  by (auto simp: nodesOf_def nodeOf_def sameNodes_def)

lemma nodesOf_append: "nodesOf ds h \<Longrightarrow> nodesOf ds (h @ g)"
  by (auto simp: nodesOf_def nth_append)

lemma nodesOf_snoc:
  assumes "nodesOf ds h" "length h = length ds" "nodeOf (ds @ [e]) (length ds) n"
  shows "nodesOf (ds @ [e]) (h @ [n])"
  using assms by (auto simp: nodesOf_def nodeOf_def nth_append less_Suc_eq)

lemma linkEntries_spec:
  assumes "nodesOf ds h" "length h = length ds" "dseg h None (desc (length ds)) None"
  shows "\<exists>h'. linkEntries es h (lastRet ds) (headOr (desc (length ds)) None) =
      Some (h', headOr (desc (length (ds @ es))) None) \<and>
    nodesOf (ds @ es) h' \<and> length h' = length (ds @ es) \<and> dseg h' None (desc (length (ds @ es))) None"
  using assms
proof (induction es arbitrary: ds h)
  case Nil
  then show ?case by simp
next
  case (Cons e es)
  let ?n = "\<lparr> nvalue = Some (evalue e), nmatch = (if ekind e = returnEntry then None else lastRet ds (eid e)),
      nid = eid e, nnext = None, nprev = None \<rparr>"
  obtain h1 where h1: "insertBefore (length h) (headOr (desc (length ds)) None) (h @ [?n]) = Some h1"
      "dseg h1 None (length h # desc (length ds)) None" "sameNodes (h @ [?n]) h1"
    using insertBefore_front[OF Cons.prems(3), of ?n] by auto
  have "nodesOf (ds @ [e]) (h @ [?n])"
    using nodesOf_snoc[OF Cons.prems(1,2)] by (simp add: nodeOf_def)
  then have 1: "nodesOf (ds @ [e]) h1" by (rule nodesOf_same[OF _ h1(3)])
  have 2: "length h1 = length (ds @ [e])" using h1(3) Cons.prems(2) by (simp add: sameNodes_def)
  have 3: "dseg h1 None (desc (length (ds @ [e]))) None" using h1(2) Cons.prems(2) by (simp add: desc_Suc)
  have m: "lastRet (ds @ [e]) = (if ekind e = returnEntry then (lastRet ds)(eid e \<mapsto> length h) else lastRet ds)"
    using Cons.prems(2) by (auto simp: fun_eq_iff)
  show ?case using Cons.IH[OF 1 2 3] h1(1) Cons.prems(2) m
    by (cases "ekind e = returnEntry") (simp_all add: Let_def fun_upd_def)
qed

lemma lengthNodes_spec:
  assumes "dseg h p xs None"
  shows "lengthNodes h (headOr xs None) = Some (Some (length xs))"
proof -
  have "runLoop (lengthBody h) (headOr xs None, l) = Some (Some (l + length xs))" if "dseg h p xs None" for p xs l
    using that
  proof (induction xs arbitrary: p l)
    case (Cons a xs)
    then have "nnext (h ! a) = headOr xs None" "a < length h" by (auto simp: headOr_def split: list.splits)
    then have "lengthBody h (Some a, l) = Go (headOr xs None, Suc l)" by (simp add: lengthBody_def deref_def)
    then show ?case using Cons.IH[of "Some a" "Suc l"] Cons.prems by (subst runLoop.simps) simp
  qed (subst runLoop.simps, simp add: lengthBody_def)
  from this[OF assms, of 0] show ?thesis by (simp add: lengthNodes_def)
qed

text \<open>The state in which the search starts.\<close>

lemma searchInit_spec:
  fixes model :: "('v, 's) Model"
  assumes "length es = 2 * n"
  shows "\<exists>h. searchInit model es = Some (Some (\<lparr> sHeap = h, sEntry = headOr (desc (2 * n)) None, sLin = newBitset n,
      sCache = (\<lambda>_. []), sCalls = [], sLongest = replicate n None, sSeqs = [], sState = Init model, sReads = 0 \<rparr>, 2 * n)) \<and>
    nodesOf (rev es) h \<and> length h = Suc (2 * n) \<and> dseg h None (2 * n # desc (2 * n)) None \<and> nmatch (h ! (2 * n)) = None"
proof -
  have e: "lastRet [] = (Map.empty :: int \<rightharpoonup> nat)" by (simp add: fun_eq_iff)
  obtain h where h: "makeLinkedEntries es = Some (h, headOr (desc (2 * n)) None)" "nodesOf (rev es) h"
      "length h = 2 * n" "dseg h None (desc (2 * n)) None"
    using linkEntries_spec[of "[]" "[]" "rev es", unfolded e] assms
    by (auto simp: makeLinkedEntries_def nodesOf_def)
  let ?n = "\<lparr> nvalue = None, nmatch = None, nid = -1, nnext = None, nprev = None \<rparr> :: 'v node"
  obtain h1 where h1: "insertBefore (length h) (headOr (desc (2 * n)) None) (h @ [?n]) = Some h1"
      "dseg h1 None (length h # desc (2 * n)) None" "sameNodes (h @ [?n]) h1"
    using insertBefore_front[OF h(4), of ?n] by auto
  have "nodesOf (rev es) h1" using nodesOf_same[OF nodesOf_append[OF h(2)] h1(3)] .
  moreover have "nmatch (h1 ! (2 * n)) = None" "length h1 = Suc (2 * n)"
    using h1(3) h(3) by (auto simp: sameNodes_def nth_append)
  ultimately show ?thesis using h h1 lengthNodes_spec[OF h(4)]
    by (auto simp: searchInit_def)
qed

end
