(* ===== verification/Porcupine_Search.thy ===== *)
theory Porcupine_Search
  imports Porcupine_Links
begin

text \<open>
  The search of \<open>checkSingle\<close> (\<^verbatim>\<open>src/src/porcupine/checker.go\<close>) as a depth-first search of configurations.  A configuration is the set
  of operations linearized so far and the state of the model.  The operations that may come next are those whose call stands
  before every return in what is left of the list.  The search has visited the configurations in the cache; those that are not on
  its stack have all their successors among the visited ones.  This gives both directions: the search succeeds only with a
  linearization in its stack, and fails only when the visited configurations are closed under successors.
\<close>

section \<open>Instances\<close>

text \<open>The entries by address, the number of operations, and the addresses of the call and the return of each operation.  A
  smaller address is a later entry.\<close>

record 'v Inst =
  iEnts :: "'v entry list"
  iN :: nat
  iC :: "nat \<Rightarrow> nat"
  iR :: "nat \<Rightarrow> nat"

definition wfInst :: "'v Inst \<Rightarrow> bool" where
  "wfInst I \<longleftrightarrow> length (iEnts I) = 2 * iN I \<and>
     (\<forall>k < iN I. iR I k < iC I k \<and> iC I k < 2 * iN I \<and>
        ekind (iEnts I ! iC I k) = callEntry \<and> eid (iEnts I ! iC I k) = int k \<and>
        ekind (iEnts I ! iR I k) = returnEntry \<and> eid (iEnts I ! iR I k) = int k) \<and>
     (\<forall>a < 2 * iN I. \<exists>k < iN I. a = iC I k \<or> a = iR I k)"

definition opAt :: "'v Inst \<Rightarrow> nat \<Rightarrow> nat" where
  "opAt I a = nat (eid (iEnts I ! a))"

definition inOutOf :: "'v Inst \<Rightarrow> nat \<Rightarrow> 'v \<times> 'v" where
  "inOutOf I k = (evalue (iEnts I ! iC I k), evalue (iEnts I ! iR I k))"

text \<open>What is left of the list when the operations of \<open>S\<close> are lifted.\<close>

definition remain :: "'v Inst \<Rightarrow> nat set \<Rightarrow> nat list" where
  "remain I S = filter (\<lambda>a. opAt I a \<notin> S) (desc (2 * iN I))"

definition heapOK :: "'v Inst \<Rightarrow> 'v heap \<Rightarrow> nat set \<Rightarrow> bool" where
  "heapOK I h S \<longleftrightarrow> nodesOf (iEnts I) h \<and> length h = Suc (2 * iN I) \<and>
     dseg h None (2 * iN I # remain I S) None \<and> nmatch (h ! (2 * iN I)) = None"

lemma wfInstD:
  assumes "wfInst I" "k < iN I"
  shows "iR I k < iC I k" "iC I k < 2 * iN I" "iR I k < 2 * iN I" "opAt I (iC I k) = k" "opAt I (iR I k) = k"
    "ekind (iEnts I ! iC I k) = callEntry" "ekind (iEnts I ! iR I k) = returnEntry"
    "eid (iEnts I ! iC I k) = int k" "eid (iEnts I ! iR I k) = int k"
  using assms by (fastforce simp: wfInst_def opAt_def)+

lemma addr_cases:
  assumes "wfInst I" "a < 2 * iN I"
  obtains (call) k where "k < iN I" "a = iC I k" | (ret) k where "k < iN I" "a = iR I k"
  using assms unfolding wfInst_def by blast

lemma remain_mem:
  assumes "wfInst I" "k < iN I"
  shows "iC I k \<in> set (remain I S) \<longleftrightarrow> k \<notin> S" "iR I k \<in> set (remain I S) \<longleftrightarrow> k \<notin> S"
  using wfInstD[OF assms] by (auto simp: remain_def)

lemma remain_sorted: "sorted_wrt (>) (remain I S)"
proof -
  have "sorted_wrt (>) (desc n)" for n by (induction n) (simp_all add: desc_Suc)
  then show ?thesis unfolding remain_def by (rule sorted_wrt_filter)
qed

lemma remain_bound: "a \<in> set (remain I S) \<Longrightarrow> a < 2 * iN I"
  by (auto simp: remain_def)

lemma remain_distinct: "distinct (2 * iN I # remain I S)"
  by (auto simp: remain_def)

lemma remain_Nil:
  assumes "wfInst I" "S \<subseteq> {..<iN I}"
  shows "remain I S = [] \<longleftrightarrow> S = {..<iN I}"
proof
  assume r: "remain I S = []"
  have "k \<in> S" if "k < iN I" for k using remain_mem(1)[OF assms(1) that, of S] r by simp
  then show "S = {..<iN I}" using assms(2) by auto
next
  assume S: "S = {..<iN I}"
  have "opAt I a \<in> S" if "a < 2 * iN I" for a
    using addr_cases[OF assms(1) that] wfInstD[OF assms(1)] S by (metis lessThan_iff)
  then show "remain I S = []" by (auto simp: remain_def filter_empty_conv)
qed

section \<open>Lifting an operation\<close>

lemma lastRet_Some:
  assumes "r < length xs" "ekind (xs ! r) = returnEntry" "eid (xs ! r) = i"
    and "\<And>j. r < j \<Longrightarrow> j < length xs \<Longrightarrow> \<not> (ekind (xs ! j) = returnEntry \<and> eid (xs ! j) = i)"
  shows "lastRet xs i = Some r"
  using assms
proof (induction xs rule: rev_induct)
  case (snoc e xs)
  show ?case
  proof (cases "r = length xs")
    case True
    then show ?thesis using snoc.prems by simp
  next
    case False
    then have r: "r < length xs" using snoc.prems(1) by simp
    have "\<not> (ekind e = returnEntry \<and> eid e = i)" using snoc.prems(4)[of "length xs"] r by simp
    moreover have "lastRet xs i = Some r"
    proof (rule snoc.IH[OF r])
      show "ekind (xs ! r) = returnEntry" "eid (xs ! r) = i" using snoc.prems(2,3) r by (simp_all add: nth_append)
      show "\<not> (ekind (xs ! j) = returnEntry \<and> eid (xs ! j) = i)" if "r < j" "j < length xs" for j
        using snoc.prems(4)[OF that(1)] that(2) by (simp add: nth_append)
    qed
    ultimately show ?thesis by auto
  qed
qed simp

lemma match_of_call:
  assumes "wfInst I" "k < iN I" "heapOK I h S"
  shows "nmatch (h ! iC I k) = Some (iR I k)"
proof -
  note w = wfInstD[OF assms(1,2)]
  have uniq: "j = iR I k" if "j < 2 * iN I" "ekind (iEnts I ! j) = returnEntry" "eid (iEnts I ! j) = int k" for j
    using addr_cases[OF assms(1) that(1)] that(2,3) wfInstD[OF assms(1)] by (metis entryKind.distinct(1) of_nat_eq_iff)
  have len: "length (take (iC I k) (iEnts I)) = iC I k" using w(2) assms(1) by (simp add: wfInst_def)
  have "lastRet (take (iC I k) (iEnts I)) (int k) = Some (iR I k)"
  proof (rule lastRet_Some)
    show "iR I k < length (take (iC I k) (iEnts I))" using w(1) len by simp
    show "ekind (take (iC I k) (iEnts I) ! iR I k) = returnEntry" "eid (take (iC I k) (iEnts I) ! iR I k) = int k"
      using w by simp_all
    show "\<not> (ekind (take (iC I k) (iEnts I) ! j) = returnEntry \<and> eid (take (iC I k) (iEnts I) ! j) = int k)"
      if "iR I k < j" "j < length (take (iC I k) (iEnts I))" for j
      using that uniq[of j] w(2) unfolding len by auto
  qed
  moreover have "nodeOf (iEnts I) (iC I k) (h ! iC I k)"
    using assms(1,3) w(2) by (simp add: heapOK_def nodesOf_def wfInst_def)
  ultimately show ?thesis using w by (simp add: nodeOf_def)
qed

lemma node_at:
  assumes "wfInst I" "heapOK I h S" "a < 2 * iN I"
  shows "nvalue (h ! a) = Some (evalue (iEnts I ! a))" "nid (h ! a) = eid (iEnts I ! a)"
    "ekind (iEnts I ! a) = returnEntry \<Longrightarrow> nmatch (h ! a) = None" "a < length h"
  using assms by (auto simp: heapOK_def nodesOf_def nodeOf_def wfInst_def)

lemma remain_split:
  assumes "wfInst I" "k < iN I" "k \<notin> S"
  obtains ps us vs where "remain I S = ps @ iC I k # us @ iR I k # vs" "remain I (insert k S) = ps @ us @ vs"
proof -
  note w = wfInstD[OF assms(1,2)]
  obtain ps qs where pq: "remain I S = ps @ iC I k # qs"
    using remain_mem(1)[OF assms(1,2)] assms(3) by (meson split_list)
  have "iR I k \<in> set qs"
    using remain_mem(2)[OF assms(1,2), of S] assms(3) pq remain_sorted[of I S] w(1) by (auto simp: sorted_wrt_append)
  then obtain us vs where uv: "qs = us @ iR I k # vs" by (meson split_list)
  have r: "remain I S = ps @ iC I k # us @ iR I k # vs" using pq uv by simp
  have other: "opAt I a \<noteq> k" if "a \<in> set (remain I S)" "a \<noteq> iC I k" "a \<noteq> iR I k" for a
    using addr_cases[OF assms(1) remain_bound[OF that(1)]] that(2,3) wfInstD(4,5)[OF assms(1)] by metis
  have "remain I (insert k S) = filter (\<lambda>a. opAt I a \<noteq> k) (remain I S)"
    by (auto simp: remain_def intro!: filter_cong)
  also have "\<dots> = ps @ us @ vs"
  proof -
    have "distinct (remain I S)" using remain_distinct[of I S] by simp
    then have "a \<noteq> iC I k" "a \<noteq> iR I k" "a \<in> set (remain I S)" if "a \<in> set (ps @ us @ vs)" for a
      using that unfolding r by auto
    then have "opAt I a \<noteq> k" if "a \<in> set (ps @ us @ vs)" for a using that other by blast
    then have "filter (\<lambda>a. opAt I a \<noteq> k) ps = ps" "filter (\<lambda>a. opAt I a \<noteq> k) us = us" "filter (\<lambda>a. opAt I a \<noteq> k) vs = vs"
      by (auto simp: filter_id_conv)
    then show ?thesis unfolding r using w(4,5) by simp
  qed
  finally show ?thesis using that r by blast
qed

lemma lift_heap:
  assumes w: "wfInst I" "k < iN I" and h: "heapOK I h S" "k \<notin> S"
  shows "\<exists>h'. lift (Some (iC I k)) h = Some h' \<and> heapOK I h' (insert k S) \<and> unlift (Some (iC I k)) h' = Some h"
proof -
  obtain ps us vs where r: "remain I S = ps @ iC I k # us @ iR I k # vs" "remain I (insert k S) = ps @ us @ vs"
    using remain_split[OF w h(2)] .
  obtain xs x where x: "2 * iN I # ps = xs @ [x]" by (metis append_butlast_last_id list.distinct(1))
  have e: "2 * iN I # ps @ zs = xs @ x # zs" for zs using arg_cong[OF x, of "\<lambda>l. l @ zs"] by simp
  have "dseg h None (xs @ x # iC I k # us @ iR I k # vs) None" "distinct (xs @ x # iC I k # us @ iR I k # vs)"
    using h(1) remain_distinct[of I S] unfolding heapOK_def r(1) e by auto
  from lift_list[OF this match_of_call[OF w h(1)]] obtain h' where h': "lift (Some (iC I k)) h = Some h'"
      "dseg h' None (xs @ x # us @ vs) None" "sameNodes h h'" "unlift (Some (iC I k)) h' = Some h" by blast
  have "heapOK I h' (insert k S)"
    using h(1) h'(2,3) nodesOf_same[OF _ h'(3)] unfolding heapOK_def r(2) e by (simp add: sameNodes_def)
  then show ?thesis using h' by blast
qed

text \<open>The first node of the list, and the successor of a node.\<close>

lemma head_next: "heapOK I h S \<Longrightarrow> nnext (h ! (2 * iN I)) = headOr (remain I S) None"
  by (auto simp: heapOK_def headOr_def split: list.splits)

lemma next_remain:
  assumes "heapOK I h S" "a \<in> set (remain I S)" "b \<in> set (remain I S)" "b < a"
  shows "\<exists>c \<in> set (remain I S). nnext (h ! a) = Some c \<and> c < a \<and> (\<forall>d \<in> set (remain I S). c < d \<longrightarrow> a \<le> d)"
proof -
  obtain ps qs where r: "remain I S = ps @ a # qs" using assms(2) by (meson split_list)
  have s: "sorted_wrt (>) (ps @ a # qs)" using remain_sorted[of I S] r by simp
  then have "b \<in> set qs" using assms(3,4) r by (auto simp: sorted_wrt_append)
  then obtain c cs where q: "qs = c # cs" by (cases qs) auto
  have "nnext (h ! a) = Some c" using assms(1) unfolding heapOK_def r q by (simp add: dseg_append)
  then show ?thesis using s unfolding r q by (fastforce simp: sorted_wrt_append)
qed

end
