(* ===== verification/Porcupine_DFS.thy ===== *)
theory Porcupine_DFS
  imports Porcupine_Search
begin

text \<open>
  Correctness of the search loop of \<open>checkSingle\<close>: paths of configurations, the search stack, the invariant of the
  loop and its termination order.
\<close>

section \<open>Configurations\<close>

definition stepsTo :: "('v, 's) Model \<Rightarrow> 'v Inst \<Rightarrow> 's \<Rightarrow> nat \<Rightarrow> 's \<Rightarrow> bool" where
  "stepsTo model I s k s' \<longleftrightarrow> Step model s (fst (inOutOf I k)) (snd (inOutOf I k)) = Some (True, s')"

text \<open>No return of an operation that is left stands before the address.\<close>

definition noRet :: "'v Inst \<Rightarrow> nat set \<Rightarrow> nat \<Rightarrow> bool" where
  "noRet I S p \<longleftrightarrow> (\<forall>j < iN I. j \<notin> S \<longrightarrow> \<not> p < iR I j)"

definition cand :: "'v Inst \<Rightarrow> nat set \<Rightarrow> nat \<Rightarrow> bool" where
  "cand I S k \<longleftrightarrow> k < iN I \<and> k \<notin> S \<and> noRet I S (iC I k)"

inductive path :: "('v, 's) Model \<Rightarrow> 'v Inst \<Rightarrow> nat list \<Rightarrow> 's \<Rightarrow> bool" for model I where
  path_Nil: "path model I [] (Init model)"
| path_snoc: "path model I ks s \<Longrightarrow> cand I (set ks) k \<Longrightarrow> stepsTo model I s k s' \<Longrightarrow> path model I (ks @ [k]) s'"

inductive_cases path_snocE: "path model I (ks @ [k]) s"

lemma path_facts: "path model I ks s \<Longrightarrow> distinct ks \<and> set ks \<subseteq> {..<iN I}"
  by (induction rule: path.induct) (auto simp: cand_def)

lemma path_det: "path model I ks s \<Longrightarrow> path model I ks s' \<Longrightarrow> s = s'"
proof (induction arbitrary: s' rule: path.induct)
  case path_Nil
  then show ?case by (cases rule: path.cases) auto
next
  case (path_snoc ks s k s1)
  from path_snoc.prems obtain s0 where "path model I ks s0" "stepsTo model I s0 k s'"
    by (cases rule: path.cases) auto
  then show ?case using path_snoc by (auto simp: stepsTo_def)
qed

definition universe :: "('v, 's) Model \<Rightarrow> 'v Inst \<Rightarrow> (nat set \<times> 's) set" where
  "universe model I = {(set ks, s) | ks s. path model I ks s}"

lemma universeI: "path model I ks s \<Longrightarrow> (set ks, s) \<in> universe model I"
  by (auto simp: universe_def)

lemma finite_universe: "finite (universe model I)"
proof -
  let ?A = "{ks. set ks \<subseteq> {..<iN I} \<and> distinct ks}"
  have "universe model I \<subseteq> (\<Union>ks \<in> ?A. (\<lambda>s. (set ks, s)) ` {s. path model I ks s})"
    using path_facts by (fastforce simp: universe_def)
  moreover have "finite {s. path model I ks s}" for ks
  proof (cases "\<exists>s. path model I ks s")
    case True
    then obtain s where p: "path model I ks s" by blast
    have "{s. path model I ks s} \<subseteq> {s}" using path_det[OF p] by auto
    then show ?thesis by (rule finite_subset) simp
  qed simp
  moreover have "finite ?A" by (rule finite_subset_distinct) simp
  ultimately show ?thesis by (meson finite_UN_I finite_imageI finite_subset)
qed

text \<open>All successors of a configuration are visited; those by calls before an address are.\<close>

definition expanded :: "('v, 's) Model \<Rightarrow> 'v Inst \<Rightarrow> (nat set \<times> 's) set \<Rightarrow> nat set \<times> 's \<Rightarrow> bool" where
  "expanded model I V c \<longleftrightarrow>
     (\<forall>k s'. cand I (fst c) k \<longrightarrow> stepsTo model I (snd c) k s' \<longrightarrow> (insert k (fst c), s') \<in> V)"

definition handled :: "('v, 's) Model \<Rightarrow> 'v Inst \<Rightarrow> (nat set \<times> 's) set \<Rightarrow> nat set \<Rightarrow> 's \<Rightarrow> nat \<Rightarrow> bool" where
  "handled model I V S s p \<longleftrightarrow>
     (\<forall>k s'. k < iN I \<longrightarrow> k \<notin> S \<longrightarrow> p < iC I k \<longrightarrow> stepsTo model I s k s' \<longrightarrow> (insert k S, s') \<in> V)"

lemma expanded_mono: "expanded model I V c \<Longrightarrow> V \<subseteq> W \<Longrightarrow> expanded model I W c"
  by (auto simp: expanded_def)

lemma handled_mono: "handled model I V S s p \<Longrightarrow> V \<subseteq> W \<Longrightarrow> handled model I W S s p"
  by (auto simp: handled_def)

text \<open>A return entry that is reached with every call before it handled: the configuration is expanded.\<close>

lemma handled_at_return:
  assumes "handled model I V S s (iR I j)" "j < iN I" "j \<notin> S" "wfInst I"
  shows "expanded model I V (S, s)"
proof -
  have "iR I j < iC I k" if "cand I S k" for k
  proof -
    have "\<not> iC I k < iR I j" "k < iN I" using that assms(2,3) by (auto simp: cand_def noRet_def)
    moreover have "iC I k \<noteq> iR I j" using wfInstD(6,7)[OF assms(4)] assms(2) calculation(2) by (metis entryKind.distinct(1))
    ultimately show ?thesis by simp
  qed
  then show ?thesis using assms(1) by (auto simp: expanded_def handled_def cand_def)
qed

text \<open>When everything visited is expanded, every path ends in a visited configuration.\<close>

lemma expanded_all:
  assumes "\<And>c. c \<in> insert ({}, Init model) V \<Longrightarrow> expanded model I V c" "path model I ks s"
  shows "(set ks, s) \<in> insert ({}, Init model) V"
  using assms(2)
proof (induction rule: path.induct)
  case (path_snoc ks s k s')
  then show ?case using assms(1)[of "(set ks, s)"] by (auto simp: expanded_def)
qed simp

section \<open>The stack\<close>

text \<open>Each frame of the stack was pushed with all earlier calls of its list handled, and lifting its operation can be
  undone.\<close>

inductive stack :: "('v, 's) Model \<Rightarrow> 'v Inst \<Rightarrow> (nat set \<times> 's) set \<Rightarrow> 'v heap \<Rightarrow> (nat \<times> 's) list \<Rightarrow> nat list \<Rightarrow> 's \<Rightarrow>
    (nat set \<times> 's) set \<Rightarrow> bool" for model I V where
  bottom: "heapOK I h {} \<Longrightarrow> stack model I V h [] [] (Init model) {({}, Init model)}"
| frame: "stack model I V h calls ks s K \<Longrightarrow> cand I (set ks) k \<Longrightarrow> stepsTo model I s k s' \<Longrightarrow>
    handled model I V (set ks) s (iC I k) \<Longrightarrow> (insert k (set ks), s') \<in> V \<Longrightarrow>
    heapOK I h' (insert k (set ks)) \<Longrightarrow> unlift (Some (iC I k)) h' = Some h \<Longrightarrow>
    stack model I V h' (calls @ [(iC I k, s)]) (ks @ [k]) s' (insert (insert k (set ks), s') K)"

inductive_cases stack_NilE: "stack model I V h [] ks s K"

lemma stack_mono: "stack model I V h calls ks s K \<Longrightarrow> V \<subseteq> W \<Longrightarrow> stack model I W h calls ks s K"
proof (induction rule: stack.induct)
  case (frame h calls ks s K k s' h')
  then show ?case using handled_mono[OF frame.hyps(4)] by (intro stack.frame) auto
qed (rule stack.bottom)

lemma stack_path: "stack model I V h calls ks s K \<Longrightarrow> path model I ks s"
  by (induction rule: stack.induct) (auto intro: path.intros)

lemma stack_heap: "stack model I V h calls ks s K \<Longrightarrow> heapOK I h (set ks)"
  by (induction rule: stack.induct) auto

lemma stack_calls: "stack model I V h calls ks s K \<Longrightarrow> map fst calls = map (iC I) ks"
  by (induction rule: stack.induct) auto

lemma stack_lastE:
  assumes "stack model I V h calls ks s K" "calls \<noteq> []"
  obtains h0 calls0 ks0 s0 K0 k where "stack model I V h0 calls0 ks0 s0 K0" "cand I (set ks0) k" "stepsTo model I s0 k s"
    "handled model I V (set ks0) s0 (iC I k)" "(insert k (set ks0), s) \<in> V" "unlift (Some (iC I k)) h = Some h0"
    "calls = calls0 @ [(iC I k, s0)]" "ks = ks0 @ [k]" "K = insert (insert k (set ks0), s) K0"
  using assms by (cases rule: stack.cases) auto

section \<open>The invariant of the loop\<close>

definition visited :: "nat \<Rightarrow> 's cache \<Rightarrow> (nat set \<times> 's) set" where
  "visited n c = {(bits b, s) | b s. length b = length (newBitset n) \<and> (b, s) \<in> set (c (bhash b))}"

lemma visited_iff:
  assumes "length b = length (newBitset n)"
  shows "(bits b, s) \<in> visited n c \<longleftrightarrow> (b, s) \<in> set (c (bhash b))"
proof
  assume "(bits b, s) \<in> visited n c"
  then obtain b' where b': "bits b' = bits b" "length b' = length (newBitset n)" "(b', s) \<in> set (c (bhash b'))"
    by (auto simp: visited_def)
  then have "b' = b" using bits_inject[of b' b] assms by simp
  then show "(b, s) \<in> set (c (bhash b))" using b'(3) by simp
qed (use assms in \<open>auto simp: visited_def\<close>)

lemma visited_add:
  assumes "length b = length (newBitset n)"
  shows "visited n (c(bhash b := c (bhash b) @ [(b, s)])) = insert (bits b, s) (visited n c)"
proof -
  let ?E = "\<lambda>c. {(b, s). length b = length (newBitset n) \<and> (b, s) \<in> set (c (bhash b))}"
  have "visited n c = (\<lambda>(b, s). (bits b, s)) ` ?E c" for c :: "'a cache" by (auto simp: visited_def)
  moreover have "?E (c(bhash b := c (bhash b) @ [(b, s)])) = insert (b, s) (?E c)"
    using assms by (auto split: if_splits)
  ultimately show ?thesis by simp
qed

lemma cacheContains_visited:
  assumes "length b = length (newBitset n)"
  shows "cacheContains (=) c (b, s) \<longleftrightarrow> (bits b, s) \<in> visited n c"
  unfolding visited_iff[OF assms] by (force simp: cacheContains_def list_ex_iff bequals_iff)

definition searchRank :: "('v, 's) Model \<Rightarrow> 'v Inst \<Rightarrow> ('v, 's) Search \<Rightarrow> nat \<times> nat" where
  "searchRank model I st =
    (card (universe model I - visited (iN I) (sCache st)),
     sum_list (map fst (sCalls st)) + (case sEntry st of None \<Rightarrow> 0 | Some p \<Rightarrow> Suc p))"

text \<open>The first entry of what is left.\<close>

lemma first_entry:
  assumes "wfInst I" "heapOK I h S" "S \<subseteq> {..<iN I}" "S \<noteq> {..<iN I}"
  shows "\<exists>p \<in> set (remain I S). nnext (h ! (2 * iN I)) = Some p \<and> handled model I V S s p \<and> noRet I S p"
proof -
  obtain p ps where r: "remain I S = p # ps" using remain_Nil[OF assms(1,3)] assms(4) by (cases "remain I S") auto
  have le: "a \<le> p" if "a \<in> set (remain I S)" for a using that remain_sorted[of I S] unfolding r by auto
  have "\<not> p < iC I k" "\<not> p < iR I k" if "k < iN I" "k \<notin> S" for k
    using le remain_mem[OF assms(1) that(1), of S] that(2) by (auto simp: not_less)
  then show ?thesis using head_next[OF assms(2)] unfolding r by (auto simp: handled_def noRet_def)
qed

section \<open>The steps of the loop\<close>

text \<open>What the search relies on: the model's step function does not panic on the operations of the history, states are compared by
  equality, and the operations can be counted in a machine integer.\<close>

definition modelOK :: "('v, 's) Model \<Rightarrow> 'v Inst \<Rightarrow> bool" where
  "modelOK model I \<longleftrightarrow> (\<forall>s. \<forall>k < iN I. Step model s (fst (inOutOf I k)) (snd (inOutOf I k)) \<noteq> None) \<and>
     modelEqual model = (=) \<and> iN I < 2 ^ 64"

lemma uint_of_id: "k < 2 ^ 64 \<Longrightarrow> uint_of (int k) = k"
  by (simp add: uint_of_def)

lemma lin_capacity: "length b = length (newBitset n) \<Longrightarrow> k < n \<Longrightarrow> k < capacity b"
  using newBitset_capacity(1)[of n] by (simp add: capacity_def)

text \<open>The pointer moves on from a call that leads nowhere new.\<close>

lemma move_on:
  assumes w: "wfInst I" and h: "heapOK I h S" and k: "k < iN I" "k \<notin> S"
    and p: "handled model I V S s (iC I k)" "noRet I S (iC I k)"
    and new: "\<And>s'. stepsTo model I s k s' \<Longrightarrow> (insert k S, s') \<in> V"
  shows "\<exists>c \<in> set (remain I S). nnext (h ! iC I k) = Some c \<and> c < iC I k \<and> handled model I V S s c \<and> noRet I S c"
proof -
  note m = remain_mem[OF w]
  obtain c where c: "c \<in> set (remain I S)" "nnext (h ! iC I k) = Some c" "c < iC I k"
      "\<forall>d \<in> set (remain I S). c < d \<longrightarrow> iC I k \<le> d"
    using next_remain[OF h _ _ wfInstD(1)[OF w k(1)]] m(1,2)[OF k(1), of S] k(2) by blast
  have "(insert j S, s') \<in> V" if "j < iN I" "j \<notin> S" "c < iC I j" "stepsTo model I s j s'" for j s'
  proof (cases "j = k")
    case True
    then show ?thesis using new that(4) by simp
  next
    case False
    then have "iC I j \<noteq> iC I k" using wfInstD(4)[OF w] that(1) k(1) by metis
    moreover have "iC I k \<le> iC I j" using c(4) m(1)[OF that(1), of S] that(2,3) by blast
    ultimately show ?thesis using p(1) that by (auto simp: handled_def)
  qed
  moreover have "\<not> c < iR I j" if "j < iN I" "j \<notin> S" for j
  proof
    assume "c < iR I j"
    then have "iC I k \<le> iR I j" using c(4) m(2)[OF that(1), of S] that(2) by blast
    moreover have "iC I k \<noteq> iR I j" using wfInstD(6,7)[OF w] that(1) k(1) by (metis entryKind.distinct(1))
    ultimately show False using p(2) that by (auto simp: noRet_def)
  qed
  ultimately show ?thesis using c by (auto simp: handled_def noRet_def)
qed

text \<open>The recorded sequences are paths, and the pointers of \<open>longest\<close> point to them.\<close>

definition seqsOK :: "('v, 's) Model \<Rightarrow> 'v Inst \<Rightarrow> nat option list \<Rightarrow> int list list \<Rightarrow> bool" where
  "seqsOK model I longest seqs \<longleftrightarrow> (\<forall>q \<in> set seqs. \<exists>ks s. q = map int ks \<and> path model I ks s) \<and>
     (\<forall>q. Some q \<in> set longest \<longrightarrow> q < length seqs)"

lemma seqsOK_append:
  "seqsOK model I longest seqs \<Longrightarrow> path model I ks s \<Longrightarrow> seqsOK model I longest (seqs @ [map int ks])"
  unfolding seqsOK_def by fastforce

lemma seqsOK_point:
  "seqsOK model I longest seqs \<Longrightarrow> seqs \<noteq> [] \<Longrightarrow> seqsOK model I (longest[i := Some (length seqs - 1)]) seqs"
  unfolding seqsOK_def using set_update_subset_insert[of longest i "Some (length seqs - 1)"] by auto

text \<open>A configuration on the stack and its facts, for the lemmas on the three steps.\<close>

definition onStack :: "('v, 's) Model \<Rightarrow> 'v Inst \<Rightarrow> ('v, 's) Search \<Rightarrow> nat list \<Rightarrow> (nat set \<times> 's) set \<Rightarrow> bool" where
  "onStack model I st ks K \<longleftrightarrow> (let V = visited (iN I) (sCache st) in
     stack model I V (sHeap st) (sCalls st) ks (sState st) K \<and>
     bits (sLin st) = set ks \<and> length (sLin st) = length (newBitset (iN I)) \<and> length (sLongest st) = iN I \<and>
     seqsOK model I (sLongest st) (sSeqs st) \<and> V \<subseteq> universe model I \<and> (\<forall>c \<in> insert ({}, Init model) V - K. expanded model I V c))"

definition atEntry :: "('v, 's) Model \<Rightarrow> 'v Inst \<Rightarrow> ('v, 's) Search \<Rightarrow> nat set \<Rightarrow> nat \<Rightarrow> bool" where
  "atEntry model I st S p \<longleftrightarrow> p \<in> set (remain I S) \<and> sEntry st = Some p \<and>
     handled model I (visited (iN I) (sCache st)) S (sState st) p \<and> noRet I S p"

definition notFull :: "'v Inst \<Rightarrow> ('v, 's) Search \<Rightarrow> bool" where
  "notFull I st \<longleftrightarrow> (\<forall>c \<in> visited (iN I) (sCache st). fst c \<noteq> {..<iN I})"

definition searchInv :: "('v, 's) Model \<Rightarrow> 'v Inst \<Rightarrow> ('v, 's) Search \<Rightarrow> bool" where
  "searchInv model I st \<longleftrightarrow> (\<exists>ks K. onStack model I st ks K \<and>
     (set ks \<noteq> {..<iN I} \<longrightarrow> notFull I st \<and> (\<exists>p. atEntry model I st (set ks) p)))"

lemma searchInvI:
  assumes "onStack model I st ks K" "set ks \<noteq> {..<iN I} \<Longrightarrow> notFull I st"
    "set ks \<noteq> {..<iN I} \<Longrightarrow> \<exists>p. atEntry model I st (set ks) p"
  shows "searchInv model I st"
  using assms unfolding searchInv_def by blast

abbreviation searchOrder :: "((nat \<times> nat) \<times> (nat \<times> nat)) set" where
  "searchOrder \<equiv> less_than <*lex*> less_than"

text \<open>A call whose operation cannot come next, or whose configuration is visited: the pointer moves on.\<close>

lemma move_step:
  assumes w: "wfInst I" and s: "onStack model I st ks K" and o: "notFull I st"
    and k: "k < iN I" "k \<notin> set ks" and p: "atEntry model I st (set ks) (iC I k)"
    and new: "\<And>s'. stepsTo model I (sState st) k s' \<Longrightarrow> (insert k (set ks), s') \<in> visited (iN I) (sCache st)"
  defines "st' \<equiv> st\<lparr>sEntry := nnext (sHeap st ! iC I k)\<rparr>"
  shows "searchInv model I st' \<and> (searchRank model I st', searchRank model I st) \<in> searchOrder"
proof -
  have st: "stack model I (visited (iN I) (sCache st)) (sHeap st) (sCalls st) ks (sState st) K"
    using s by (simp add: onStack_def Let_def)
  obtain c where c: "c \<in> set (remain I (set ks))" "nnext (sHeap st ! iC I k) = Some c" "c < iC I k"
      "handled model I (visited (iN I) (sCache st)) (set ks) (sState st) c" "noRet I (set ks) c"
    using move_on[OF w stack_heap[OF st] k _ _ new] p by (auto simp: atEntry_def)
  have "onStack model I st' ks K" "notFull I st'" "atEntry model I st' (set ks) c"
    using s o c by (simp_all add: st'_def onStack_def notFull_def atEntry_def)
  then have "searchInv model I st'" by (blast intro: searchInvI)
  moreover have "(searchRank model I st', searchRank model I st) \<in> searchOrder"
    using p c(2,3) by (simp add: searchRank_def st'_def atEntry_def)
  ultimately show ?thesis by blast
qed

text \<open>A call whose operation may come next and leads to a new configuration: it is pushed.\<close>

lemma push_step:
  assumes w: "wfInst I" and s: "onStack model I st ks K" and o: "notFull I st"
    and k: "k < iN I" "k \<notin> set ks" and p: "atEntry model I st (set ks) (iC I k)"
    and step: "stepsTo model I (sState st) k s'" and new: "(insert k (set ks), s') \<notin> visited (iN I) (sCache st)"
    and b: "bset (sLin st) k = Some b" and h: "lift (Some (iC I k)) (sHeap st) = Some h1"
  defines "st' \<equiv> st\<lparr>sCache := (sCache st)(bhash b := sCache st (bhash b) @ [(b, s')]), sCalls := sCalls st @ [(iC I k, sState st)],
      sState := s', sLin := b, sHeap := h1, sEntry := nnext (h1 ! (2 * iN I))\<rparr>"
  shows "searchInv model I st' \<and> (searchRank model I st', searchRank model I st) \<in> searchOrder"
proof -
  let ?V = "visited (iN I) (sCache st)" and ?S = "insert k (set ks)"
  have st: "stack model I ?V (sHeap st) (sCalls st) ks (sState st) K"
    and l: "bits (sLin st) = set ks" "length (sLin st) = length (newBitset (iN I))" "length (sLongest st) = iN I"
    and q: "seqsOK model I (sLongest st) (sSeqs st)"
    and u: "?V \<subseteq> universe model I" "\<forall>c \<in> insert ({}, Init model) ?V - K. expanded model I ?V c"
    using s by (simp_all add: onStack_def Let_def)
  have bb: "bits b = ?S" "length b = length (newBitset (iN I))" using bset_bits(1)[OF b] bset_length[OF b] l by auto
  have V': "visited (iN I) (sCache st') = insert (?S, s') ?V" using visited_add[OF bb(2)] bb(1) by (simp add: st'_def)
  have cd: "cand I (set ks) k" using k p by (simp add: cand_def atEntry_def)
  have h1: "heapOK I h1 ?S" "unlift (Some (iC I k)) h1 = Some (sHeap st)"
    using lift_heap[OF w k(1) stack_heap[OF st] k(2)] h by auto
  have stk: "stack model I (insert (?S, s') ?V) h1 (sCalls st @ [(iC I k, sState st)]) (ks @ [k]) s' (insert (?S, s') K)"
  proof (rule stack.frame[OF stack_mono[OF st] cd step _ _ h1])
    show "handled model I (insert (?S, s') ?V) (set ks) (sState st) (iC I k)"
      by (rule handled_mono[of model I ?V]) (use p in \<open>auto simp: atEntry_def\<close>)
  qed auto
  note pth = stack_path[OF stk]
  have un: "(?S, s') \<in> universe model I" using universeI[OF pth] by simp
  have ex: "\<forall>c \<in> insert ({}, Init model) (insert (?S, s') ?V) - insert (?S, s') K. expanded model I (insert (?S, s') ?V) c"
    using u(2) by (blast intro: expanded_mono)
  have "onStack model I st' (ks @ [k]) (insert (?S, s') K)"
    using stk bb l(3) q u(1) un ex unfolding onStack_def Let_def V' by (simp add: st'_def)
  moreover have "notFull I st'" if "set (ks @ [k]) \<noteq> {..<iN I}" using o that unfolding notFull_def V' by auto
  moreover have "\<exists>p. atEntry model I st' (set (ks @ [k])) p" if "set (ks @ [k]) \<noteq> {..<iN I}"
    using first_entry[OF w h1(1)] path_facts[OF pth] that unfolding atEntry_def by (fastforce simp: st'_def)
  ultimately have "searchInv model I st'" by (rule searchInvI)
  moreover have "card (universe model I - insert (?S, s') ?V) < card (universe model I - ?V)"
    using un new finite_universe[of model I] by (intro psubset_card_mono) auto
  ultimately show ?thesis by (simp add: searchRank_def V')
qed

lemma tryCall_step:
  assumes w: "wfInst I" and mo: "modelOK model I" and s: "onStack model I st ks K" and o: "notFull I st"
    and k: "k < iN I" "k \<notin> set ks" and p: "atEntry model I st (set ks) (iC I k)"
  shows "\<exists>st'. tryCall model (2 * iN I) (sHeap st ! iC I k) st = Some st' \<and> searchInv model I st' \<and>
    (searchRank model I st', searchRank model I st) \<in> searchOrder"
proof -
  let ?h = "sHeap st" and ?V = "visited (iN I) (sCache st)"
  have st: "stack model I ?V ?h (sCalls st) ks (sState st) K"
    and l: "bits (sLin st) = set ks" "length (sLin st) = length (newBitset (iN I))"
    using s by (simp_all add: onStack_def Let_def)
  note h = stack_heap[OF st] and wk = wfInstD[OF w k(1)]
  note nc = node_at[OF w h wk(2)] and nr = node_at[OF w h wk(3)]
  have m: "nmatch (?h ! iC I k) = Some (iR I k)" using match_of_call[OF w k(1) h] .
  have id: "uint_of (nid (?h ! iC I k)) = k" using nc(2) wk(8) mo k(1) by (simp add: uint_of_id modelOK_def)
  have eq: "modelEqual model = (=)" using mo by (simp add: modelOK_def)
  obtain ok s' where stp: "Step model (sState st) (evalue (iEnts I ! iC I k)) (evalue (iEnts I ! iR I k)) = Some (ok, s')"
    using mo k(1) by (fastforce simp: modelOK_def inOutOf_def)
  obtain b where b: "bset (sLin st) k = Some b" using bset_total[OF lin_capacity[OF l(2) k(1)]] by blast
  have bb: "bits b = insert k (set ks)" "length b = length (newBitset (iN I))"
    using bset_bits(1)[OF b] bset_length[OF b] l by auto
  obtain h1 where h1: "lift (Some (iC I k)) ?h = Some h1" "heapOK I h1 (insert k (set ks))"
    using lift_heap[OF w k(1) h k(2)] by blast
  note tc = tryCall_def Let_def deref_def m nc(1,4) nr(1,4) stp id eq b h1(1) clone_def cacheContains_visited[OF bb(2)] bb(1)
  consider "\<not> ok" | "ok" "(insert k (set ks), s') \<in> ?V" | "ok" "(insert k (set ks), s') \<notin> ?V" by blast
  then show ?thesis
  proof cases
    case 3
    have "stepsTo model I (sState st) k s'" using stp 3 by (simp add: stepsTo_def inOutOf_def)
    from push_step[OF w s o k p this 3(2) b h1(1)] show ?thesis
      using 3 p h1(2) by (simp add: tc atEntry_def heapOK_def)
  qed (use move_step[OF w s o k p] stp in \<open>simp_all add: tc stepsTo_def inOutOf_def\<close>)
qed

text \<open>The sequences of identifiers that the search records.\<close>

lemma callIds_ok:
  assumes w: "wfInst I" and st: "stack model I V h calls ks s K"
  shows "callIds h calls = Some (map int ks)"
proof -
  note h = stack_heap[OF st] and cs = stack_calls[OF st]
  have "set ks \<subseteq> {..<iN I}" using path_facts[OF stack_path[OF st]] by simp
  then have "map (\<lambda>a. map_option nid (deref h (Some a))) (map (iC I) ks) = map Some (map int ks)"
    using node_at[OF w h] wfInstD[OF w] by (auto simp: deref_def)
  moreover have "those (map Some xs) = Some xs" for xs :: "int list" by (induction xs) auto
  moreover have "map (\<lambda>c. map_option nid (deref h (Some (fst c)))) calls = map (\<lambda>a. map_option nid (deref h (Some a))) (map fst calls)"
    by simp
  ultimately show ?thesis unfolding callIds_def cs by (simp only:)
qed

lemma recordLongest_ok:
  assumes p: "path model I ks s"
  shows "seqsOK model I longest seqs \<Longrightarrow> (made \<longrightarrow> seqs \<noteq> []) \<Longrightarrow> \<forall>i \<in> set is. 0 \<le> i \<and> i < int (length longest) \<Longrightarrow>
    \<exists>l q. recordLongest (map int ks) is longest seqs made = Some (l, q) \<and> length l = length longest \<and> seqsOK model I l q"
proof (induction "is" arbitrary: longest seqs made)
  case (Cons i "is")
  define seqs1 where "seqs1 = (if made then seqs else seqs @ [map int ks])"
  have s1: "seqsOK model I longest seqs1" "seqs1 \<noteq> []"
    using Cons.prems(1,2) seqsOK_append[OF Cons.prems(1) p] by (auto simp: seqs1_def)
  have i: "idx longest i = Some (longest ! nat i)" "set_idx longest i v = Some (longest[nat i := v])" for v
    using Cons.prems(3) by (simp_all add: go_defs)
  let ?l1 = "longest[nat i := Some (length seqs1 - 1)]"
  have "\<exists>l q. recordLongest (map int ks) is ?l1 seqs1 True = Some (l, q) \<and> length l = length ?l1 \<and> seqsOK model I l q"
    by (rule Cons.IH[OF seqsOK_point[OF s1]]) (use Cons.prems(3) s1(2) in simp_all)
  moreover have "\<exists>l q. recordLongest (map int ks) is longest seqs made = Some (l, q) \<and> length l = length longest \<and> seqsOK model I l q"
    by (rule Cons.IH[OF Cons.prems(1,2)]) (use Cons.prems(3) in simp)
  ultimately show ?case by (simp add: i Let_def seqs1_def)
qed simp

text \<open>A return whose operation is not linearized: the last call is taken back.\<close>

lemma pop_step:
  assumes w: "wfInst I" and s: "onStack model I st ks K" and o: "notFull I st"
    and st0: "stack model I (visited (iN I) (sCache st)) h0 calls0 ks0 s0 K0" and cd: "cand I (set ks0) k"
    and step: "stepsTo model I s0 k (sState st)" and hd0: "handled model I (visited (iN I) (sCache st)) (set ks0) s0 (iC I k)"
    and new: "(insert k (set ks0), sState st) \<in> visited (iN I) (sCache st)"
    and e: "sCalls st = calls0 @ [(iC I k, s0)]" "ks = ks0 @ [k]" "K = insert (insert k (set ks0), sState st) K0"
    and j: "j < iN I" "j \<notin> set ks" and p: "atEntry model I st (set ks) (iR I j)"
    and b: "bclear (sLin st) k = Some b" and l: "length longest = iN I" "seqsOK model I longest seqs"
  defines "st' \<equiv> st\<lparr>sLongest := longest, sSeqs := seqs, sState := s0, sLin := b, sCalls := calls0, sHeap := h0,
      sEntry := nnext (h0 ! iC I k)\<rparr>"
  shows "searchInv model I st' \<and> (searchRank model I st', searchRank model I st) \<in> searchOrder"
proof -
  let ?V = "visited (iN I) (sCache st)"
  have k: "k < iN I" "k \<notin> set ks0" "noRet I (set ks0) (iC I k)" using cd by (auto simp: cand_def)
  have u: "bits (sLin st) = set ks" "length (sLin st) = length (newBitset (iN I))" "?V \<subseteq> universe model I"
      "\<forall>c \<in> insert ({}, Init model) ?V - K. expanded model I ?V c"
    using s by (simp_all add: onStack_def Let_def)
  have "expanded model I ?V (set ks, sState st)"
    using handled_at_return[of model I ?V "set ks" "sState st" j] j w p by (simp add: atEntry_def)
  then have ex: "\<forall>c \<in> insert ({}, Init model) ?V - K0. expanded model I ?V c" using u(4) e(2,3) by auto
  have bb: "bits b = set ks0" "length b = length (newBitset (iN I))"
    using bclear_bits(1)[OF b] bclear_length[OF b] u(1,2) e(2) k(2) by auto
  have V': "visited (iN I) (sCache st') = ?V" by (simp add: st'_def)
  have on: "onStack model I st' ks0 K0"
    using st0 bb l u(3) ex unfolding onStack_def Let_def V' by (simp add: st'_def)
  have "\<And>s'. stepsTo model I s0 k s' \<Longrightarrow> (insert k (set ks0), s') \<in> ?V" using step new by (simp add: stepsTo_def)
  then obtain c where c: "c \<in> set (remain I (set ks0))" "nnext (h0 ! iC I k) = Some c" "c < iC I k"
      "handled model I ?V (set ks0) s0 c" "noRet I (set ks0) c"
    using move_on[OF w stack_heap[OF st0] k(1,2) hd0 k(3)] by blast
  have "atEntry model I st' (set ks0) c" "notFull I st'"
    using c o unfolding atEntry_def notFull_def V' by (simp_all add: st'_def)
  then have "searchInv model I st'" using on by (blast intro: searchInvI)
  moreover have "(searchRank model I st', searchRank model I st) \<in> searchOrder"
    using c(2,3) p e(1) by (simp add: searchRank_def st'_def atEntry_def)
  ultimately show ?thesis by blast
qed

lemma backtrack_step:
  assumes w: "wfInst I" and mo: "modelOK model I" and s: "onStack model I st ks K" and o: "notFull I st"
    and j: "j < iN I" "j \<notin> set ks" and p: "atEntry model I st (set ks) (iR I j)" and ne: "sCalls st \<noteq> []"
  shows "\<exists>st'. backtrack computePartial st = Some st' \<and> searchInv model I st' \<and>
    (searchRank model I st', searchRank model I st) \<in> searchOrder"
proof -
  let ?h = "sHeap st" and ?V = "visited (iN I) (sCache st)"
  have st: "stack model I ?V ?h (sCalls st) ks (sState st) K"
    and l: "bits (sLin st) = set ks" "length (sLin st) = length (newBitset (iN I))" "length (sLongest st) = iN I"
    and q: "seqsOK model I (sLongest st) (sSeqs st)"
    using s by (simp_all add: onStack_def Let_def)
  obtain h0 calls0 ks0 s0 K0 k where f: "stack model I ?V h0 calls0 ks0 s0 K0" "cand I (set ks0) k"
      "stepsTo model I s0 k (sState st)" "handled model I ?V (set ks0) s0 (iC I k)" "(insert k (set ks0), sState st) \<in> ?V"
      "unlift (Some (iC I k)) ?h = Some h0" "sCalls st = calls0 @ [(iC I k, s0)]" "ks = ks0 @ [k]"
      "K = insert (insert k (set ks0), sState st) K0"
    using stack_lastE[OF st ne] .
  have k: "k < iN I" using f(2) by (simp add: cand_def)
  note wk = wfInstD[OF w k] and kl = k[folded l(3)]
  have id: "uint_of (nid (?h ! iC I k)) = k"
    using node_at(2)[OF w stack_heap[OF st] wk(2)] wk(8) mo k by (simp add: uint_of_id modelOK_def)
  have len: "iC I k < length ?h" "iC I k < length h0"
    using node_at(4)[OF w stack_heap[OF st] wk(2)] node_at(4)[OF w stack_heap[OF f(1)] wk(2)] .
  obtain b where b: "bclear (sLin st) k = Some b" using bclear_total[OF lin_capacity[OF l(2) k]] by blast
  have "set ks \<subseteq> {..<iN I}" using path_facts[OF stack_path[OF st]] by simp
  then obtain longest seqs where lo: "recordLongest (map int ks) (map int ks) (sLongest st) (sSeqs st) False = Some (longest, seqs)"
      "length longest = iN I" "seqsOK model I longest seqs"
    using recordLongest_ok[OF stack_path[OF st] q, of False "map int ks"] l(3) by auto
  note bt = backtrack_def callIds_ok[OF w st, unfolded f(7)] lo(1) f(6,7) deref_def len id b
  show ?thesis
    using pop_step[OF w s o f(1-5,7-9) j p b lo(2,3)] pop_step[OF w s o f(1-5,7-9) j p b l(3) q]
    by (cases computePartial) (simp_all add: bt)
qed

section \<open>The loop\<close>

definition completePath :: "('v, 's) Model \<Rightarrow> 'v Inst \<Rightarrow> nat list \<Rightarrow> bool" where
  "completePath model I ks \<longleftrightarrow> set ks = {..<iN I} \<and> (\<exists>s. path model I ks s)"

text \<open>What the search returns: with \<open>true\<close>, the order of a complete path, to which every element of \<open>longest\<close> points; with
  \<open>false\<close>, unless it was killed, there is none.  In both cases the recorded sequences are paths.\<close>

definition searchPost :: "('v, 's) Model \<Rightarrow> 'v Inst \<Rightarrow> (nat \<Rightarrow> bool) \<Rightarrow> bool \<times> nat option list \<times> int list list \<Rightarrow> bool" where
  "searchPost model I kill r \<longleftrightarrow> (case r of (ok, longest, seqs) \<Rightarrow> seqsOK model I longest seqs \<and>
     (if ok then \<exists>ks. completePath model I ks \<and> seqs \<noteq> [] \<and> last seqs = map int ks \<and>
                   longest = replicate (iN I) (Some (length seqs - 1))
      else (\<exists>i. kill i) \<or> (\<forall>ks. \<not> completePath model I ks)))"

lemma exhausted:
  assumes w: "wfInst I" and s: "onStack model I st ks K" and o: "notFull I st" and e: "sCalls st = []"
    and j: "j < iN I" "j \<notin> set ks" and p: "atEntry model I st (set ks) (iR I j)"
  shows "\<not> completePath model I qs"
proof
  let ?V = "visited (iN I) (sCache st)"
  assume "completePath model I qs"
  then obtain s' where q: "path model I qs s'" "set qs = {..<iN I}" by (auto simp: completePath_def)
  have ks: "ks = []" "sState st = Init model" "K = {({}, Init model)}"
    using s e by (auto simp: onStack_def Let_def elim: stack_NilE)
  have "expanded model I ?V (set ks, sState st)"
    using handled_at_return[of model I ?V "set ks" "sState st" j] j w p by (simp add: atEntry_def)
  moreover have "\<forall>c \<in> insert ({}, Init model) ?V - K. expanded model I ?V c" using s by (simp add: onStack_def Let_def)
  ultimately have "expanded model I ?V c" if "c \<in> insert ({}, Init model) ?V" for c
    using that ks by (cases "c = ({}, Init model)") auto
  from expanded_all[OF this q(1)] have "(set qs, s') \<in> insert ({}, Init model) ?V" .
  then show False using o j(1) q(2) by (auto simp: notFull_def)
qed

lemma searchInv_reads: "searchInv model I (st\<lparr>sReads := x\<rparr>) = searchInv model I st"
  "onStack model I (st\<lparr>sReads := x\<rparr>) = onStack model I st" "atEntry model I (st\<lparr>sReads := x\<rparr>) = atEntry model I st"
  "notFull I (st\<lparr>sReads := x\<rparr>) = notFull I st" "searchRank model I (st\<lparr>sReads := x\<rparr>) = searchRank model I st"
  by (simp_all add: searchInv_def onStack_def atEntry_def notFull_def searchRank_def fun_eq_iff)

lemma searchBody_step:
  assumes w: "wfInst I" and mo: "modelOK model I" and inv: "searchInv model I st"
  shows "case searchBody model computePartial kill (2 * iN I) st of
      Halt r \<Rightarrow> searchPost model I kill r
    | Crash \<Rightarrow> False
    | Go st' \<Rightarrow> searchInv model I st' \<and> (searchRank model I st', searchRank model I st) \<in> searchOrder"
proof -
  obtain ks K where s: "onStack model I st ks K" and
    en: "set ks \<noteq> {..<iN I} \<Longrightarrow> notFull I st \<and> (\<exists>p. atEntry model I st (set ks) p)"
    using inv unfolding searchInv_def by blast
  have st: "stack model I (visited (iN I) (sCache st)) (sHeap st) (sCalls st) ks (sState st) K"
    and lo: "length (sLongest st) = iN I" and q: "seqsOK model I (sLongest st) (sSeqs st)" using s by (simp_all add: onStack_def Let_def)
  note h = stack_heap[OF st] and hd = head_next[OF stack_heap[OF st]] and ids = callIds_ok[OF w st]
  have sub: "set ks \<subseteq> {..<iN I}" using path_facts[OF stack_path[OF st]] by simp
  have hl: "2 * iN I < length (sHeap st)" using h by (simp add: heapOK_def)
  show ?thesis
  proof (cases "set ks = {..<iN I}")
    case True
    then have "completePath model I ks" using stack_path[OF st] by (auto simp: completePath_def)
    moreover have "seqsOK model I (replicate (iN I) (Some (length (sSeqs st)))) (sSeqs st @ [map int ks])"
      using seqsOK_append[OF q stack_path[OF st]] by (auto simp: seqsOK_def)
    ultimately show ?thesis using True remain_Nil[OF w sub] hd hl ids lo
      by (simp add: searchBody_def deref_def searchPost_def map_replicate_const)
  next
    case False
    then obtain p where o: "notFull I st" and p: "atEntry model I st (set ks) p" using en by blast
    have ne: "remain I (set ks) \<noteq> []" using False remain_Nil[OF w sub] by simp
    have pr: "p \<in> set (remain I (set ks))" "sEntry st = Some p" using p by (simp_all add: atEntry_def)
    note pb = remain_bound[OF pr(1)]
    note sb = searchBody_def deref_def[of "sHeap _"] Let_def headOr_def[of "remain I (set ks)"] hd hl ne pr(2)
    consider (call) k where "k < iN I" "p = iC I k" | (ret) j where "j < iN I" "p = iR I j"
      using addr_cases[OF w pb] by blast
    then show ?thesis
    proof cases
      case call
      then have k: "k < iN I" "k \<notin> set ks" using pr(1) remain_mem(1)[OF w] by auto
      have m: "nmatch (sHeap st ! p) = Some (iR I k)" "p < length (sHeap st)"
        using match_of_call[OF w k(1) h] node_at(4)[OF w h pb] call(2) by auto
      show ?thesis
        using tryCall_step[OF w mo, of "st\<lparr>sReads := sReads st + 1\<rparr>" ks K k] s o q k p m call(2)
        by (auto simp: sb searchInv_reads searchPost_def split: list.splits)
    next
      case ret
      then have j: "j < iN I" "j \<notin> set ks" using pr(1) remain_mem(2)[OF w] by auto
      have m: "nmatch (sHeap st ! p) = None" "p < length (sHeap st)"
        using node_at(3,4)[OF w h pb] wfInstD(7)[OF w j(1)] ret(2) by auto
      show ?thesis
        using backtrack_step[OF w mo, of "st\<lparr>sReads := sReads st + 1\<rparr>" ks K j computePartial]
          exhausted[OF w s o _ j] s o q j p m ret(2)
        by (auto simp: sb searchInv_reads searchPost_def split: list.splits)
    qed
  qed
qed

lemma searchInit_inv:
  assumes w: "wfInst I" and e: "iEnts I = rev es"
  shows "\<exists>st. searchInit model es = Some (Some (st, 2 * iN I)) \<and> searchInv model I st"
proof -
  have len: "length es = 2 * iN I" using w e by (simp add: wfInst_def)
  obtain h where h: "searchInit model es = Some (Some (\<lparr> sHeap = h, sEntry = headOr (desc (2 * iN I)) None, sLin = newBitset (iN I),
        sCache = (\<lambda>_. []), sCalls = [], sLongest = replicate (iN I) None, sSeqs = [], sState = Init model, sReads = 0 \<rparr>, 2 * iN I))"
      (is "_ = Some (Some (?st, _))")
    and hp: "nodesOf (rev es) h" "length h = Suc (2 * iN I)" "dseg h None (2 * iN I # desc (2 * iN I)) None" "nmatch (h ! (2 * iN I)) = None"
    using searchInit_spec[OF len, of model] by blast
  have hk: "heapOK I h {}" using hp e by (simp add: heapOK_def remain_def)
  have "visited (iN I) (sCache ?st) = {}" by (auto simp: visited_def)
  then have "onStack model I ?st [] {({}, Init model)}"
    using stack.bottom[OF hk] by (simp add: onStack_def newBitset_bits seqsOK_def)
  moreover have "notFull I ?st" by (simp add: notFull_def visited_def)
  moreover have "\<exists>p. atEntry model I ?st (set []) p" if "set [] \<noteq> {..<iN I}"
    using first_entry[OF w hk, of model "visited (iN I) (\<lambda>_. [])" "Init model"] head_next[OF hk] that
    by (auto simp: atEntry_def remain_def)
  ultimately have "searchInv model I ?st" by (rule searchInvI)
  then show ?thesis using h by blast
qed

theorem checkSingle_correct:
  assumes w: "wfInst I" and e: "iEnts I = rev es" and mo: "modelOK model I"
  shows "\<exists>r. checkSingle model es computePartial kill = Some (Some r) \<and> searchPost model I kill r"
proof -
  obtain st where st: "searchInit model es = Some (Some (st, 2 * iN I))" "searchInv model I st" using searchInit_inv[OF w e] by blast
  have "wf (inv_image searchOrder (searchRank model I))" by (intro wf_inv_image wf_lex_prod wf_less_than)
  from runLoop_total[where body = "searchBody model computePartial kill (2 * iN I)" and I = "searchInv model I"
      and Q = "searchPost model I kill", OF this st(2), unfolded in_inv_image, OF searchBody_step[OF w mo]]
  show ?thesis by (simp add: checkSingle_def st(1))
qed

end
