(* ===== verification/Porcupine_Order.thy ===== *)
theory Porcupine_Order
  imports Porcupine_DFS
begin

text \<open>
  From the entries that \<open>makeEntries\<close> sorts back to the operations: the complete paths of the search are the linearizations of
  the history, so \<open>checkSingle\<close> decides linearizability.
\<close>

section \<open>Instances of histories\<close>

text \<open>Operation \<open>k\<close> of the instance is operation \<open>k\<close> of the history, and a call stands after a return exactly if it
  happened later.\<close>

definition represents :: "'v Inst \<Rightarrow> 'v Operation list \<Rightarrow> bool" where
  "represents I ops \<longleftrightarrow> wfInst I \<and> iN I = length ops \<and> (\<forall>k < length ops. inOutOf I k = inOut (ops ! k)) \<and>
     (\<forall>j < length ops. \<forall>k < length ops. iC I j < iR I k \<longleftrightarrow> ReturnTime (ops ! k) < CallTime (ops ! j))"

lemma representsD:
  assumes "represents I ops"
  shows "wfInst I" "iN I = length ops" "k < length ops \<Longrightarrow> inOutOf I k = inOut (ops ! k)"
    "j < length ops \<Longrightarrow> k < length ops \<Longrightarrow> iC I j < iR I k \<longleftrightarrow> ReturnTime (ops ! k) < CallTime (ops ! j)"
  using assms by (auto simp: represents_def)

lemma path_run: "path model I ks s \<Longrightarrow> runFrom model (Init model) (map (inOutOf I) ks) = Some s"
proof (induction rule: path.induct)
  case (path_snoc ks s k s')
  then show ?case by (cases "inOutOf I k") (simp add: runFrom_append stepsTo_def)
qed simp

lemma path_before:
  "path model I ks s \<Longrightarrow> j \<in> set ks \<Longrightarrow> k < iN I \<Longrightarrow> k \<notin> set ks \<Longrightarrow> \<not> iC I j < iR I k"
  by (induction rule: path.induct) (auto simp: cand_def noRet_def)

lemma path_order: "path model I ks s \<Longrightarrow> sorted_wrt (\<lambda>j k. \<not> iC I j < iR I k) ks"
proof (induction rule: path.induct)
  case (path_snoc ks s k s')
  then show ?case using path_before[OF path_snoc.hyps(1)] by (auto simp: sorted_wrt_append cand_def)
qed simp

text \<open>Conversely, a legal order that keeps the real-time order is a path.\<close>

lemma order_path:
  assumes "distinct (ks @ rest)" "set (ks @ rest) = {..<iN I}" "sorted_wrt (\<lambda>j k. \<not> iC I j < iR I k) (ks @ rest)"
    "runFrom model (Init model) (map (inOutOf I) ks) = Some s" "wfInst I"
  shows "path model I ks s"
  using assms
proof (induction ks arbitrary: rest s rule: rev_induct)
  case Nil
  then show ?case using path.path_Nil[of model I] by simp
next
  case (snoc k ks)
  obtain s0 where s0: "runFrom model (Init model) (map (inOutOf I) ks) = Some s0" "stepsTo model I s0 k s"
    using snoc.prems(4) by (cases "inOutOf I k") (auto simp: runFrom_append stepsTo_def split: option.splits bool.splits)
  have p: "path model I ks s0" using snoc.IH[of "k # rest" s0] snoc.prems s0(1) by simp
  have k: "k < iN I" using snoc.prems(2) by auto
  have "\<not> iC I k < iR I j" if "j < iN I" "j \<notin> set ks" for j
  proof (cases "j = k")
    case True
    then show ?thesis using wfInstD(1)[OF snoc.prems(5) k] by simp
  next
    case False
    then have "j \<in> set rest" using that snoc.prems(2) by auto
    then show ?thesis using snoc.prems(3) by (auto simp: sorted_wrt_append)
  qed
  then have "cand I (set ks) k" using k snoc.prems(1) by (auto simp: cand_def noRet_def)
  then show ?case using path.path_snoc[OF p _ s0(2)] by blast
qed

text \<open>A permutation of a list by its indices.\<close>

lemma indices_of_perm:
  assumes "mset ys = mset xs"
  shows "\<exists>ks. ys = map ((!) xs) ks \<and> mset ks = mset [0..<length xs]"
proof -
  have inv: "\<exists>ks. ys = map f ks \<and> mset ks = M" if "mset ys = image_mset f M" for f :: "nat \<Rightarrow> 'a" and M ys
    using that
  proof (induction ys arbitrary: M)
    case (Cons y ys)
    then obtain a M1 where M: "M = add_mset a M1" "f a = y" "image_mset f M1 = mset ys"
      using msed_map_invR[of f M y "mset ys"] by (metis mset.simps(2))
    then obtain ks where "ys = map f ks" "mset ks = M1" using Cons.IH[of M1] by auto
    then show ?case using M by (intro exI[of _ "a # ks"]) simp
  qed simp
  have "mset xs = image_mset ((!) xs) (mset [0..<length xs])" by (metis map_nth mset_map)
  then show ?thesis using inv assms by metis
qed

lemma perm_indices:
  assumes "mset ks = mset [0..<length xs]"
  shows "mset (map ((!) xs) ks) = mset xs" "distinct ks" "set ks = {..<length xs}"
proof -
  show "mset (map ((!) xs) ks) = mset xs" by (metis assms map_nth mset_map)
  show "distinct ks" using mset_eq_imp_distinct_iff[OF assms] by simp
  show "set ks = {..<length xs}" using mset_eq_setD[OF assms] by (simp add: atLeast0LessThan)
qed

lemma sorted_wrt_cong_set:
  "(\<And>x y. x \<in> set xs \<Longrightarrow> y \<in> set xs \<Longrightarrow> P x y = Q x y) \<Longrightarrow> sorted_wrt P xs = sorted_wrt Q xs"
  by (induction xs) auto

lemma completePath_linearization:
  assumes r: "represents I ops" and ks: "mset ks = mset [0..<length ops]"
  shows "completePath model I ks \<longleftrightarrow> linearization model ops (map ((!) ops) ks)"
proof -
  note d = representsD[OF r] and p = perm_indices[OF ks]
  have io: "map (inOutOf I) ks = map inOut (map ((!) ops) ks)" using p(3) d(3) by auto
  have so: "sorted_wrt (\<lambda>j k. \<not> iC I j < iR I k) ks \<longleftrightarrow> keepsRealTime (map ((!) ops) ks)"
    unfolding keepsRealTime_def sorted_wrt_map using p(3) d(4) by (intro sorted_wrt_cong_set) auto
  have "(\<exists>s. path model I ks s) \<longleftrightarrow>
      sorted_wrt (\<lambda>j k. \<not> iC I j < iR I k) ks \<and> runFrom model (Init model) (map (inOutOf I) ks) \<noteq> None"
    using path_run[of model I ks] path_order[of model I ks] order_path[of ks "[]" I model] p d(1,2) by auto
  then show ?thesis using p d(2) unfolding completePath_def linearization_def so io by simp
qed

lemma completePath_perm:
  assumes "represents I ops" "completePath model I ks"
  shows "mset ks = mset [0..<length ops]"
proof -
  obtain s where k: "path model I ks s" "set ks = {..<length ops}"
    using assms(2) representsD(2)[OF assms(1)] by (auto simp: completePath_def)
  have d: "distinct ks" "set ks = set [0..<length ops]" using path_facts[OF k(1)] k(2) by (simp_all add: atLeast0LessThan)
  then show ?thesis using set_eq_iff_mset_eq_distinct[OF d(1) distinct_upt] by blast
qed

lemma linearizable_path:
  assumes r: "represents I ops"
  shows "linearizable model ops \<longleftrightarrow> (\<exists>ks. completePath model I ks)"
proof
  assume "linearizable model ops"
  then obtain ks where "mset ks = mset [0..<length ops]" "linearization model ops (map ((!) ops) ks)"
    unfolding linearizable_def using indices_of_perm by (metis linearization_def)
  then show "\<exists>ks. completePath model I ks" using completePath_linearization[OF r] by blast
next
  assume "\<exists>ks. completePath model I ks"
  then show "linearizable model ops"
    using completePath_linearization[OF r completePath_perm[OF r]] unfolding linearizable_def by blast
qed

section \<open>The entries of a history\<close>

text \<open>What the call of \<open>sort.Sort\<close> with \<open>byTime\<close> gives: the same entries, none after one that it is less than.\<close>

definition sortsEntries :: "('v entry list \<Rightarrow> 'v entry list) \<Rightarrow> bool" where
  "sortsEntries sorter \<longleftrightarrow> (\<forall>es. mset (sorter es) = mset es \<and> sorted_wrt (\<lambda>a b. \<not> entryLess b a) (sorter es))"

definition callE :: "int \<Rightarrow> 'v Operation \<Rightarrow> 'v entry" where
  "callE i oper = \<lparr> ekind = callEntry, evalue = Input oper, eid = i, etime = CallTime oper, eclientId = OpClientId oper \<rparr>"

definition retE :: "int \<Rightarrow> 'v Operation \<Rightarrow> 'v entry" where
  "retE i oper = \<lparr> ekind = returnEntry, evalue = Output oper, eid = i, etime = ReturnTime oper, eclientId = OpClientId oper \<rparr>"

lemma raw_simps [simp]: "rawEntries i (x # xs) = callE i x # retE i x # rawEntries (i + 1) xs"
  by (simp add: callE_def retE_def)

declare rawEntries.simps(2) [simp del]

lemma entry_sel [simp]:
  "ekind (callE i x) = callEntry" "ekind (retE i x) = returnEntry" "eid (callE i x) = i" "eid (retE i x) = i"
  "evalue (callE i x) = Input x" "evalue (retE i x) = Output x" "etime (callE i x) = CallTime x" "etime (retE i x) = ReturnTime x"
  "callE i x \<noteq> retE j y"
  by (simp_all add: callE_def retE_def)

lemma raw_length [simp]: "length (rawEntries i ops) = 2 * length ops"
  by (induction ops arbitrary: i) auto

lemma raw_ids: "e \<in> set (rawEntries i ops) \<Longrightarrow> i \<le> eid e"
proof (induction ops arbitrary: i)
  case (Cons x xs)
  from Cons.prems Cons.IH[of "i + 1"] show ?case by fastforce
qed simp

lemma raw_distinct: "distinct (rawEntries i ops)"
proof (induction ops arbitrary: i)
  case (Cons x xs)
  have "e \<notin> set (rawEntries (i + 1) xs)" if "eid e = i" for e using raw_ids[of e "i + 1" xs] that by auto
  then show ?case using Cons.IH by simp
qed simp

lemma raw_set: "e \<in> set (rawEntries i ops) \<longleftrightarrow> (\<exists>k < length ops. e = callE (i + int k) (ops ! k) \<or> e = retE (i + int k) (ops ! k))"
proof (induction ops arbitrary: i)
  case (Cons x xs)
  show ?case using Cons.IH[of "i + 1"]
    by (simp add: Ex_less_Suc2 add.assoc add.commute[of 1])
qed simp

text \<open>The address of an entry.\<close>

definition addrOf :: "'v entry list \<Rightarrow> 'v entry \<Rightarrow> nat" where
  "addrOf ds e = length (takeWhile (\<lambda>x. x \<noteq> e) ds)"

lemma addrOf_nth:
  assumes "e \<in> set ds"
  shows "addrOf ds e < length ds" "ds ! addrOf ds e = e"
proof -
  show l: "addrOf ds e < length ds"
    using assms unfolding addrOf_def by (metis (mono_tags, lifting) length_takeWhile_le le_neq_implies_less takeWhile_eq_all_conv takeWhile_eq_take take_all_iff order_refl)
  show "ds ! addrOf ds e = e" using nth_length_takeWhile[of "\<lambda>x. x \<noteq> e" ds] l unfolding addrOf_def by auto
qed

definition instOf :: "'v Operation list \<Rightarrow> 'v entry list \<Rightarrow> 'v Inst" where
  "instOf ops es = \<lparr> iEnts = rev es, iN = length ops, iC = (\<lambda>k. addrOf (rev es) (callE (int k) (ops ! k))),
     iR = (\<lambda>k. addrOf (rev es) (retE (int k) (ops ! k))) \<rparr>"

lemma instOf_represents:
  assumes s: "sortsEntries sorter" and t: "\<forall>x \<in> set ops. CallTime x \<le> ReturnTime x"
  shows "represents (instOf ops (makeEntries sorter ops)) ops"
proof -
  let ?es = "makeEntries sorter ops" let ?ds = "rev ?es" let ?I = "instOf ops ?es"
  have ms: "mset ?es = mset (rawEntries 0 ops)" and so: "sorted_wrt (\<lambda>a b. \<not> entryLess b a) ?es"
    using s by (auto simp: sortsEntries_def makeEntries_def)
  have len: "length ?ds = 2 * length ops" using mset_eq_length[OF ms] by simp
  have dist: "distinct ?ds" using mset_eq_imp_distinct_iff[OF ms] raw_distinct by simp
  have mem: "e \<in> set ?ds \<longleftrightarrow> (\<exists>k < length ops. e = callE (int k) (ops ! k) \<or> e = retE (int k) (ops ! k))" for e
    using raw_set[of e 0 ops] mset_eq_setD[OF ms] by simp
  have C: "iC ?I k < 2 * length ops" "?ds ! iC ?I k = callE (int k) (ops ! k)" if "k < length ops" for k
    using addrOf_nth[of "callE (int k) (ops ! k)" ?ds] mem len that by (auto simp: instOf_def)
  have R: "iR ?I k < 2 * length ops" "?ds ! iR ?I k = retE (int k) (ops ! k)" if "k < length ops" for k
    using addrOf_nth[of "retE (int k) (ops ! k)" ?ds] mem len that by (auto simp: instOf_def)
  have "sorted_wrt (\<lambda>a b. \<not> entryLess a b) ?ds" using so by (simp add: sorted_wrt_rev)
  then have ord: "\<not> entryLess (?ds ! a) (?ds ! b)" if "a < b" "b < length ?ds" for a b
    using that by (auto simp: sorted_wrt_iff_nth_less)
  have CR: "iC ?I j < iR ?I k \<longleftrightarrow> ReturnTime (ops ! k) < CallTime (ops ! j)" if "j < length ops" "k < length ops" for j k
  proof -
    have "iC ?I j \<noteq> iR ?I k" using C(2)[OF that(1)] R(2)[OF that(2)] by (metis entry_sel(9))
    moreover have "\<not> entryLess (callE (int j) (ops ! j)) (retE (int k) (ops ! k))" if "iC ?I j < iR ?I k"
      using ord[OF that] R C \<open>j < length ops\<close> \<open>k < length ops\<close> len by simp
    moreover have "\<not> entryLess (retE (int k) (ops ! k)) (callE (int j) (ops ! j))" if "iR ?I k < iC ?I j"
      using ord[OF that] R C \<open>j < length ops\<close> \<open>k < length ops\<close> len by simp
    ultimately show ?thesis by (force simp: entryLess_def split: if_splits)
  qed
  have "iR ?I k < iC ?I k" if "k < length ops" for k
    using CR[OF that that] t that C(2)[OF that] R(2)[OF that] by (metis entry_sel(9) linorder_less_linear nth_mem not_le)
  moreover have "\<exists>k < length ops. a = iC ?I k \<or> a = iR ?I k" if "a < 2 * length ops" for a
    using mem[of "?ds ! a"] that len C R nth_eq_iff_index_eq[OF dist] by (metis nth_mem)
  ultimately have "wfInst ?I" using C R len unfolding wfInst_def by (auto simp: instOf_def)
  then show ?thesis using C R CR unfolding represents_def inOutOf_def inOut_def by (auto simp: instOf_def)
qed

end
