(* ===== verification/Porcupine_Decide.thy ===== *)
theory Porcupine_Decide
  imports Porcupine_Order
begin

text \<open>
  \<open>checkSingle\<close> decides linearizability of one partition.  \<open>checkParallel\<close>, as a system of goroutines that share a kill flag and a
  channel, has an invariant under every schedule: its answers other than \<open>Unknown\<close> are right, and under a fair schedule it
  returns.
\<close>

section \<open>One partition\<close>

text \<open>What the checker relies on: calls do not happen after their returns, the model does not panic on the operations and compares
  states by equality, and the operations can be counted.\<close>

definition historyOK :: "('v, 's) Model \<Rightarrow> 'v Operation list \<Rightarrow> bool" where
  "historyOK model ops \<longleftrightarrow> (\<forall>x \<in> set ops. CallTime x \<le> ReturnTime x \<and> (\<forall>s. Step model s (Input x) (Output x) \<noteq> None)) \<and>
     modelEqual model = (=) \<and> length ops < 2 ^ 64"

lemma historyOK_inst:
  assumes s: "sortsEntries sorter" and h: "historyOK model ops"
  shows "represents (instOf ops (makeEntries sorter ops)) ops" "wfInst (instOf ops (makeEntries sorter ops))"
    "modelOK model (instOf ops (makeEntries sorter ops))" "iEnts (instOf ops (makeEntries sorter ops)) = rev (makeEntries sorter ops)"
proof -
  let ?I = "instOf ops (makeEntries sorter ops)"
  show r: "represents ?I ops" using instOf_represents[OF s] h by (simp add: historyOK_def)
  note d = representsD[OF r]
  show "wfInst ?I" by (rule d(1))
  show "modelOK model ?I" using h d(2,3) by (auto simp: modelOK_def historyOK_def inOut_def)
  show "iEnts ?I = rev (makeEntries sorter ops)" by (simp add: instOf_def)
qed

definition decides :: "('v, 's) Model \<Rightarrow> 'v Operation list \<Rightarrow> (nat \<Rightarrow> bool) \<Rightarrow> bool \<times> nat option list \<times> int list list \<Rightarrow> bool" where
  "decides model ops kill r \<longleftrightarrow> (case r of (ok, longest, seqs) \<Rightarrow>
     (if ok then linearization model ops (map (\<lambda>i. ops ! nat i) (last seqs)) \<and> longest = replicate (length ops) (Some (length seqs - 1))
      else (\<exists>i. kill i) \<or> \<not> linearizable model ops))"

lemma searchPost_decides:
  assumes r: "represents I ops" and p: "searchPost model I kill res"
  shows "decides model ops kill res"
proof -
  have "linearization model ops (map (\<lambda>i. ops ! nat i) (map int ks))" if "completePath model I ks" for ks
    using completePath_linearization[OF r completePath_perm[OF r that], of model] that by (simp add: comp_def)
  then show ?thesis
    using p linearizable_path[OF r, of model] representsD(2)[OF r] by (auto simp: decides_def searchPost_def split: prod.splits if_splits)
qed

lemma searchPost_answer:
  assumes "represents I ops" "searchPost model I (\<lambda>_. kill) (ok, lo)"
  shows "ok \<Longrightarrow> linearizable model ops" "\<not> ok \<Longrightarrow> \<not> kill \<Longrightarrow> \<not> linearizable model ops"
  using searchPost_decides[OF assms] unfolding decides_def linearizable_def by (auto split: prod.splits)

lemma checkSingle_decides:
  assumes s: "sortsEntries sorter" and h: "historyOK model ops"
  shows "\<exists>r. checkSingle model (makeEntries sorter ops) computePartial kill = Some (Some r) \<and> decides model ops kill r"
  using checkSingle_correct[OF historyOK_inst(2)[OF assms] historyOK_inst(4)[OF assms] historyOK_inst(3)[OF assms]]
    searchPost_decides[OF historyOK_inst(1)[OF assms]] by blast

section \<open>One goroutine\<close>

definition goInv :: "('v, 's) Model \<Rightarrow> 'v Inst \<Rightarrow> bool \<Rightarrow> ('v, 's) goroutine \<Rightarrow> nat option list \<times> int list list \<Rightarrow> bool" where
  "goInv model I kill g lo \<longleftrightarrow> (case g of
      GoStart \<Rightarrow> True
    | GoLoop st head \<Rightarrow> head = 2 * iN I \<and> searchInv model I st
    | GoReport ok l seqs \<Rightarrow> searchPost model I (\<lambda>_. kill) (ok, l, seqs)
    | GoDone ok \<Rightarrow> searchPost model I (\<lambda>_. kill) (ok, lo))"

text \<open>What was right with the kill flag down stays right when it is set.\<close>

lemma searchPost_kill: "searchPost model I (\<lambda>_. k) r \<Longrightarrow> (k \<Longrightarrow> k') \<Longrightarrow> searchPost model I (\<lambda>_. k') r"
  by (auto simp: searchPost_def split: prod.splits if_splits)

lemma goInv_kill: "goInv model I k g lo \<Longrightarrow> (k \<Longrightarrow> k') \<Longrightarrow> goInv model I k' g lo"
  unfolding goInv_def by (cases g) (auto intro: searchPost_kill)

definition goRank :: "('v, 's) Model \<Rightarrow> 'v Inst \<Rightarrow> ('v, 's) goroutine \<Rightarrow> nat \<times> nat \<times> nat" where
  "goRank model I g = (case g of GoStart \<Rightarrow> (3, 0, 0) | GoLoop st _ \<Rightarrow> (2, searchRank model I st)
     | GoReport _ _ _ \<Rightarrow> (1, 0, 0) | GoDone _ \<Rightarrow> (0, 0, 0))"

abbreviation goOrder :: "((nat \<times> nat \<times> nat) \<times> (nat \<times> nat \<times> nat)) set" where
  "goOrder \<equiv> less_than <*lex*> searchOrder"

definition isDone :: "('v, 's) goroutine \<Rightarrow> bool" where
  "isDone g = (case g of GoDone _ \<Rightarrow> True | _ \<Rightarrow> False)"

lemma goStep_inv:
  assumes w: "wfInst I" "iEnts I = rev es" "modelOK model I" and g: "goInv model I kill g lo"
    and r: "\<And>ok l seqs. g \<noteq> GoReport ok l seqs" and d: "\<not> isDone g"
  shows "\<exists>g'. goStep model es computeInfo kill g = Runs g' \<and> goInv model I kill g' lo \<and> \<not> isDone g' \<and>
    (goRank model I g', goRank model I g) \<in> goOrder"
proof (cases g)
  case GoStart
  then show ?thesis using searchInit_inv[OF w(1,2), of model] by (auto simp: goStep_def goInv_def goRank_def isDone_def)
next
  case (GoLoop st head)
  then have i: "head = 2 * iN I" "searchInv model I st" using g by (simp_all add: goInv_def)
  from searchBody_step[OF w(1,3) i(2), of "\<lambda>_. kill" computeInfo] show ?thesis
    using GoLoop i(1)
    by (cases "searchBody model computeInfo (\<lambda>_. kill) (2 * iN I) st") (auto simp: goStep_def goInv_def goRank_def isDone_def split: prod.splits)
qed (use r d in \<open>auto simp: isDone_def\<close>)

section \<open>All partitions\<close>

definition instAt :: "('v entry list \<Rightarrow> 'v entry list) \<Rightarrow> 'v Operation list list \<Rightarrow> nat \<Rightarrow> 'v Inst" where
  "instAt sorter parts i = instOf (parts ! i) (makeEntries sorter (parts ! i))"

text \<open>The goroutines: every result in the channel or taken from it was sent by a goroutine that has ended.\<close>

definition gosInv :: "('v, 's) Model \<Rightarrow> ('v entry list \<Rightarrow> 'v entry list) \<Rightarrow> 'v Operation list list \<Rightarrow> ('v, 's) Parallel \<Rightarrow> bool" where
  "gosInv model sorter parts st \<longleftrightarrow> length (pGos st) = length parts \<and> length (pLongest st) = length parts \<and>
     (\<forall>i < length parts. goInv model (instAt sorter parts i) (pKill st) (pGos st ! i) (pLongest st ! i)) \<and>
     pCount st + length (pResults st) = length (filter isDone (pGos st))"

text \<open>What \<open>ok\<close> means once the select loop has been left.\<close>

definition verdictInv :: "('v, 's) Model \<Rightarrow> 'v Operation list list \<Rightarrow> ('v, 's) Parallel \<Rightarrow> bool" where
  "verdictInv model parts st \<longleftrightarrow> (\<not> pOk st \<longrightarrow> (\<exists>p \<in> set parts. \<not> linearizable model p)) \<and>
     (pOk st \<and> \<not> pTimedOut st \<longrightarrow> (\<forall>p \<in> set parts. linearizable model p))"

text \<open>The main goroutine: in the select loop the kill flag is down, and \<open>ok\<close> and the channel together tell whether a goroutine has
  failed.\<close>

definition mainInv :: "('v, 's) Model \<Rightarrow> 'v Operation list list \<Rightarrow> bool \<Rightarrow> int \<Rightarrow> ('v, 's) Parallel \<Rightarrow> bool" where
  "mainInv model parts computeInfo timeout st \<longleftrightarrow> (pTimedOut st \<longrightarrow> 0 < timeout) \<and> (case pMain st of
      PSelect \<Rightarrow> \<not> pKill st \<and> \<not> pTimedOut st \<and> (parts \<noteq> [] \<longrightarrow> pCount st < length parts) \<and>
        (pOk st \<and> False \<notin> set (pResults st) \<longleftrightarrow> GoDone False \<notin> set (pGos st))
    | PWait \<Rightarrow> computeInfo \<and> pCount st < length parts \<and> verdictInv model parts st
    | PReturned \<Rightarrow> (computeInfo \<longrightarrow> pCount st = length parts) \<and> verdictInv model parts st)"

definition parInv :: "('v, 's) Model \<Rightarrow> ('v entry list \<Rightarrow> 'v entry list) \<Rightarrow> 'v Operation list list \<Rightarrow> bool \<Rightarrow> int \<Rightarrow> ('v, 's) Parallel \<Rightarrow> bool" where
  "parInv model sorter parts computeInfo timeout st \<longleftrightarrow> gosInv model sorter parts st \<and> mainInv model parts computeInfo timeout st"

definition parRank :: "('v, 's) Model \<Rightarrow> ('v entry list \<Rightarrow> 'v entry list) \<Rightarrow> 'v Operation list list \<Rightarrow> ('v, 's) Parallel \<Rightarrow> (nat \<times> nat \<times> nat) list \<times> nat" where
  "parRank model sorter parts st =
    (map (\<lambda>i. goRank model (instAt sorter parts i) (pGos st ! i)) [0..<length parts],
     length parts - pCount st + (if pMain st = PSelect then 1 else 0))"

abbreviation parOrder :: "(((nat \<times> nat \<times> nat) list \<times> nat) \<times> ((nat \<times> nat \<times> nat) list \<times> nat)) set" where
  "parOrder \<equiv> listrel1 goOrder <*lex*> less_than"

lemma parOrder_wf: "wf (inv_image parOrder (parRank model sorter parts))"
  by (intro wf_inv_image wf_lex_prod wf_less_than) (simp add: wf_listrel1_iff wf_lex_prod)

lemma length_filter_update:
  "i < length xs \<Longrightarrow> \<not> P (xs ! i) \<Longrightarrow> length (filter P (xs[i := x])) = length (filter P xs) + (if P x then 1 else 0)"
proof (induction xs arbitrary: i)
  case (Cons a xs)
  then show ?case by (cases i) auto
qed simp

lemma filter_all: "length (filter P xs) = length xs \<longleftrightarrow> (\<forall>x \<in> set xs. P x)"
proof (induction xs)
  case (Cons a xs)
  have "length (filter P xs) \<noteq> Suc (length xs)" using length_filter_le[of P xs] by linarith
  then show ?case using Cons by auto
qed simp

lemma mem_update: "i < length xs \<Longrightarrow> xs ! i \<noteq> y \<Longrightarrow> y \<in> set (xs[i := x]) \<longleftrightarrow> y = x \<or> y \<in> set xs"
  by (metis in_set_conv_nth length_list_update nth_list_update_eq nth_list_update_neq)

text \<open>The goroutine of a part takes a step.\<close>

lemma gos_update:
  assumes g: "gosInv model sorter parts st" and i: "i < length parts" and nd: "\<not> isDone (pGos st ! i)"
    and g': "goInv model (instAt sorter parts i) (pKill st) g' lo" and rk: "(goRank model (instAt sorter parts i) g', goRank model (instAt sorter parts i) (pGos st ! i)) \<in> goOrder"
    and r: "rs = pResults st @ (case g' of GoDone ok \<Rightarrow> [ok] | _ \<Rightarrow> [])"
  shows "gosInv model sorter parts (st\<lparr>pGos := (pGos st)[i := g'], pLongest := (pLongest st)[i := lo], pResults := rs\<rparr>)"
    "(parRank model sorter parts (st\<lparr>pGos := (pGos st)[i := g'], pLongest := lo', pResults := rs\<rparr>), parRank model sorter parts st) \<in> parOrder"
proof -
  have len: "length (pGos st) = length parts" "length (pLongest st) = length parts" using g by (simp_all add: gosInv_def)
  have "goInv model (instAt sorter parts j) (pKill st) ((pGos st)[i := g'] ! j) ((pLongest st)[i := lo] ! j)" if "j < length parts" for j
    using g g' i len that by (cases "j = i") (auto simp: gosInv_def)
  then show "gosInv model sorter parts (st\<lparr>pGos := (pGos st)[i := g'], pLongest := (pLongest st)[i := lo], pResults := rs\<rparr>)"
    using g i nd len unfolding gosInv_def r
    by (simp add: length_filter_update isDone_def[of g'] split: goroutine.splits)
  let ?r = "\<lambda>gs. map (\<lambda>i. goRank model (instAt sorter parts i) (gs ! i)) [0..<length parts]"
  have "?r ((pGos st)[i := g']) = (?r (pGos st))[i := goRank model (instAt sorter parts i) g']"
    using i len by (intro nth_equalityI) (auto simp: nth_list_update)
  then have "(?r ((pGos st)[i := g']), ?r (pGos st)) \<in> listrel1 goOrder"
    using i rk unfolding listrel1_iff_update
    by (intro exI[of _ "goRank model (instAt sorter parts i) (pGos st ! i)"] exI[of _ i] conjI nth_equalityI) (simp_all add: nth_list_update)
  then show "(parRank model sorter parts (st\<lparr>pGos := (pGos st)[i := g'], pLongest := lo', pResults := rs\<rparr>), parRank model sorter parts st) \<in> parOrder"
    by (simp add: parRank_def)
qed

lemma gos_ended:
  assumes g: "gosInv model sorter parts st" and m: "mainInv model parts computeInfo timeout st" and s: "pMain st = PSelect"
    and o: "\<And>p. p \<in> set parts \<Longrightarrow> historyOK model p" "sortsEntries sorter"
  shows "GoDone False \<in> set (pGos st) \<Longrightarrow> \<exists>p \<in> set parts. \<not> linearizable model p"
    "pCount st + length (pResults st) = length parts \<Longrightarrow> GoDone False \<notin> set (pGos st) \<Longrightarrow> \<forall>p \<in> set parts. linearizable model p"
proof -
  have len: "length (pGos st) = length parts" and k: "\<not> pKill st" using g m s by (simp_all add: gosInv_def mainInv_def)
  have lin: "ok = linearizable model (parts ! i)" if i: "i < length parts" and d: "pGos st ! i = GoDone ok" for i ok
  proof -
    have "searchPost model (instAt sorter parts i) (\<lambda>_. pKill st) (ok, pLongest st ! i)"
      using g i d by (auto simp: gosInv_def goInv_def split: goroutine.splits)
    then show ?thesis
      using searchPost_answer[OF historyOK_inst(1)[OF o(2) o(1)[OF nth_mem[OF i]]], of model "pKill st" ok "pLongest st ! i"] k
      by (cases ok) (auto simp: instAt_def)
  qed
  show "\<exists>p \<in> set parts. \<not> linearizable model p" if "GoDone False \<in> set (pGos st)"
    using that lin len by (metis in_set_conv_nth)
  show "\<forall>p \<in> set parts. linearizable model p"
    if c: "pCount st + length (pResults st) = length parts" and nf: "GoDone False \<notin> set (pGos st)"
  proof
    fix p assume "p \<in> set parts"
    then obtain i where i: "i < length parts" "p = parts ! i" by (metis in_set_conv_nth)
    have "length (filter isDone (pGos st)) = length (pGos st)" using c g unfolding gosInv_def by linarith
    then have "isDone (pGos st ! i)" using len i(1) unfolding filter_all by simp
    then obtain ok where ok: "pGos st ! i = GoDone ok" by (auto simp: isDone_def split: goroutine.splits)
    moreover have "ok" using nf ok i(1) len by (metis nth_mem)
    ultimately show "linearizable model p" using lin[OF i(1)] i(2) by simp
  qed
qed

lemma goStep_par:
  assumes o: "\<And>p. p \<in> set parts \<Longrightarrow> historyOK model p" "sortsEntries sorter"
    and p: "parInv model sorter parts computeInfo timeout st" and i: "i < length parts" and nd: "\<not> isDone (pGos st ! i)"
  shows "\<exists>st'. parStep model (map (makeEntries sorter) parts) computeInfo timeout (GoStep i) st = Runs st' \<and>
    parInv model sorter parts computeInfo timeout st' \<and> (parRank model sorter parts st', parRank model sorter parts st) \<in> parOrder"
proof -
  note g = p[unfolded parInv_def, THEN conjunct1] and m = p[unfolded parInv_def, THEN conjunct2]
  let ?I = "instAt sorter parts i"
  have len: "length (pGos st) = length parts" "length (pLongest st) = length parts"
    and gi: "goInv model ?I (pKill st) (pGos st ! i) (pLongest st ! i)" using g i by (simp_all add: gosInv_def)
  note w = historyOK_inst[OF o(2) o(1)[OF nth_mem[OF i]], folded instAt_def]
  show ?thesis
  proof (cases "\<exists>ok l seqs. pGos st ! i = GoReport ok l seqs")
    case True
    then obtain ok l seqs where GoReport: "pGos st ! i = GoReport ok l seqs" by blast
    let ?st = "st\<lparr>pGos := (pGos st)[i := GoDone ok], pLongest := (pLongest st)[i := (l, seqs)], pResults := pResults st @ [ok]\<rparr>"
    have "length (filter isDone (pGos st)) < length parts"
      using filter_all[of isDone "pGos st"] length_filter_le[of isDone "pGos st"] len(1) nd i by (metis nat_less_le nth_mem)
    then have "length (pResults st) < length parts" using g by (simp add: gosInv_def)
    then have "parStep model (map (makeEntries sorter) parts) computeInfo timeout (GoStep i) st = Runs ?st"
      using GoReport len i by (simp add: parStep_def)
    moreover have "gosInv model sorter parts ?st" "(parRank model sorter parts ?st, parRank model sorter parts st) \<in> parOrder"
      using gos_update[OF g i nd, of "GoDone ok" "(l, seqs)"] gi GoReport by (simp_all add: goInv_def goRank_def)
    moreover have "mainInv model parts computeInfo timeout ?st"
      using m mem_update[of i "pGos st" "GoDone False" "GoDone ok"] i len GoReport
      by (auto simp: mainInv_def verdictInv_def split: checkPc.splits)
    ultimately show ?thesis by (auto simp: parInv_def)
  next
    case False
    then obtain g' where g': "goStep model (makeEntries sorter (parts ! i)) computeInfo (pKill st) (pGos st ! i) = Runs g'"
        "goInv model ?I (pKill st) g' (pLongest st ! i)" "\<not> isDone g'" "(goRank model ?I g', goRank model ?I (pGos st ! i)) \<in> goOrder"
      using goStep_inv[OF w(2,4,3) gi _ nd, of computeInfo] by blast
    let ?st = "st\<lparr>pGos := (pGos st)[i := g']\<rparr>"
    have "parStep model (map (makeEntries sorter) parts) computeInfo timeout (GoStep i) st = Runs ?st"
      using g'(1) False len i by (auto simp: parStep_def split: goroutine.splits)
    moreover have "pResults st = pResults st @ (case g' of GoDone ok \<Rightarrow> [ok] | _ \<Rightarrow> [])"
      using g'(3) by (simp add: isDone_def split: goroutine.splits)
    from gos_update(1)[OF g i nd g'(2,4) this] gos_update(2)[OF g i nd g'(2,4) this, of "pLongest st"]
    have "gosInv model sorter parts ?st" "(parRank model sorter parts ?st, parRank model sorter parts st) \<in> parOrder" by simp_all
    moreover have "pGos st ! i \<noteq> GoDone False" "g' \<noteq> GoDone False" using nd g'(3) by (auto simp: isDone_def)
    then have "GoDone False \<in> set ((pGos st)[i := g']) \<longleftrightarrow> GoDone False \<in> set (pGos st)" using mem_update[of i "pGos st"] i len by simp
    then have "mainInv model parts computeInfo timeout ?st" using m by (simp add: mainInv_def verdictInv_def split: checkPc.splits)
    ultimately show ?thesis by (auto simp: parInv_def)
  qed
qed

text \<open>The main goroutine takes a step.\<close>

lemma gosInv_main:
  "gosInv model sorter parts st \<Longrightarrow> pGos st' = pGos st \<Longrightarrow> pLongest st' = pLongest st \<Longrightarrow> (pKill st \<Longrightarrow> pKill st') \<Longrightarrow>
   pCount st' + length (pResults st') = pCount st + length (pResults st) \<Longrightarrow> gosInv model sorter parts st'"
  by (auto simp: gosInv_def intro: goInv_kill)

lemma takeResult_par:
  assumes o: "\<And>p. p \<in> set parts \<Longrightarrow> historyOK model p" "sortsEntries sorter"
    and p: "parInv model sorter parts computeInfo timeout st" and r: "pResults st = result # rest" and n: "pMain st \<noteq> PReturned"
  shows "\<exists>st'. takeResult (length parts) computeInfo st = Runs st' \<and>
    parInv model sorter parts computeInfo timeout st' \<and> (parRank model sorter parts st', parRank model sorter parts st) \<in> parOrder"
proof -
  note g = p[unfolded parInv_def, THEN conjunct1] and m = p[unfolded parInv_def, THEN conjunct2]
  have c: "pCount st + length (pResults st) \<le> length parts" using g length_filter_le[of isDone "pGos st"] by (simp add: gosInv_def)
  show ?thesis
  proof (cases "pMain st")
    case PSelect
    note e = gos_ended[OF g m PSelect o]
    have k: "pOk st \<and> False \<notin> set (pResults st) \<longleftrightarrow> GoDone False \<notin> set (pGos st)" "\<not> pTimedOut st"
      using m PSelect by (simp_all add: mainInv_def)
    have bad: "\<exists>p \<in> set parts. \<not> linearizable model p" if "\<not> (pOk st \<and> result)" using e(1) k(1) r that by auto
    have good: "\<forall>p \<in> set parts. linearizable model p" if "pOk st \<and> result" "length parts \<le> pCount st + 1"
    proof -
      have "rest = []" using r c that(2) by (cases rest) auto
      then show ?thesis using e(2) k(1) r c that by auto
    qed
    show ?thesis
      using PSelect r c m k bad good gosInv_main[OF g]
      by (auto simp: takeResult_def Let_def parInv_def mainInv_def verdictInv_def afterLoop_def parRank_def)
  next
    case PWait
    then show ?thesis
      using r c m gosInv_main[OF g]
      by (auto simp: takeResult_def Let_def parInv_def mainInv_def verdictInv_def afterLoop_def parRank_def)
  qed (use n in simp)
qed

lemma timer_par:
  assumes p: "parInv model sorter parts computeInfo timeout st" and s: "pMain st = PSelect" "0 < timeout"
    and o: "\<And>p. p \<in> set parts \<Longrightarrow> historyOK model p" "sortsEntries sorter"
  shows "parInv model sorter parts computeInfo timeout (afterLoop (length parts) computeInfo (st\<lparr>pTimedOut := True, pKill := True\<rparr>))"
    "(parRank model sorter parts (afterLoop (length parts) computeInfo (st\<lparr>pTimedOut := True, pKill := True\<rparr>)), parRank model sorter parts st) \<in> parOrder"
proof -
  note g = p[unfolded parInv_def, THEN conjunct1] and m = p[unfolded parInv_def, THEN conjunct2]
  have c: "pCount st + length (pResults st) \<le> length parts" using g length_filter_le[of isDone "pGos st"] by (simp add: gosInv_def)
  have "\<exists>p \<in> set parts. \<not> linearizable model p" if "\<not> pOk st"
    using gos_ended(1)[OF g m s(1) o] m s(1) that by (auto simp: mainInv_def)
  then show "parInv model sorter parts computeInfo timeout (afterLoop (length parts) computeInfo (st\<lparr>pTimedOut := True, pKill := True\<rparr>))"
    using gosInv_main[OF g] c s by (auto simp: parInv_def mainInv_def verdictInv_def afterLoop_def)
  show "(parRank model sorter parts (afterLoop (length parts) computeInfo (st\<lparr>pTimedOut := True, pKill := True\<rparr>)), parRank model sorter parts st) \<in> parOrder"
    using s by (auto simp: parRank_def afterLoop_def)
qed

section \<open>Runs\<close>

text \<open>Every event keeps the invariant and, if it changes anything, goes down in the order; nothing panics.\<close>

lemma parNext_inv:
  assumes o: "\<And>p. p \<in> set parts \<Longrightarrow> historyOK model p" "sortsEntries sorter"
    and p: "parInv model sorter parts computeInfo timeout st"
  shows "\<exists>st'. parNext model (map (makeEntries sorter) parts) computeInfo timeout ev st = Some st' \<and>
    parInv model sorter parts computeInfo timeout st' \<and> (st' = st \<or> (parRank model sorter parts st', parRank model sorter parts st) \<in> parOrder)"
proof (cases "pMain st = PReturned")
  case False
  note len = p[unfolded parInv_def gosInv_def, THEN conjunct1, THEN conjunct1]
  show ?thesis
  proof (cases ev)
    case (GoStep i)
    show ?thesis
    proof (cases "i < length parts \<and> \<not> isDone (pGos st ! i)")
      case True
      then show ?thesis using goStep_par[OF o p] GoStep False by (fastforce simp: parNext_def)
    next
      case idle: False
      then have "parStep model (map (makeEntries sorter) parts) computeInfo timeout ev st = Blocked"
        using len GoStep by (auto simp: parStep_def goStep_def isDone_def split: goroutine.splits)
      then show ?thesis using p False by (simp add: parNext_def)
    qed
  next
    case TakeResult
    show ?thesis
    proof (cases "pResults st")
      case Nil
      then show ?thesis using p False TakeResult by (simp add: parNext_def parStep_def takeResult_def)
    next
      case (Cons result rest)
      then show ?thesis using takeResult_par[OF o p Cons False] False TakeResult by (fastforce simp: parNext_def parStep_def)
    qed
  next
    case TimerFires
    then show ?thesis using p False timer_par[OF p _ _ o] by (cases "pMain st = PSelect \<and> 0 < timeout") (auto simp: parNext_def parStep_def)
  qed
qed (use p in \<open>simp add: parNext_def\<close>)

text \<open>Until the main goroutine has returned, some goroutine can run on, or the main goroutine can take a result.\<close>

lemma parNext_progress:
  assumes o: "\<And>p. p \<in> set parts \<Longrightarrow> historyOK model p" "sortsEntries sorter"
    and p: "parInv model sorter parts computeInfo timeout st" and n: "pMain st \<noteq> PReturned" and ne: "parts \<noteq> []"
  shows "\<exists>ev \<in> insert TakeResult (GoStep ` {..<length parts}). parNext model (map (makeEntries sorter) parts) computeInfo timeout ev st \<noteq> Some st"
proof -
  have irr: "\<exists>st'. parNext model (map (makeEntries sorter) parts) computeInfo timeout ev st = Some st' \<and> st' \<noteq> st"
    if "\<exists>st'. parStep model (map (makeEntries sorter) parts) computeInfo timeout ev st = Runs st' \<and> parInv model sorter parts computeInfo timeout st' \<and>
      (parRank model sorter parts st', parRank model sorter parts st) \<in> parOrder" for ev
    using that n wf_not_refl[OF parOrder_wf[of model sorter parts], of st, unfolded in_inv_image] by (fastforce simp only: parNext_def outcome.case if_False)
  have g: "gosInv model sorter parts st" and m: "mainInv model parts computeInfo timeout st" using p by (simp_all add: parInv_def)
  show ?thesis
  proof (cases "\<exists>i < length parts. \<not> isDone (pGos st ! i)")
    case True
    then obtain i where i: "i < length parts" "\<not> isDone (pGos st ! i)" by blast
    show ?thesis using irr[OF goStep_par[OF o p i]] i(1) by (intro bexI[of _ "GoStep i"]) auto
  next
    case False
    then have "length (filter isDone (pGos st)) = length (pGos st)"
      unfolding filter_all using g by (auto simp: gosInv_def in_set_conv_nth)
    moreover have "pCount st < length parts" using m n ne by (simp add: mainInv_def split: checkPc.splits)
    ultimately obtain result rest where r: "pResults st = result # rest" using g unfolding gosInv_def by (cases "pResults st") auto
    have "parStep model (map (makeEntries sorter) parts) computeInfo timeout TakeResult st = takeResult (length parts) computeInfo st"
      by (simp add: parStep_def)
    then show ?thesis using irr[of TakeResult] takeResult_par[OF o p r n] by (intro bexI[of _ TakeResult]) auto
  qed
qed

lemma parInit_inv: "parInv model sorter parts computeInfo timeout (parInit (length parts))"
  by (auto simp: parInv_def gosInv_def mainInv_def parInit_def goInv_def isDone_def)

text \<open>A run without panics as a fold.\<close>

abbreviation parNxt :: "('v, 's) Model \<Rightarrow> 'v entry list list \<Rightarrow> bool \<Rightarrow> int \<Rightarrow> parEvent \<Rightarrow> ('v, 's) Parallel \<Rightarrow> ('v, 's) Parallel" where
  "parNxt model history computeInfo timeout ev st \<equiv> the (parNext model history computeInfo timeout ev st)"

lemma parRun_inv:
  assumes o: "\<And>p. p \<in> set parts \<Longrightarrow> historyOK model p" "sortsEntries sorter" and p: "parInv model sorter parts computeInfo timeout st"
  shows "parRun model (map (makeEntries sorter) parts) computeInfo timeout sched st =
      Some (fold (parNxt model (map (makeEntries sorter) parts) computeInfo timeout) sched st) \<and>
    parInv model sorter parts computeInfo timeout (fold (parNxt model (map (makeEntries sorter) parts) computeInfo timeout) sched st)"
  using p
proof (induction sched arbitrary: st)
  case (Cons ev sched)
  obtain st' where "parNext model (map (makeEntries sorter) parts) computeInfo timeout ev st = Some st'"
      "parInv model sorter parts computeInfo timeout st'"
    using parNext_inv[OF o Cons.prems] by blast
  then show ?case using Cons.IH[of st'] by simp
qed simp

text \<open>What a call returns, whenever it does.\<close>

lemma checkParallel_returns:
  assumes s: "sortsEntries sorter" and h: "\<forall>p \<in> set parts. historyOK model p"
    and r: "checkParallel model (map (makeEntries sorter) parts) computeInfo timeout sched = Some r"
  shows "\<exists>st. r = Some (parResult (map (makeEntries sorter) parts) computeInfo st) \<and> parInv model sorter parts computeInfo timeout st \<and>
    pMain st = PReturned"
  using parRun_inv[OF _ s parInit_inv, of parts model computeInfo timeout sched] h r
  by (auto simp: checkParallel_def split: option.splits if_splits)

lemma checkParallel_sound:
  assumes s: "sortsEntries sorter" and h: "\<forall>p \<in> set parts. historyOK model p"
    and r: "checkParallel model (map (makeEntries sorter) parts) computeInfo timeout sched = Some r"
  shows "\<exists>res info. r = Some (res, info) \<and> (res = CheckOk \<longrightarrow> (\<forall>p \<in> set parts. linearizable model p)) \<and>
    (res = CheckIllegal \<longrightarrow> (\<exists>p \<in> set parts. \<not> linearizable model p)) \<and> (res = CheckUnknown \<longrightarrow> 0 < timeout)"
proof -
  obtain st where "r = Some (parResult (map (makeEntries sorter) parts) computeInfo st)" "parInv model sorter parts computeInfo timeout st"
      "pMain st = PReturned"
    using checkParallel_returns[OF assms] by blast
  then show ?thesis by (auto simp: parResult_def parInv_def mainInv_def verdictInv_def split: if_splits)
qed

lemma checkParallel_ends:
  assumes s: "sortsEntries sorter" and h: "\<forall>p \<in> set parts. historyOK model p" and ne: "parts \<noteq> []"
    and f: "fair (insert TakeResult (GoStep ` {..<length parts})) sch"
  shows "\<exists>n. checkParallel model (map (makeEntries sorter) parts) computeInfo timeout (map sch [0..<n]) \<noteq> None"
proof -
  let ?E = "map (makeEntries sorter) parts" and ?I = "parInv model sorter parts computeInfo timeout"
  have o: "\<And>p. p \<in> set parts \<Longrightarrow> historyOK model p" using h by blast
  have "\<exists>n. pMain (fold (parNxt model ?E computeInfo timeout) (map sch [0..<n]) (parInit (length parts))) = PReturned"
  proof (rule fair_ends[where I = ?I and fin = "\<lambda>st. pMain st = PReturned", OF parOrder_wf[of model sorter parts] parInit_inv f])
    show "?I (parNxt model ?E computeInfo timeout ev st) \<and>
        (parNxt model ?E computeInfo timeout ev st = st \<or> (parNxt model ?E computeInfo timeout ev st, st) \<in> inv_image parOrder (parRank model sorter parts))"
      if "?I st" for st ev using parNext_inv[OF o s that, of ev] by auto
    show "\<exists>ev \<in> insert TakeResult (GoStep ` {..<length parts}). parNxt model ?E computeInfo timeout ev st \<noteq> st"
      if i: "?I st" and n: "pMain st \<noteq> PReturned" for st
      using parNext_progress[OF o s i n ne] parNext_inv[OF o s i] by (metis option.sel)
  qed
  then obtain n where n: "pMain (fold (parNxt model ?E computeInfo timeout) (map sch [0..<n]) (parInit (length parts))) = PReturned" by blast
  show ?thesis using n parRun_inv[OF o s parInit_inv, of parts computeInfo timeout "map sch [0..<n]"]
    by (intro exI[of _ n]) (simp add: checkParallel_def)
qed

text \<open>Without a timeout, the answer is the right one and it comes.\<close>

lemma checkParallel_decides:
  assumes s: "sortsEntries sorter" and h: "\<forall>p \<in> set parts. historyOK model p" and t: "timeout \<le> 0"
    and r: "checkParallel model (map (makeEntries sorter) parts) computeInfo timeout sched = Some r"
  shows "\<exists>info. r = Some (if \<forall>p \<in> set parts. linearizable model p then CheckOk else CheckIllegal, info)"
proof -
  obtain res info where i: "r = Some (res, info)" "res = CheckOk \<longrightarrow> (\<forall>p \<in> set parts. linearizable model p)"
      "res = CheckIllegal \<longrightarrow> (\<exists>p \<in> set parts. \<not> linearizable model p)" "res \<noteq> CheckUnknown"
    using checkParallel_sound[OF s h r] t by fastforce
  then show ?thesis by (cases res) auto
qed

end
