(* ===== verification/Porcupine_Props.thy ===== *)
theory Porcupine_Props
  imports Porcupine_Decide Kv_SrvProps
begin

text \<open>
  Properties of the linearizability checker of \<^verbatim>\<open>src/src/porcupine\<close>: the search and the entry points decide
  linearizability; the linked list and the bitset the search works on; and the checker together with the key/value server it
  tests.
\<close>

section \<open>The defaults\<close>

lemma fillDefault_sel [simp]:
  "Init (fillDefault f g model) = Init model" "Step (fillDefault f g model) = Step model"
  "Partition (fillDefault f g model) = Some (case Partition model of None \<Rightarrow> NoPartition | Some p \<Rightarrow> p)"
  "modelEqual (fillDefault f g model) = modelEqual model"
  by (auto simp: fillDefault_def Let_def modelEqual_def)

lemma runFrom_cong: "Step model = Step model' \<Longrightarrow> runFrom model s ios = runFrom model' s ios"
proof (induction ios arbitrary: s)
  case (Cons io ios)
  then show ?case by (cases io) (auto split: option.splits bool.splits)
qed simp

lemma fillDefault_linearizable [simp]: "linearizable (fillDefault f g model) ops = linearizable model ops"
  using runFrom_cong[of "fillDefault f g model" model] by (simp add: linearizable_def linearization_def)

lemma fillDefault_ok [simp]: "historyOK (fillDefault f g model) ops = historyOK model ops"
  by (simp add: historyOK_def)

text \<open>The partitions that the checker looks at.\<close>

definition partitionOf :: "('v, 's) Model \<Rightarrow> 'v Operation list \<Rightarrow> 'v Operation list list option" where
  "partitionOf model history = (case Partition model of None \<Rightarrow> NoPartition | Some p \<Rightarrow> p) history"

lemma checkOperations_parts:
  "partitionOf model history = Some parts \<Longrightarrow>
   checkOperations sorter f g model history verbose timeout sched =
     checkParallel (fillDefault f g model) (map (makeEntries sorter) parts) verbose timeout sched"
  by (simp add: checkOperations_def partitionOf_def Let_def)

section \<open>Examples\<close>

text \<open>A sorting function as \<open>sort.Sort\<close> is documented.\<close>

definition stableSort :: "'v entry list \<Rightarrow> 'v entry list" where
  "stableSort = sort_key (\<lambda>e. 2 * etime e + (if ekind e = callEntry then 0 else 1))"

lemma stableSort_sorts: "sortsEntries stableSort"
proof -
  have "sorted_wrt (\<lambda>a b. \<not> entryLess b a) (stableSort es)" for es :: "'a entry list"
  proof -
    let ?f = "\<lambda>e :: 'a entry. 2 * etime e + (if ekind e = callEntry then 0 else 1)"
    have "sorted_wrt (\<lambda>a b. ?f a \<le> ?f b) (stableSort es)"
      using sorted_sort_key[of ?f es] by (simp add: stableSort_def sorted_wrt_map)
    then show ?thesis by (rule sorted_wrt_mono_rel[rotated]) (auto simp: entryLess_def split: if_splits)
  qed
  then show ?thesis by (simp add: sortsEntries_def stableSort_def)
qed

text \<open>A put and a get of key "x" by two clients that overlap.\<close>

definition putX :: "KvVal Operation" where
  "putX = \<lparr> OpClientId = 0, Input = KvIn \<lparr> KvOp = 1, KvKey = ''x'', KvInValue = ''1'' \<rparr>, CallTime = 0,
     Output = KvOut \<lparr> KvOutValue = '''' \<rparr>, ReturnTime = 10 \<rparr>"

definition getX :: "KvVal Operation" where
  "getX = \<lparr> OpClientId = 1, Input = KvIn \<lparr> KvOp = 0, KvKey = ''x'', KvInValue = '''' \<rparr>, CallTime = 5,
     Output = KvOut \<lparr> KvOutValue = ''1'' \<rparr>, ReturnTime = 7 \<rparr>"

text \<open>A get that starts after the put has returned and misses it.\<close>

definition staleGet :: "KvVal Operation" where
  "staleGet = getX\<lparr>CallTime := 20, Output := KvOut \<lparr> KvOutValue = '''' \<rparr>, ReturnTime := 25\<rparr>"

lemma kv_example:
  "partitionOf KvModel [getX, putX] = Some [[getX, putX]]" "historyOK KvModel [getX, putX]" "linearizable KvModel [getX, putX]"
  "linearization KvModel [getX, putX] [putX, getX]"
proof -
  show "partitionOf KvModel [getX, putX] = Some [[getX, putX]]"
    by (simp add: partitionOf_def kvPartition_def putX_def getX_def Let_def)
  show "historyOK KvModel [getX, putX]"
    by (auto simp: historyOK_def putX_def getX_def kvStep_def modelEqual_def ShallowEqual_def fun_eq_iff)
  show l: "linearization KvModel [getX, putX] [putX, getX]"
    by (simp add: linearization_def keepsRealTime_def putX_def getX_def inOut_def kvStep_def)
  then show "linearizable KvModel [getX, putX]" unfolding linearizable_def by blast
qed

lemma stale_example:
  "partitionOf KvModel [staleGet, putX] = Some [[staleGet, putX]]" "historyOK KvModel [staleGet, putX]"
  "checkOperations stableSort (\<lambda>_. '''') (\<lambda>_. '''') KvModel [staleGet, putX] False 5 (replicate 9 (GoStep 0) @ [TakeResult, TimerFires]) =
    Some (Some (CheckIllegal, \<lparr> liHistory = [], partialLinearizations = [] \<rparr>))"
proof -
  show "partitionOf KvModel [staleGet, putX] = Some [[staleGet, putX]]"
    by (simp add: partitionOf_def kvPartition_def putX_def getX_def staleGet_def Let_def)
  show "historyOK KvModel [staleGet, putX]"
    by (auto simp: historyOK_def putX_def getX_def staleGet_def kvStep_def modelEqual_def ShallowEqual_def fun_eq_iff)
  show "checkOperations stableSort (\<lambda>_. '''') (\<lambda>_. '''') KvModel [staleGet, putX] False 5 (replicate 9 (GoStep 0) @ [TakeResult, TimerFires]) =
    Some (Some (CheckIllegal, \<lparr> liHistory = [], partialLinearizations = [] \<rparr>))" by code_simp
qed

text \<open>The schedule that lets the goroutine of the first part and the main goroutine take turns.\<close>

definition takeTurns :: "nat \<Rightarrow> parEvent" where
  "takeTurns i = (if even i then GoStep 0 else TakeResult)"

lemma takeTurns_fair: "fair (insert TakeResult (GoStep ` {..<1})) takeTurns"
proof -
  have "\<exists>m \<ge> n. takeTurns m = TakeResult" "\<exists>m \<ge> n. takeTurns m = GoStep 0" for n
    by (rule exI[of _ "2 * n + 1"], simp add: takeTurns_def) (rule exI[of _ "2 * n"], simp add: takeTurns_def)
  then show ?thesis by (simp add: fair_def)
qed

section \<open>The histories of the key/value server\<close>

lemma kvStep_total: "wellTyped x \<Longrightarrow> kvStep s (Input x) (Output x) \<noteq> None"
  by (cases "Input x"; cases "Output x") (simp_all add: wellTyped_def kvStep_def)

lemma completed_ok:
  assumes "okHist h" "length (completed app h) < 2 ^ 64" "set p \<subseteq> set (completed app h)" "length p \<le> length (completed app h)"
  shows "historyOK KvModel p"
proof -
  have "CallTime x \<le> ReturnTime x \<and> wellTyped x" if "x \<in> set p" for x
  proof -
    have x: "x \<in> set (completed app h)" using that assms(3) by blast
    then obtain r v where "x = opOf app h (r, v)" "Ret r v \<in> set h" by (auto simp: completed_def set_returns)
    then show ?thesis using point_props(3,4)[OF assms(1)] x completed_wellTyped[of app h] by (fastforce simp: opOf_def)
  qed
  then have "CallTime x \<le> ReturnTime x \<and> (\<forall>s. kvStep s (Input x) (Output x) \<noteq> None)" if "x \<in> set p" for x
    using that kvStep_total by blast
  then show ?thesis using assms(2,4)
    by (auto simp: historyOK_def modelEqual_def ShallowEqual_def fun_eq_iff)
qed

section \<open>Properties\<close>

text \<open>C23: the checker decides linearizability.  Let the model partition the history into parts on which it neither panics nor compares
  states other than by equality, and let there be no timeout.  Under every schedule of the goroutines, whatever the check has
  returned is the right answer: Ok when every part is linearizable, and Illegal otherwise.  When there is at least one part, the
  check returns under every schedule that keeps running every goroutine.  The sorting function may treat entries that compare
  equal in any way.\<close>

theorem checkOperations_decides:
  assumes "sortsEntries sorter" "partitionOf model history = Some parts" "\<forall>p \<in> set parts. historyOK model p" "timeout \<le> 0"
  shows "(\<forall>sched r. checkOperations sorter f g model history verbose timeout sched = Some r \<longrightarrow>
      (\<exists>info. r = Some (if \<forall>p \<in> set parts. linearizable model p then CheckOk else CheckIllegal, info))) \<and>
    (\<forall>sch. parts \<noteq> [] \<longrightarrow> fair (insert TakeResult (GoStep ` {..<length parts})) sch \<longrightarrow>
      (\<exists>n. checkOperations sorter f g model history verbose timeout (map sch [0..<n]) \<noteq> None))"
proof -
  have h: "\<forall>p \<in> set parts. historyOK (fillDefault f g model) p" using assms(3) by simp
  show ?thesis
    unfolding checkOperations_parts[OF assms(2)]
    using checkParallel_decides[OF assms(1) h assms(4)] checkParallel_ends[OF assms(1) h] by simp
qed

theorem checkOperations_decides_witness:
  "\<exists>n info. checkOperations stableSort (\<lambda>_. '''') (\<lambda>_. '''') KvModel [getX, putX] True 0 (map takeTurns [0..<n]) =
    Some (Some (CheckOk, info))"
proof -
  let ?c = "\<lambda>n. checkOperations stableSort (\<lambda>_. '''') (\<lambda>_. '''') KvModel [getX, putX] True 0 (map takeTurns [0..<n])"
  note c = checkOperations_decides[OF stableSort_sorts kv_example(1), of 0 "\<lambda>_. ''''" "\<lambda>_. ''''" True, simplified, OF kv_example(2)]
  obtain n r where n: "?c n = Some r" using c[THEN conjunct2] takeTurns_fair by auto
  moreover obtain info where "r = Some (CheckOk, info)" using c[THEN conjunct1, rule_format, OF n] kv_example(3) by auto
  ultimately show ?thesis by blast
qed

text \<open>C24: with a timeout that fires at any moment, and under every schedule of the goroutines, the check does not panic, an answer
  Ok still means that every part is linearizable, an answer Illegal that some part is not, and the answer is Unknown only when
  there is a timeout.\<close>

theorem checkOperations_sound:
  assumes "sortsEntries sorter" "partitionOf model history = Some parts" "\<forall>p \<in> set parts. historyOK model p"
    "checkOperations sorter f g model history verbose timeout sched = Some r"
  shows "\<exists>res info. r = Some (res, info) \<and> (res = CheckOk \<longrightarrow> (\<forall>p \<in> set parts. linearizable model p)) \<and>
    (res = CheckIllegal \<longrightarrow> (\<exists>p \<in> set parts. \<not> linearizable model p)) \<and> (res = CheckUnknown \<longrightarrow> 0 < timeout)"
proof -
  have h: "\<forall>p \<in> set parts. historyOK (fillDefault f g model) p" using assms(3) by simp
  show ?thesis using checkParallel_sound[OF assms(1) h assms(4)[unfolded checkOperations_parts[OF assms(2)]]] by simp
qed

theorem checkOperations_sound_witness:
  "\<not> linearizable KvModel [staleGet, putX]"
  using checkOperations_sound[OF stableSort_sorts stale_example(1) _ stale_example(3)] stale_example(2) by simp

text \<open>C25: the search of one part always returns, without a panic.  When it succeeds, the sequence of operation numbers it
  reports is a linearization, and every operation's longest sequence points to it; when it fails and was not killed, there is no
  linearization.\<close>

theorem checkSingle_linearizes:
  assumes "sortsEntries sorter" "historyOK model ops"
  shows "\<exists>ok longest seqs. checkSingle model (makeEntries sorter ops) computePartial kill = Some (Some (ok, longest, seqs)) \<and>
    (ok \<longrightarrow> linearization model ops (map (\<lambda>i. ops ! nat i) (last seqs)) \<and> longest = replicate (length ops) (Some (length seqs - 1))) \<and>
    (\<not> ok \<longrightarrow> (\<forall>i. \<not> kill i) \<longrightarrow> \<not> linearizable model ops)"
  using checkSingle_decides[OF assms, of computePartial kill] by (auto simp: decides_def split: prod.splits if_splits)

theorem checkSingle_linearizes_witness:
  "\<exists>longest seqs. checkSingle KvModel (makeEntries stableSort [getX, putX]) True (\<lambda>_. False) = Some (Some (True, longest, seqs)) \<and>
    linearization KvModel [getX, putX] (map (\<lambda>i. [getX, putX] ! nat i) (last seqs))"
  using checkSingle_linearizes[OF stableSort_sorts kv_example(2), of True "\<lambda>_. False"] kv_example(3) by auto

text \<open>C26: the checker accepts the key/value server.  In every reachable state with no operation under way in which some operation
  has completed, and fewer than \<open>2 ^ 64\<close> have, the check of the completed operations against the model of \<^verbatim>\<open>models/kv.go\<close>
  returns nothing but true under any schedule of the goroutines of the keys, and it does return under every schedule that keeps
  running all of them.\<close>

theorem checker_accepts_kvsrv:
  assumes "kvreach s" "pending s = Map.empty" "completed 2 (hist s) \<noteq> []" "length (completed 2 (hist s)) < 2 ^ 64"
    "sortsEntries sorter"
  shows "(\<forall>sched r. CheckOperations sorter f g KvModel (completed 2 (hist s)) sched = Some r \<longrightarrow> r = Some True) \<and>
    (\<forall>sch. fair (insert TakeResult (GoStep ` {..<card (opKey ` set (completed 2 (hist s)))})) sch \<longrightarrow>
      (\<exists>n. CheckOperations sorter f g KvModel (completed 2 (hist s)) (map sch [0..<n]) = Some (Some True)))"
proof -
  let ?ops = "completed 2 (hist s)" let ?keys = "opKey ` set ?ops"
  let ?parts = "map (\<lambda>k. filter (\<lambda>v. opKey v = k) ?ops) (sorted_list_of_set ?keys)"
  let ?c = "CheckOperations sorter f g KvModel ?ops"
  have ok: "okHist (hist s)" using kvreach_inv[OF assms(1)] by (simp add: kvinv_def)
  have p: "partitionOf KvModel ?ops = Some ?parts" by (simp add: partitionOf_def kvPartition_eq[OF completed_wellTyped])
  have lin: "\<forall>q \<in> set ?parts. linearizable (fillDefault f g KvModel) q"
    using completed_linearizable[OF ok idle_returned[OF assms(1,2)]] by auto
  have "historyOK KvModel q" if "q \<in> set ?parts" for q
    using that by (intro completed_ok[OF ok assms(4)]) auto
  then have h: "\<forall>q \<in> set ?parts. historyOK (fillDefault f g KvModel) q" by simp
  have len: "length ?parts = card ?keys" by simp
  have ne: "?parts \<noteq> []" using assms(3) by simp
  have one: "r = Some True" if r: "?c sched = Some r" for sched r
  proof -
    obtain r' where "checkParallel (fillDefault f g KvModel) (map (makeEntries sorter) ?parts) False 0 sched = Some r'"
        "r = map_option (\<lambda>(res, _). res = CheckOk) r'"
      using r unfolding CheckOperations_def checkOperations_parts[OF p] by auto
    then show ?thesis using checkParallel_decides[OF assms(5) h, of 0 False sched r'] lin by auto
  qed
  moreover have "\<exists>n. ?c (map sch [0..<n]) \<noteq> None" if "fair (insert TakeResult (GoStep ` {..<card ?keys})) sch" for sch
    using checkParallel_ends[OF assms(5) h ne, unfolded len, OF that, of False 0]
    unfolding CheckOperations_def checkOperations_parts[OF p] by auto
  ultimately show ?thesis by (metis not_None_eq)
qed

theorem checker_accepts_kvsrv_witness:
  "\<exists>n. CheckOperations stableSort (\<lambda>_. '''') (\<lambda>_. '''') KvModel (completed 2 (hist runB)) (map takeTurns [0..<n]) = Some (Some True)"
proof -
  have r: "returns (hist runB) = [(reqA, ''''), (reqB, '''')]" by (simp add: returns_def runB_fields runA_fields)
  have c: "completed 2 (hist runB) \<noteq> []" "length (completed 2 (hist runB)) < 2 ^ 64"
    "opKey ` set (completed 2 (hist runB)) = {''k''}"
    unfolding completed_def r by (simp_all add: reqA_def reqB_def)
  from checker_accepts_kvsrv[OF runB_reachable runB_fields(2) c(1,2) stableSort_sorts, of "\<lambda>_. ''''" "\<lambda>_. ''''"]
  show ?thesis using takeTurns_fair by (simp add: c(3))
qed

text \<open>C27: the check of an empty history of the key/value model, which has no timeout, never returns, under any schedule, since
  there is no goroutine whose result could end the loop.\<close>

theorem checker_blocks_on_empty:
  "CheckOperations sorter f g KvModel [] sched = None"
proof -
  have "parRun model [] False 0 sched (parInit 0) = Some (parInit 0)" for model :: "(KvVal, string) Model"
  proof (induction sched)
    case (Cons ev sched)
    have "parNext model [] False 0 ev (parInit 0) = Some (parInit 0)"
      by (cases ev) (simp_all add: parNext_def parStep_def takeResult_def parInit_def)
    then show ?case using Cons by simp
  qed simp
  then have "checkParallel model [] False 0 sched = None" for model :: "(KvVal, string) Model"
    by (simp add: checkParallel_def) (simp add: parInit_def)
  then show ?thesis using checkOperations_parts[of KvModel "[]" "[]" sorter f g False 0 sched]
    by (simp add: CheckOperations_def partitionOf_def kvPartition_def)
qed

text \<open>Taking back an operation undoes taking it.  For a call in a well-linked list that stands before its return and
  after another node, lifting succeeds and gives the well-linked list without the two entries, and unlifting then restores every
  pointer of the heap.\<close>

lemma unlift_lift:
  assumes "dseg h None (xs @ x # a # us @ m # vs) None" "distinct (xs @ x # a # us @ m # vs)" "nmatch (h ! a) = Some m"
  shows "\<exists>h'. lift (Some a) h = Some h' \<and> dseg h' None (xs @ x # us @ vs) None \<and> unlift (Some a) h' = Some h"
  using lift_list[OF assms] by blast

text \<open>C29: the bitset is a set of positions within its bounds.  A new bitset for \<open>n\<close> positions has room for them, with less than
  one word to spare, and is empty.  Within the bounds, set, clear and get do not panic and are insertion, removal and membership,
  and the population count is the number of elements; beyond them all three panic.  Two bitsets of one size are equal exactly if
  they have the same elements.\<close>

theorem bitset_is_a_set:
  "n \<le> capacity (newBitset n) \<and> capacity (newBitset n) < n + 64 \<and> bits (newBitset n) = {} \<and>
   bits b \<subseteq> {..<capacity b} \<and> popcnt b = card (bits b) \<and>
   (p < capacity b \<longrightarrow>
     (\<exists>b1. bset b p = Some b1 \<and> bits b1 = insert p (bits b) \<and> length b1 = length b) \<and>
     (\<exists>b2. bclear b p = Some b2 \<and> bits b2 = bits b - {p} \<and> length b2 = length b) \<and>
     bget b p = Some (p \<in> bits b)) \<and>
   (capacity b \<le> p \<longrightarrow> bset b p = None \<and> bclear b p = None \<and> bget b p = None) \<and>
   (length b = length b' \<longrightarrow> (bequals b b' \<longleftrightarrow> bits b = bits b'))"
proof -
  have "bset b p = None \<and> bclear b p = None \<and> bget b p = None" if "capacity b \<le> p"
    using that in_capacity[of p b] by (auto simp: bset_def bclear_def bget_def bitsetIndex_def go_defs)
  moreover have "(\<exists>b1. bset b p = Some b1 \<and> bits b1 = insert p (bits b) \<and> length b1 = length b) \<and>
      (\<exists>b2. bclear b p = Some b2 \<and> bits b2 = bits b - {p} \<and> length b2 = length b)" if "p < capacity b"
    using bset_total[OF that] bset_bits(1)[of b p] bset_length[of b p] bclear_total[OF that] bclear_bits(1)[of b p]
      bclear_length[of b p] by blast
  moreover have "bits b \<subseteq> {..<capacity b}" using bits_bound by auto
  moreover have "bequals b b' \<longleftrightarrow> bits b = bits b'" if "length b = length b'"
    using bequals_iff[of b b'] bits_inject[OF that] by blast
  ultimately show ?thesis using newBitset_capacity[of n] newBitset_bits[of n] popcnt_card[of b] bget_bits[of p b] by blast
qed

theorem bitset_is_a_set_witness:
  "\<exists>b1. bset (newBitset 70) 69 = Some b1 \<and> bits b1 = {69} \<and> popcnt (newBitset 70) = 0 \<and> bset (newBitset 70) 128 = None"
proof -
  have c: "capacity (newBitset 70) = 128" by (simp add: capacity_def newBitset_def)
  show ?thesis
    using bitset_is_a_set[of 70 "newBitset 70" 69 "newBitset 70"] bitset_is_a_set[of 70 "newBitset 70" 128 "newBitset 70"]
    unfolding c by auto
qed

end
