(* ===== verification/Porcupine_Visual.thy ===== *)
theory Porcupine_Visual
  imports Porcupine_Props
begin

text \<open>
  The data behind the visualization of a check, \<^verbatim>\<open>src/src/porcupine/visualization.go\<close>: for every partition the operations with
  their times, the partial linearizations that the search recorded, and for every operation the longest of them that has it.
  Writing the page is not modelled.

  \<open>nilV\<close> is the nil interface value, which a lookup in a map gives for a missing key.  The order in which \<open>sort.Slice\<close> leaves
  sequences of equal length is not specified, so the sorting function is an argument.  \<open>None\<close> is a panic.
\<close>

section \<open>Definitions\<close>

record historyElement =
  heClientId :: int
  heStart :: int
  heEnd :: int
  heDescription :: string

record linearizationStep =
  lsIndex :: int
  lsStateDescription :: string

record partitionVisualizationData =
  pvHistory :: "historyElement list"
  pvPartialLinearizations :: "linearizationStep list list"
  pvLargest :: "int \<rightharpoonup> int"

definition zeroElement :: historyElement where
  "zeroElement = \<lparr> heClientId = 0, heStart = 0, heEnd = 0, heDescription = '''' \<rparr>"

definition lookupOr :: "'a \<Rightarrow> (int \<rightharpoonup> 'a) \<Rightarrow> int \<Rightarrow> 'a" where
  "lookupOr z m k = (case m k of None \<Rightarrow> z | Some v \<Rightarrow> v)"

text \<open>The loop over the entries: the history and the maps \<open>callValue\<close> and \<open>returnValue\<close>.\<close>

fun historyLoop :: "('v, 's) Model \<Rightarrow> 'v \<Rightarrow> 'v entry list \<Rightarrow> historyElement list \<times> (int \<rightharpoonup> 'v) \<times> (int \<rightharpoonup> 'v) \<Rightarrow>
    (historyElement list \<times> (int \<rightharpoonup> 'v) \<times> (int \<rightharpoonup> 'v)) option" where
  "historyLoop model nilV [] st = Some st"
| "historyLoop model nilV (elem # elems) (history, callValue, returnValue) =
    (case ekind elem of
       callEntry \<Rightarrow> do {
         e \<leftarrow> idx history (eid elem);
         history1 \<leftarrow> set_idx history (eid elem) (e\<lparr>heClientId := eclientId elem, heStart := etime elem\<rparr>);
         historyLoop model nilV elems (history1, callValue(eid elem \<mapsto> evalue elem), returnValue) }
     | returnEntry \<Rightarrow> do {
         e \<leftarrow> idx history (eid elem);
         describe \<leftarrow> DescribeOperation model;
         d \<leftarrow> describe (lookupOr nilV callValue (eid elem)) (evalue elem);
         history1 \<leftarrow> set_idx history (eid elem) (e\<lparr>heEnd := etime elem, heDescription := d\<rparr>);
         historyLoop model nilV elems (history1, callValue, returnValue(eid elem \<mapsto> evalue elem)) })"

text \<open>The maps \<open>largestSize\<close> and \<open>largestIndex\<close> after an operation of the \<open>i\<close>-th sequence, which has length \<open>len\<close>.\<close>

definition markLargest :: "int \<Rightarrow> int \<Rightarrow> int \<Rightarrow> (int \<rightharpoonup> int) \<times> (int \<rightharpoonup> int) \<Rightarrow> (int \<rightharpoonup> int) \<times> (int \<rightharpoonup> int)" where
  "markLargest i len histId m = (case m of (largestSize, largestIndex) \<Rightarrow>
     if lookupOr 0 largestSize histId < len
     then (largestSize(histId \<mapsto> len), largestIndex(histId \<mapsto> i)) else (largestSize, largestIndex))"

text \<open>The loop over the operations of a sequence, which runs the model; an illegal step panics.\<close>

fun stepsLoop :: "('v, 's) Model \<Rightarrow> (int \<Rightarrow> 'v) \<Rightarrow> (int \<Rightarrow> 'v) \<Rightarrow> int \<Rightarrow> int \<Rightarrow> int list \<Rightarrow> 's \<Rightarrow> (int \<rightharpoonup> int) \<times> (int \<rightharpoonup> int) \<Rightarrow>
    (linearizationStep list \<times> (int \<rightharpoonup> int) \<times> (int \<rightharpoonup> int)) option" where
  "stepsLoop model callV retV i len [] state m = Some ([], m)"
| "stepsLoop model callV retV i len (histId # ids) state m = do {
     (ok, state1) \<leftarrow> Step model state (callV histId) (retV histId);
     if \<not> ok then None
     else do {
       describe \<leftarrow> DescribeState model;
       stateDesc \<leftarrow> describe state1;
       (steps, m1) \<leftarrow> stepsLoop model callV retV i len ids state1 (markLargest i len histId m);
       Some (\<lparr> lsIndex = histId, lsStateDescription = stateDesc \<rparr> # steps, m1) } }"

text \<open>The loop over the sequences.\<close>

fun partialsLoop :: "('v, 's) Model \<Rightarrow> (int \<Rightarrow> 'v) \<Rightarrow> (int \<Rightarrow> 'v) \<Rightarrow> int \<Rightarrow> int list list \<Rightarrow> (int \<rightharpoonup> int) \<times> (int \<rightharpoonup> int) \<Rightarrow>
    (linearizationStep list list \<times> (int \<rightharpoonup> int) \<times> (int \<rightharpoonup> int)) option" where
  "partialsLoop model callV retV i [] m = Some ([], m)"
| "partialsLoop model callV retV i (partial # partials) m = do {
     (linearization, m1) \<leftarrow> stepsLoop model callV retV i (int (length partial)) partial (Init model) m;
     (linearizations, m2) \<leftarrow> partialsLoop model callV retV (i + 1) partials m1;
     Some (linearization # linearizations, m2) }"

text \<open>The body of the loop over the partitions.\<close>

definition visualizePartition :: "(int list list \<Rightarrow> int list list) \<Rightarrow> 'v \<Rightarrow> ('v, 's) Model \<Rightarrow> 'v entry list \<Rightarrow> int list list \<Rightarrow>
    partitionVisualizationData option" where
  "visualizePartition psort nilV model entries partials0 = do {
     let n = length entries div 2;
     (history, callValue, returnValue) \<leftarrow> historyLoop model nilV entries (replicate n zeroElement, Map.empty, Map.empty);
     let partials = psort partials0;
     (linearizations, _, largestIndex) \<leftarrow>
       partialsLoop model (lookupOr nilV callValue) (lookupOr nilV returnValue) 0 partials (Map.empty, Map.empty);
     Some \<lparr> pvHistory = history, pvPartialLinearizations = linearizations, pvLargest = largestIndex \<rparr> }"

text \<open>The result, and the info whose sequences have been sorted in place.\<close>

definition computeVisualizationData :: "(int list list \<Rightarrow> int list list) \<Rightarrow> ('v \<Rightarrow> string) \<Rightarrow> ('s \<Rightarrow> string) \<Rightarrow> 'v \<Rightarrow> ('v, 's) Model \<Rightarrow>
    'v linearizationInfo \<Rightarrow> (partitionVisualizationData list \<times> 'v linearizationInfo) option" where
  "computeVisualizationData psort sprintV sprintS nilV model0 info = do {
     let model = fillDefault sprintV sprintS model0;
     let n = length (liHistory info);
     data \<leftarrow> those (map (\<lambda>partition. do {
       entries \<leftarrow> idx (liHistory info) (int partition);
       partials \<leftarrow> idx (partialLinearizations info) (int partition);
       visualizePartition psort nilV model entries partials }) [0..<n]);
     Some (data, info\<lparr>partialLinearizations := map psort (take n (partialLinearizations info)) @ drop n (partialLinearizations info)\<rparr>) }"

section \<open>The history\<close>

text \<open>What the model's printers have to do.\<close>

definition describable :: "('v, 's) Model \<Rightarrow> 'v Operation list \<Rightarrow> bool" where
  "describable model ops \<longleftrightarrow>
     (case DescribeOperation model of None \<Rightarrow> True | Some d \<Rightarrow> \<forall>x \<in> set ops. d (Input x) (Output x) \<noteq> None) \<and>
     (case DescribeState model of None \<Rightarrow> True | Some d \<Rightarrow> \<forall>s. d s \<noteq> None)"

definition elementOf :: "('v \<Rightarrow> 'v \<Rightarrow> string option) \<Rightarrow> 'v Operation \<Rightarrow> historyElement" where
  "elementOf describe x = \<lparr> heClientId = OpClientId x, heStart = CallTime x, heEnd = ReturnTime x,
     heDescription = the (describe (Input x) (Output x)) \<rparr>"

text \<open>The state of the loop when the entries of a set have been seen.\<close>

definition elementAfter :: "('v \<Rightarrow> 'v \<Rightarrow> string option) \<Rightarrow> 'v Operation list \<Rightarrow> 'v entry set \<Rightarrow> nat \<Rightarrow> historyElement" where
  "elementAfter describe ops A k = (let x = ops ! k; c = callE (int k) x \<in> A; r = retE (int k) x \<in> A in
     \<lparr> heClientId = (if c then OpClientId x else 0), heStart = (if c then CallTime x else 0),
       heEnd = (if r then ReturnTime x else 0), heDescription = (if r then the (describe (Input x) (Output x)) else '''') \<rparr>)"

definition valuesAfter :: "(int \<Rightarrow> 'v Operation \<Rightarrow> 'v entry) \<Rightarrow> 'v Operation list \<Rightarrow> 'v entry set \<Rightarrow> int \<rightharpoonup> 'v" where
  "valuesAfter mk ops A i = (if 0 \<le> i \<and> i < int (length ops) \<and> mk i (ops ! nat i) \<in> A then Some (evalue (mk i (ops ! nat i))) else None)"

definition afterEntries :: "('v \<Rightarrow> 'v \<Rightarrow> string option) \<Rightarrow> 'v Operation list \<Rightarrow> 'v entry set \<Rightarrow>
    historyElement list \<times> (int \<rightharpoonup> 'v) \<times> (int \<rightharpoonup> 'v)" where
  "afterEntries describe ops A =
     (map (elementAfter describe ops A) [0..<length ops], valuesAfter callE ops A, valuesAfter retE ops A)"

lemma entry_neq [simp]: "i \<noteq> j \<Longrightarrow> callE i x \<noteq> callE j y" "i \<noteq> j \<Longrightarrow> retE i x \<noteq> retE j y" "retE i x \<noteq> callE j y"
  by (metis entry_sel(3), metis entry_sel(4), metis entry_sel(9))

lemma entry_client [simp]: "eclientId (callE i x) = OpClientId x" "eclientId (retE i x) = OpClientId x"
  by (simp_all add: callE_def retE_def)

lemma elementAfter_other:
  "j \<noteq> k \<Longrightarrow> elementAfter d ops (insert (callE (int k) x) A) j = elementAfter d ops A j"
  "j \<noteq> k \<Longrightarrow> elementAfter d ops (insert (retE (int k) x) A) j = elementAfter d ops A j"
  by (simp_all add: elementAfter_def Let_def)

lemma valuesAfter_other: "valuesAfter callE ops (insert (retE i x) A) = valuesAfter callE ops A"
  "valuesAfter retE ops (insert (callE i x) A) = valuesAfter retE ops A"
  by (simp_all add: valuesAfter_def fun_eq_iff)

lemma valuesAfter_add:
  assumes "k < length ops"
  shows "valuesAfter callE ops (insert (callE (int k) (ops ! k)) A) = (valuesAfter callE ops A)(int k \<mapsto> Input (ops ! k))"
    "valuesAfter retE ops (insert (retE (int k) (ops ! k)) A) = (valuesAfter retE ops A)(int k \<mapsto> Output (ops ! k))"
proof -
  have "valuesAfter callE ops (insert (callE (int k) (ops ! k)) A) i = ((valuesAfter callE ops A)(int k \<mapsto> Input (ops ! k))) i" for i
    using assms by (cases "i = int k") (simp_all add: valuesAfter_def)
  then show "valuesAfter callE ops (insert (callE (int k) (ops ! k)) A) = (valuesAfter callE ops A)(int k \<mapsto> Input (ops ! k))" by blast
  have "valuesAfter retE ops (insert (retE (int k) (ops ! k)) A) i = ((valuesAfter retE ops A)(int k \<mapsto> Output (ops ! k))) i" for i
    using assms by (cases "i = int k") (simp_all add: valuesAfter_def)
  then show "valuesAfter retE ops (insert (retE (int k) (ops ! k)) A) = (valuesAfter retE ops A)(int k \<mapsto> Output (ops ! k))" by blast
qed

lemma update_map:
  assumes "k < n" "\<And>j. j \<noteq> k \<Longrightarrow> g j = f j"
  shows "(map f [0..<n])[k := g k] = map g [0..<n]"
  using assms by (intro nth_equalityI) (auto simp: nth_list_update)

lemma history_call:
  assumes k: "k < length ops"
  shows "historyLoop model nilV (callE (int k) (ops ! k) # es) (afterEntries d ops A) =
    historyLoop model nilV es (afterEntries d ops (insert (callE (int k) (ops ! k)) A))"
proof -
  let ?e = "callE (int k) (ops ! k)"
  have "(elementAfter d ops A k)\<lparr>heClientId := OpClientId (ops ! k), heStart := CallTime (ops ! k)\<rparr> = elementAfter d ops (insert ?e A) k"
    by (simp add: elementAfter_def Let_def)
  then show ?thesis
    using k update_map[OF k, of "elementAfter d ops (insert ?e A)" "elementAfter d ops A", OF elementAfter_other(1)]
    by (simp add: afterEntries_def go_defs valuesAfter_add valuesAfter_other)
qed

lemma history_return:
  assumes k: "k < length ops" and c: "callE (int k) (ops ! k) \<in> A" and d: "DescribeOperation model = Some d" "d (Input (ops ! k)) (Output (ops ! k)) \<noteq> None"
  shows "historyLoop model nilV (retE (int k) (ops ! k) # es) (afterEntries d ops A) =
    historyLoop model nilV es (afterEntries d ops (insert (retE (int k) (ops ! k)) A))"
proof -
  let ?e = "retE (int k) (ops ! k)"
  obtain t where t: "d (Input (ops ! k)) (Output (ops ! k)) = Some t" using d(2) by blast
  have "(elementAfter d ops A k)\<lparr>heEnd := ReturnTime (ops ! k), heDescription := t\<rparr> = elementAfter d ops (insert ?e A) k"
    by (simp add: elementAfter_def Let_def t)
  moreover have "lookupOr nilV (valuesAfter callE ops A) (int k) = Input (ops ! k)" using k c by (simp add: lookupOr_def valuesAfter_def)
  ultimately show ?thesis
    using k update_map[OF k, of "elementAfter d ops (insert ?e A)" "elementAfter d ops A", OF elementAfter_other(2)] d t
    by (simp add: afterEntries_def go_defs valuesAfter_add valuesAfter_other)
qed

text \<open>A list of entries in which every return comes after its call.\<close>

lemma historyLoop_after:
  assumes d: "DescribeOperation model = Some d" "\<forall>x \<in> set ops. d (Input x) (Output x) \<noteq> None"
  shows "\<forall>e \<in> set es. \<exists>k < length ops. e = callE (int k) (ops ! k) \<or> e = retE (int k) (ops ! k) \<Longrightarrow>
    \<forall>pre k post. es = pre @ retE (int k) (ops ! k) # post \<longrightarrow> callE (int k) (ops ! k) \<in> A \<union> set pre \<Longrightarrow>
    historyLoop model nilV es (afterEntries d ops A) = Some (afterEntries d ops (A \<union> set es))"
proof (induction es arbitrary: A)
  case (Cons e es)
  obtain k where k: "k < length ops" "e = callE (int k) (ops ! k) \<or> e = retE (int k) (ops ! k)" using Cons.prems(1) by auto
  have "callE (int j) (ops ! j) \<in> insert e A \<union> set pre" if "es = pre @ retE (int j) (ops ! j) # post" for pre j post
    using Cons.prems(2)[rule_format, of "e # pre" j post] that by auto
  then have IH: "historyLoop model nilV es (afterEntries d ops (insert e A)) = Some (afterEntries d ops (insert e A \<union> set es))"
    by (intro Cons.IH) (use Cons.prems(1) in auto)
  have "callE (int k) (ops ! k) \<in> A" if "e = retE (int k) (ops ! k)"
    using Cons.prems(2)[rule_format, of "[]" k es] that by simp
  then have "historyLoop model nilV (e # es) (afterEntries d ops A) = historyLoop model nilV es (afterEntries d ops (insert e A))"
    using k history_call[OF k(1)] history_return[OF k(1) _ d(1)] d(2) by fastforce
  then show ?case using IH by simp
qed simp

lemma makeEntries_facts:
  assumes s: "sortsEntries sorter" and t: "\<forall>x \<in> set ops. CallTime x \<le> ReturnTime x"
  shows "length (makeEntries sorter ops) = 2 * length ops"
    "e \<in> set (makeEntries sorter ops) \<longleftrightarrow> (\<exists>k < length ops. e = callE (int k) (ops ! k) \<or> e = retE (int k) (ops ! k))"
    "makeEntries sorter ops = pre @ retE (int k) (ops ! k) # post \<Longrightarrow> callE (int k) (ops ! k) \<in> set pre"
proof -
  let ?es = "makeEntries sorter ops"
  have ms: "mset ?es = mset (rawEntries 0 ops)" and so: "sorted_wrt (\<lambda>a b. \<not> entryLess b a) ?es"
    using s by (auto simp: sortsEntries_def makeEntries_def)
  show "length ?es = 2 * length ops" using mset_eq_length[OF ms] by simp
  show mem: "e \<in> set ?es \<longleftrightarrow> (\<exists>k < length ops. e = callE (int k) (ops ! k) \<or> e = retE (int k) (ops ! k))" for e
    using raw_set[of e 0 ops] mset_eq_setD[OF ms] by simp
  show "callE (int k) (ops ! k) \<in> set pre" if es: "?es = pre @ retE (int k) (ops ! k) # post"
  proof (rule ccontr)
    assume n: "callE (int k) (ops ! k) \<notin> set pre"
    have "retE (int k) (ops ! k) \<in> set ?es" using es by simp
    then have k: "k < length ops" unfolding mem using entry_neq(2,3) by (metis of_nat_eq_iff)
    then have "callE (int k) (ops ! k) \<in> set ?es" unfolding mem by blast
    then have "callE (int k) (ops ! k) \<in> set post" using n es by auto
    then have "\<not> entryLess (callE (int k) (ops ! k)) (retE (int k) (ops ! k))" using so unfolding es by (auto simp: sorted_wrt_append)
    then show False using t nth_mem[OF k] by (force simp: entryLess_def split: if_splits)
  qed
qed

lemma historyLoop_entries:
  assumes s: "sortsEntries sorter" and t: "\<forall>x \<in> set ops. CallTime x \<le> ReturnTime x"
    and d: "DescribeOperation model = Some d" "\<forall>x \<in> set ops. d (Input x) (Output x) \<noteq> None"
  obtains vc vr where
    "historyLoop model nilV (makeEntries sorter ops) (replicate (length ops) zeroElement, Map.empty, Map.empty) =
       Some (map (elementOf d) ops, vc, vr)"
    "\<And>k. k < length ops \<Longrightarrow> (lookupOr nilV vc (int k), lookupOr nilV vr (int k)) = inOut (ops ! k)"
proof -
  let ?A = "set (makeEntries sorter ops)"
  note f = makeEntries_facts[OF s t]
  have "map (elementAfter d ops {}) [0..<length ops] = replicate (length ops) zeroElement"
    by (intro nth_equalityI) (simp_all add: elementAfter_def zeroElement_def Let_def)
  then have init: "afterEntries d ops {} = (replicate (length ops) zeroElement, Map.empty, Map.empty)"
    by (simp add: afterEntries_def valuesAfter_def fun_eq_iff)
  have inA: "callE (int k) (ops ! k) \<in> ?A" "retE (int k) (ops ! k) \<in> ?A" if "k < length ops" for k using f(2) that by blast+
  have "map (elementAfter d ops ?A) [0..<length ops] = map (elementOf d) ops"
    using inA by (intro nth_equalityI) (simp_all add: elementAfter_def elementOf_def Let_def)
  then have "historyLoop model nilV (makeEntries sorter ops) (replicate (length ops) zeroElement, Map.empty, Map.empty) =
      Some (map (elementOf d) ops, valuesAfter callE ops ?A, valuesAfter retE ops ?A)"
    using historyLoop_after[OF d, of "makeEntries sorter ops" "{}" nilV] f(2,3) unfolding init by (simp add: afterEntries_def)
  then show thesis by (rule that) (use inA in \<open>simp add: lookupOr_def valuesAfter_def inOut_def\<close>)
qed

section \<open>The sequences\<close>

lemma stepsLoop_run:
  assumes d: "DescribeState model = Some d" "\<And>s. d s \<noteq> None"
  shows "\<forall>k \<in> set ks. (callV (int k), retV (int k)) = inOut (ops ! k) \<Longrightarrow>
    runFrom model s (map (\<lambda>k. inOut (ops ! k)) ks) = Some s' \<Longrightarrow>
    \<exists>steps. stepsLoop model callV retV i len (map int ks) s m = Some (steps, foldl (\<lambda>m k. markLargest i len k m) m (map int ks)) \<and>
      map lsIndex steps = map int ks \<and>
      (\<forall>j < length ks. \<exists>s1. runFrom model s (map (\<lambda>k. inOut (ops ! k)) (take (Suc j) ks)) = Some s1 \<and>
         d s1 = Some (lsStateDescription (steps ! j)))"
proof (induction ks arbitrary: s m)
  case (Cons k ks)
  have v: "callV (int k) = Input (ops ! k)" "retV (int k) = Output (ops ! k)" using Cons.prems(1) by (simp_all add: inOut_def)
  obtain s1 where s1: "Step model s (Input (ops ! k)) (Output (ops ! k)) = Some (True, s1)"
      "runFrom model s1 (map (\<lambda>k. inOut (ops ! k)) ks) = Some s'"
    using Cons.prems(2) by (auto simp: inOut_def split: option.splits bool.splits)
  obtain t where t: "d s1 = Some t" using d(2)[of s1] by blast
  obtain steps where st: "stepsLoop model callV retV i len (map int ks) s1 (markLargest i len (int k) m) =
        Some (steps, foldl (\<lambda>m k. markLargest i len k m) (markLargest i len (int k) m) (map int ks))"
      "map lsIndex steps = map int ks"
      "\<forall>j < length ks. \<exists>s2. runFrom model s1 (map (\<lambda>k. inOut (ops ! k)) (take (Suc j) ks)) = Some s2 \<and> d s2 = Some (lsStateDescription (steps ! j))"
    using Cons.IH[OF _ s1(2), of "markLargest i len (int k) m"] Cons.prems(1) by auto
  let ?steps = "\<lparr> lsIndex = int k, lsStateDescription = t \<rparr> # steps"
  have "\<exists>s2. runFrom model s (map (\<lambda>k. inOut (ops ! k)) (take (Suc j) (k # ks))) = Some s2 \<and> d s2 = Some (lsStateDescription (?steps ! j))"
    if "j < length (k # ks)" for j
    using that st(3) s1(1) t by (cases j) (auto simp: inOut_def)
  then show ?case using st(1,2) v s1(1) d(1) t by (intro exI[of _ ?steps]) simp
qed simp

text \<open>Marking the operations of a sequence, and the longest sequence of every operation.\<close>

lemma markLargest_fold:
  "foldl (\<lambda>m k. markLargest i len k m) (sz, ix) q =
    (\<lambda>k. if k \<in> set q \<and> lookupOr 0 sz k < len then Some len else sz k,
     \<lambda>k. if k \<in> set q \<and> lookupOr 0 sz k < len then Some i else ix k)"
  by (induction q arbitrary: sz ix) (auto simp: markLargest_def lookupOr_def fun_eq_iff)

definition markOK :: "int list list \<Rightarrow> (int \<rightharpoonup> int) \<times> (int \<rightharpoonup> int) \<Rightarrow> int \<Rightarrow> bool" where
  "markOK ps m k \<longleftrightarrow> (case snd m k of
      None \<Rightarrow> fst m k = None \<and> (\<forall>p \<in> set ps. k \<notin> set p)
    | Some j \<Rightarrow> 0 \<le> j \<and> j < int (length ps) \<and> k \<in> set (ps ! nat j) \<and> fst m k = Some (int (length (ps ! nat j))) \<and>
        (\<forall>p \<in> set ps. k \<in> set p \<longrightarrow> length p \<le> length (ps ! nat j)))"

lemma markOK_add:
  assumes "markOK ps m k"
  shows "markOK (ps @ [p]) (foldl (\<lambda>m k. markLargest (int (length ps)) (int (length p)) k m) m p) k"
proof -
  obtain sz ix where m: "m = (sz, ix)" by (cases m)
  have pos: "k \<in> set p \<Longrightarrow> 0 < length p" by auto
  show ?thesis
  proof (cases "ix k")
    case None
    then have "sz k = None" "\<forall>q \<in> set ps. k \<notin> set q" using assms by (simp_all add: markOK_def m)
    then show ?thesis using None pos by (auto simp: markOK_def m markLargest_fold lookupOr_def nth_append)
  next
    case (Some j)
    then have "0 \<le> j" "j < int (length ps)" "k \<in> set (ps ! nat j)" "sz k = Some (int (length (ps ! nat j)))"
        "\<forall>q \<in> set ps. k \<in> set q \<longrightarrow> length q \<le> length (ps ! nat j)"
      using assms by (simp_all add: markOK_def m)
    then show ?thesis using Some by (auto simp: markOK_def m markLargest_fold lookupOr_def nth_append nat_less_iff)
  qed
qed

text \<open>A displayed sequence: operations of the history, each once, in an order that is legal for the model and keeps the real-time
  order, with the state after every operation.\<close>

definition legalSteps :: "('v, 's) Model \<Rightarrow> 'v Operation list \<Rightarrow> int list \<Rightarrow> linearizationStep list \<Rightarrow> bool" where
  "legalSteps model ops ids steps \<longleftrightarrow> map lsIndex steps = ids \<and> distinct ids \<and> set ids \<subseteq> {0..<int (length ops)} \<and>
     keepsRealTime (map (\<lambda>i. ops ! nat i) ids) \<and>
     (\<forall>j < length ids. \<exists>s d. runFrom model (Init model) (map (\<lambda>i. inOut (ops ! nat i)) (take (Suc j) ids)) = Some s \<and>
        DescribeState model = Some d \<and> d s = Some (lsStateDescription (steps ! j)))"

definition legalIds :: "('v, 's) Model \<Rightarrow> 'v Operation list \<Rightarrow> int list \<Rightarrow> bool" where
  "legalIds model ops ids \<longleftrightarrow> (\<exists>ks s. ids = map int ks \<and> distinct ks \<and> set ks \<subseteq> {..<length ops} \<and>
     keepsRealTime (map ((!) ops) ks) \<and> runFrom model (Init model) (map (\<lambda>k. inOut (ops ! k)) ks) = Some s)"

lemma stepsLoop_legal:
  assumes d: "DescribeState model = Some d" "\<And>s. d s \<noteq> None" and l: "legalIds model ops ids"
    and v: "\<And>k. k < length ops \<Longrightarrow> (callV (int k), retV (int k)) = inOut (ops ! k)"
  shows "\<exists>steps. stepsLoop model callV retV i len ids (Init model) m = Some (steps, foldl (\<lambda>m k. markLargest i len k m) m ids) \<and>
    legalSteps model ops ids steps"
proof -
  obtain ks s where ks: "ids = map int ks" "distinct ks" "set ks \<subseteq> {..<length ops}" "keepsRealTime (map ((!) ops) ks)"
      "runFrom model (Init model) (map (\<lambda>k. inOut (ops ! k)) ks) = Some s"
    using l unfolding legalIds_def by blast
  have "\<forall>k \<in> set ks. (callV (int k), retV (int k)) = inOut (ops ! k)" using v ks(3) by blast
  from stepsLoop_run[OF d this ks(5), of i len m] obtain steps where
    st: "stepsLoop model callV retV i len ids (Init model) m = Some (steps, foldl (\<lambda>m k. markLargest i len k m) m ids)"
      "map lsIndex steps = ids"
      "\<forall>j < length ks. \<exists>s1. runFrom model (Init model) (map (\<lambda>k. inOut (ops ! k)) (take (Suc j) ks)) = Some s1 \<and>
         d s1 = Some (lsStateDescription (steps ! j))"
    unfolding ks(1) by blast
  have "set ids \<subseteq> {0..<int (length ops)}" using ks(1,3) by auto
  then have "legalSteps model ops ids steps"
    using st(2,3) ks(1,2,4) d(1) by (simp add: legalSteps_def distinct_map comp_def take_map)
  then show ?thesis using st(1) by blast
qed

lemma partialsLoop_legal:
  assumes d: "DescribeState model = Some d" "\<And>s. d s \<noteq> None"
    and v: "\<And>k. k < length ops \<Longrightarrow> (callV (int k), retV (int k)) = inOut (ops ! k)"
  shows "\<forall>ids \<in> set ps. legalIds model ops ids \<Longrightarrow> \<forall>k. markOK seen m k \<Longrightarrow>
    \<exists>ls m'. partialsLoop model callV retV (int (length seen)) ps m = Some (ls, m') \<and>
      list_all2 (legalSteps model ops) ps ls \<and> (\<forall>k. markOK (seen @ ps) m' k)"
proof (induction ps arbitrary: seen m)
  case (Cons p ps)
  let ?m = "foldl (\<lambda>m k. markLargest (int (length seen)) (int (length p)) k m) m p"
  obtain steps where s: "stepsLoop model callV retV (int (length seen)) (int (length p)) p (Init model) m = Some (steps, ?m)"
      "legalSteps model ops p steps"
    using stepsLoop_legal[OF d _ v, of p "int (length seen)" "int (length p)" m] Cons.prems(1) by auto
  obtain ls m' where r: "partialsLoop model callV retV (int (length (seen @ [p]))) ps ?m = Some (ls, m')"
      "list_all2 (legalSteps model ops) ps ls" "\<forall>k. markOK ((seen @ [p]) @ ps) m' k"
    using Cons.IH[of "seen @ [p]" ?m] Cons.prems markOK_add[of seen m _ p] by auto
  have e: "int (length seen) + 1 = int (length (seen @ [p]))" by simp
  have "partialsLoop model callV retV (int (length seen)) (p # ps) m = Some (steps # ls, m')"
    unfolding partialsLoop.simps s(1) e using r(1) by (simp del: length_append)
  then show ?case using s(2) r(2,3) by auto
qed simp

section \<open>What the search records\<close>

lemma path_legalIds:
  assumes r: "represents I ops" and p: "path model I ks s"
  shows "legalIds model ops (map int ks)"
proof -
  note d = representsD[OF r]
  have f: "distinct ks" "set ks \<subseteq> {..<length ops}" using path_facts[OF p] d(2) by simp_all
  then have io: "map (inOutOf I) ks = map (\<lambda>k. inOut (ops ! k)) ks" using d(3) by auto
  have "keepsRealTime (map ((!) ops) ks) \<longleftrightarrow> sorted_wrt (\<lambda>j k. \<not> iC I j < iR I k) ks"
    unfolding keepsRealTime_def sorted_wrt_map using f(2) d(4) by (intro sorted_wrt_cong_set) auto
  then show ?thesis using f path_run[OF p, unfolded io] path_order[OF p] unfolding legalIds_def by blast
qed

lemma uniqueSeqs_legal:
  assumes "represents I ops" "seqsOK model I longest seqs" "ids \<in> set (uniqueSeqs longest seqs)"
  shows "legalIds model ops ids"
proof -
  obtain q where "Some q \<in> set longest" "ids = seqs ! q" using assms(3) by (auto simp: uniqueSeqs_def split: option.splits)
  then have "ids \<in> set seqs" using assms(2) by (auto simp: seqsOK_def)
  then obtain ks s where "ids = map int ks" "path model I ks s" using assms(2) unfolding seqsOK_def by blast
  then show ?thesis using path_legalIds[OF assms(1)] by simp
qed

lemma checkParallel_info:
  assumes s: "sortsEntries sorter" and h: "\<forall>p \<in> set parts. historyOK model p"
    and r: "checkParallel model (map (makeEntries sorter) parts) True timeout sched = Some (Some (res, info))"
  shows "liHistory info = map (makeEntries sorter) parts" "length (partialLinearizations info) = length parts"
    "i < length parts \<Longrightarrow> ids \<in> set (partialLinearizations info ! i) \<Longrightarrow> legalIds model (parts ! i) ids"
proof -
  obtain st where st: "(res, info) = parResult (map (makeEntries sorter) parts) True st" "parInv model sorter parts True timeout st" "pMain st = PReturned"
    using checkParallel_returns[OF s h r] by auto
  note g = st(2)[unfolded parInv_def, THEN conjunct1]
  have len: "length (pGos st) = length parts" "length (pLongest st) = length parts" using g by (simp_all add: gosInv_def)
  have info: "info = \<lparr> liHistory = map (makeEntries sorter) parts,
      partialLinearizations = map (\<lambda>(longest, seqs). uniqueSeqs longest seqs) (pLongest st) \<rparr>"
    using st(1) by (simp add: parResult_def)
  show "liHistory info = map (makeEntries sorter) parts" "length (partialLinearizations info) = length parts" by (simp_all add: info len)
  have "pCount st = length parts" using st(2,3) by (simp add: parInv_def mainInv_def)
  then have "length (filter isDone (pGos st)) = length (pGos st)"
    using g length_filter_le[of isDone "pGos st"] unfolding gosInv_def by linarith
  then have ended: "\<forall>g \<in> set (pGos st). isDone g" unfolding filter_all .
  show "legalIds model (parts ! i) ids" if i: "i < length parts" and ids: "ids \<in> set (partialLinearizations info ! i)"
  proof -
    have "isDone (pGos st ! i)" using ended i len by simp
    then obtain ok where "pGos st ! i = GoDone ok" by (cases "pGos st ! i") (simp_all add: isDone_def)
    then have "searchPost model (instAt sorter parts i) (\<lambda>_. pKill st) (ok, pLongest st ! i)"
      using g i by (auto simp: gosInv_def goInv_def split: goroutine.splits)
    then have "seqsOK model (instAt sorter parts i) (fst (pLongest st ! i)) (snd (pLongest st ! i))"
      by (simp add: searchPost_def split: prod.splits)
    moreover have "represents (instAt sorter parts i) (parts ! i)" using historyOK_inst(1)[OF s, of model "parts ! i"] h i by (simp add: instAt_def)
    moreover have "ids \<in> set (uniqueSeqs (fst (pLongest st ! i)) (snd (pLongest st ! i)))" using ids i len by (simp add: info case_prod_beta)
    ultimately show ?thesis using uniqueSeqs_legal by blast
  qed
qed

section \<open>The data\<close>

text \<open>What the call of \<open>sort.Slice\<close> gives: the same sequences, none after a shorter one.\<close>

definition sortsPartials :: "(int list list \<Rightarrow> int list list) \<Rightarrow> bool" where
  "sortsPartials psort \<longleftrightarrow> (\<forall>ps. mset (psort ps) = mset ps \<and> sorted_wrt (\<lambda>a b. length b \<le> length a) (psort ps))"

lemma fillDefault_describes:
  assumes "describable model ops"
  obtains d e where "DescribeOperation (fillDefault f g model) = Some d" "\<forall>x \<in> set ops. d (Input x) (Output x) \<noteq> None"
    "DescribeState (fillDefault f g model) = Some e" "\<And>s. e s \<noteq> None"
proof -
  have "\<exists>d. DescribeOperation (fillDefault f g model) = Some d \<and> (\<forall>x \<in> set ops. d (Input x) (Output x) \<noteq> None)"
    using assms by (auto simp: describable_def fillDefault_def Let_def DefaultDescribeOperation_def split: option.splits)
  moreover have "\<exists>e. DescribeState (fillDefault f g model) = Some e \<and> (\<forall>s. e s \<noteq> None)"
    using assms by (auto simp: describable_def fillDefault_def Let_def DefaultDescribeState_def split: option.splits)
  ultimately show thesis using that by blast
qed

text \<open>The data of a partition: the operations, the recorded sequences by decreasing length, and for every operation one of the
  longest that has it.\<close>

definition showsPartition :: "('v, 's) Model \<Rightarrow> 'v Operation list \<Rightarrow> int list list \<Rightarrow> partitionVisualizationData \<Rightarrow> bool" where
  "showsPartition model ops partials pd \<longleftrightarrow>
     (\<exists>d. DescribeOperation model = Some d \<and> pvHistory pd = map (elementOf d) ops) \<and>
     (\<exists>ps. mset ps = mset partials \<and> sorted_wrt (\<lambda>a b. length b \<le> length a) ps \<and>
        list_all2 (legalSteps model ops) ps (pvPartialLinearizations pd) \<and>
        (\<forall>k. case pvLargest pd k of
             None \<Rightarrow> \<forall>p \<in> set ps. k \<notin> set p
           | Some j \<Rightarrow> 0 \<le> j \<and> j < int (length ps) \<and> k \<in> set (ps ! nat j) \<and>
               (\<forall>p \<in> set ps. k \<in> set p \<longrightarrow> length p \<le> length (ps ! nat j))))"

lemma visualizePartition_shows:
  assumes s: "sortsEntries sorter" "sortsPartials psort" and h: "historyOK model ops" "describable model ops"
    and l: "\<forall>ids \<in> set partials. legalIds (fillDefault f g model) ops ids"
  shows "\<exists>pd. visualizePartition psort nilV (fillDefault f g model) (makeEntries sorter ops) partials = Some pd \<and>
    showsPartition (fillDefault f g model) ops partials pd"
proof -
  have t: "\<forall>x \<in> set ops. CallTime x \<le> ReturnTime x" using h(1) by (simp add: historyOK_def)
  obtain d e where d: "DescribeOperation (fillDefault f g model) = Some d" "\<forall>x \<in> set ops. d (Input x) (Output x) \<noteq> None"
    and e: "DescribeState (fillDefault f g model) = Some e" "\<And>s. e s \<noteq> None"
    by (rule fillDefault_describes[OF h(2), where f = f and g = g]) blast
  obtain vc vr where v: "historyLoop (fillDefault f g model) nilV (makeEntries sorter ops) (replicate (length ops) zeroElement, Map.empty, Map.empty) =
       Some (map (elementOf d) ops, vc, vr)"
    "\<And>k. k < length ops \<Longrightarrow> (lookupOr nilV vc (int k), lookupOr nilV vr (int k)) = inOut (ops ! k)"
    by (rule historyLoop_entries[OF s(1) t d, of nilV]) blast
  let ?ps = "psort partials"
  have ps: "mset ?ps = mset partials" "sorted_wrt (\<lambda>a b. length b \<le> length a) ?ps" using s(2) by (simp_all add: sortsPartials_def)
  have "\<forall>ids \<in> set ?ps. legalIds (fillDefault f g model) ops ids" using l mset_eq_setD[OF ps(1)] by simp
  moreover have "\<forall>k. markOK [] (Map.empty, Map.empty) k" by (simp add: markOK_def)
  ultimately obtain ls sz ix where r: "partialsLoop (fillDefault f g model) (lookupOr nilV vc) (lookupOr nilV vr) 0 ?ps (Map.empty, Map.empty) =
        Some (ls, sz, ix)" "list_all2 (legalSteps (fillDefault f g model) ops) ?ps ls" "\<forall>k. markOK ?ps (sz, ix) k"
    using partialsLoop_legal[OF e v(2), of ?ps "[]" "(Map.empty, Map.empty)"] by auto
  let ?pd = "\<lparr> pvHistory = map (elementOf d) ops, pvPartialLinearizations = ls, pvLargest = ix \<rparr>"
  have n: "length (makeEntries sorter ops) div 2 = length ops" using makeEntries_facts(1)[OF s(1) t] by simp
  have "visualizePartition psort nilV (fillDefault f g model) (makeEntries sorter ops) partials = Some ?pd"
    unfolding visualizePartition_def n Let_def v(1) by (simp add: r(1))
  moreover have "case ix k of None \<Rightarrow> \<forall>p \<in> set ?ps. k \<notin> set p
      | Some j \<Rightarrow> 0 \<le> j \<and> j < int (length ?ps) \<and> k \<in> set (?ps ! nat j) \<and> (\<forall>p \<in> set ?ps. k \<in> set p \<longrightarrow> length p \<le> length (?ps ! nat j))" for k
    using r(3)[rule_format, of k] by (simp add: markOK_def split: option.splits)
  ultimately show ?thesis using d(1) ps r(2) unfolding showsPartition_def by (intro exI[of _ ?pd]) auto
qed

lemma those_all:
  "(\<And>i. i < n \<Longrightarrow> \<exists>y. f i = Some y \<and> P i y) \<Longrightarrow>
   \<exists>ys. those (map f [0..<n]) = Some ys \<and> length ys = n \<and> (\<forall>i < n. P i (ys ! i))"
proof -
  assume a: "\<And>i. i < n \<Longrightarrow> \<exists>y. f i = Some y \<and> P i y"
  let ?ys = "map (\<lambda>i. the (f i)) [0..<n]"
  have "map f [0..<n] = map Some ?ys" using a by fastforce
  moreover have "those (map Some xs) = Some xs" for xs :: "'b list" by (induction xs) auto
  ultimately have "those (map f [0..<n]) = Some ?ys" by metis
  then show ?thesis using a by (intro exI[of _ ?ys]) fastforce
qed

text \<open>C28: a check that computes its info can be displayed.  The panic for a partial linearization that the model rejects is
  never reached, nor is any other.  The data has, for every partition, each operation with its client, times and description;
  the sequences that the search recorded, longest first, each legal for the model and in real-time order, with the state after
  every operation; and for each operation one of the longest sequences that contain it.\<close>

theorem visualization_shows_search:
  assumes "sortsEntries sorter" "sortsPartials psort" "partitionOf model history = Some parts"
    "\<forall>p \<in> set parts. historyOK model p \<and> describable model p"
    "CheckOperationsVerbose sorter f g model history timeout sched = Some (Some (res, info))"
  shows "\<exists>data info'. computeVisualizationData psort f g nilV model info = Some (data, info') \<and> length data = length parts \<and>
    (\<forall>i < length parts. showsPartition (fillDefault f g model) (parts ! i) (partialLinearizations info ! i) (data ! i))"
proof -
  note r = assms(5)[unfolded CheckOperationsVerbose_def checkOperations_parts[OF assms(3)]]
  have h: "\<forall>p \<in> set parts. historyOK (fillDefault f g model) p" using assms(4) by simp
  note info = checkParallel_info[OF assms(1) h r]
  let ?F = "\<lambda>i. do {
       entries \<leftarrow> idx (liHistory info) (int i);
       partials \<leftarrow> idx (partialLinearizations info) (int i);
       visualizePartition psort nilV (fillDefault f g model) entries partials }"
  let ?P = "\<lambda>i. showsPartition (fillDefault f g model) (parts ! i) (partialLinearizations info ! i)"
  have one: "\<exists>pd. ?F i = Some pd \<and> ?P i pd" if i: "i < length parts" for i
  proof -
    have "\<forall>ids \<in> set (partialLinearizations info ! i). legalIds (fillDefault f g model) (parts ! i) ids" using info(3)[OF i] by blast
    with visualizePartition_shows[OF assms(1,2), of model "parts ! i"] assms(4) i show ?thesis
      by (simp add: go_defs info(1,2))
  qed
  obtain data where "those (map ?F [0..<length parts]) = Some data" "length data = length parts" "\<forall>i < length parts. ?P i (data ! i)"
    using those_all[of "length parts" ?F ?P, OF one] by blast
  moreover have "length (liHistory info) = length parts" by (simp add: info(1))
  ultimately show ?thesis unfolding computeVisualizationData_def Let_def by simp
qed

definition stablePartials :: "int list list \<Rightarrow> int list list" where
  "stablePartials = sort_key (\<lambda>p. - int (length p))"

lemma stablePartials_sorts: "sortsPartials stablePartials"
proof -
  have "sorted_wrt (\<lambda>a b. length b \<le> length a) (stablePartials ps)" for ps
    using sorted_sort_key[of "\<lambda>p. - int (length p)" ps] by (simp add: stablePartials_def sorted_wrt_map)
  then show ?thesis by (simp add: sortsPartials_def stablePartials_def)
qed

text \<open>The check of a put and a later get that misses it fails, and has recorded the put alone.\<close>

theorem visualization_shows_search_witness:
  "\<exists>data info'. computeVisualizationData stablePartials (\<lambda>_. '''') (\<lambda>s. s) (KvOut \<lparr> KvOutValue = '''' \<rparr>) KvModel
      \<lparr> liHistory = [makeEntries stableSort [staleGet, putX]], partialLinearizations = [[[1]]] \<rparr> = Some (data, info') \<and>
    length data = 1 \<and> showsPartition (fillDefault (\<lambda>_. '''') (\<lambda>s. s) KvModel) [staleGet, putX] [[1]] (data ! 0)"
proof -
  have c: "CheckOperationsVerbose stableSort (\<lambda>_. '''') (\<lambda>s. s) KvModel [staleGet, putX] 0 (replicate 9 (GoStep 0) @ [TakeResult]) =
      Some (Some (CheckIllegal, \<lparr> liHistory = [makeEntries stableSort [staleGet, putX]], partialLinearizations = [[[1]]] \<rparr>))"
    by code_simp
  have "describable KvModel [staleGet, putX]"
    by (simp add: describable_def KvModel_def kvDescribeOperation_def staleGet_def getX_def putX_def)
  then have h: "\<forall>p \<in> set [[staleGet, putX]]. historyOK KvModel p \<and> describable KvModel p" using stale_example(2) by simp
  from visualization_shows_search[OF stableSort_sorts stablePartials_sorts stale_example(1) h c, of "KvOut \<lparr> KvOutValue = '''' \<rparr>"]
  show ?thesis by simp
qed

end
