(* ===== verification/Mr_Coordinator.thy ===== *)
theory Mr_Coordinator
  imports Go_Prelude
begin

text \<open>
  The MapReduce coordinator: \<^verbatim>\<open>src/src/mr/rpc.go\<close> and \<^verbatim>\<open>src/src/mr/coordinator.go\<close>.

  The coordinator reaches its jobs in two ways: by \<open>mapJob\<close> and \<open>reduceJob\<close>, and by the map \<open>allJob\<close>.  The slices share their
  backing arrays, and the code depends on it: \<open>GetJob\<close> writes through the one and \<open>ReportJobResult\<close> and the timers through the
  other.  So the arrays are in a store, and a slice is the address of its array, \<open>None\<close> for nil.  Each handler runs with the
  lock held and is one function; the goroutine that \<open>GetJob\<close> starts is the timer it returns.
\<close>

section \<open>Data\<close>

datatype MRJobType = UnknownJob | MapJob | ReduceJob | TerminalJob | WaitJob

datatype MRJobState = UnknownState | UnFinish | Doing | Finished

record Job =
  jType :: MRJobType
  jState :: MRJobState
  jId :: int
  jFile :: string

record ExampleArgs =
  exX :: int

record ExampleReply =
  rJobType :: MRJobType
  rJobId :: int
  rMapJobFileName :: string
  rMapJobId :: int
  rNReduce :: int
  rReduceJobId :: int

record JobFinishArgs =
  fJobType :: MRJobType
  fSuccess :: bool
  fJobId :: int

record Coordinator =
  cFiles :: "string list"
  cNReduce :: int
  cArrays :: "Job list list"
  cAllJob :: "MRJobType \<rightharpoonup> nat"
  cMapJobFinish :: bool
  cMapJob :: "nat option"
  cReduceJobFinish :: bool
  cReduceJob :: "nat option"

section \<open>Slices of jobs\<close>

definition jobsAt :: "Coordinator \<Rightarrow> nat option \<Rightarrow> Job list" where
  "jobsAt c p = (case p of None \<Rightarrow> [] | Some a \<Rightarrow> if a < length (cArrays c) then cArrays c ! a else [])"

text \<open>\<open>s[i].JobState\<close> and \<open>s[i].JobState = v\<close>.\<close>

definition stateAt :: "Coordinator \<Rightarrow> nat option \<Rightarrow> int \<Rightarrow> MRJobState option" where
  "stateAt c p i = map_option jState (idx (jobsAt c p) i)"

definition setState :: "Coordinator \<Rightarrow> nat option \<Rightarrow> int \<Rightarrow> MRJobState \<Rightarrow> Coordinator option" where
  "setState c p i v = do {
     job \<leftarrow> idx (jobsAt c p) i;
     jobs \<leftarrow> set_idx (jobsAt c p) i (job\<lparr>jState := v\<rparr>);
     a \<leftarrow> p;
     Some (c\<lparr>cArrays := (cArrays c)[a := jobs]\<rparr>) }"

section \<open>Handlers\<close>

text \<open>The loop over the jobs for the first one that is \<open>UnFinish\<close>.\<close>

fun firstUnFinish :: "nat \<Rightarrow> Job list \<Rightarrow> (nat \<times> Job) option" where
  "firstUnFinish i [] = None"
| "firstUnFinish i (job # jobs) = (if jState job \<noteq> UnFinish then firstUnFinish (i + 1) jobs else Some (i, job))"

text \<open>The result of \<open>GetJob\<close> has the timer it starts, with the job that the goroutine will look at.\<close>

definition GetJob :: "Coordinator \<Rightarrow> ExampleArgs \<Rightarrow> ExampleReply \<Rightarrow>
    (Coordinator \<times> ExampleReply \<times> (MRJobType \<times> int) option) option" where
  "GetJob c args reply =
    (case (if \<not> cMapJobFinish c then firstUnFinish 0 (jobsAt c (cMapJob c)) else None) of
       Some (i, job) \<Rightarrow> do {
         let reply1 = reply\<lparr>rMapJobFileName := jFile job, rJobType := jType job, rJobId := int i, rNReduce := cNReduce c\<rparr>;
         c1 \<leftarrow> setState c (cMapJob c) (int i) Doing;
         Some (c1, reply1, Some (jType job, int i)) }
     | None \<Rightarrow>
         (case (if cMapJobFinish c then firstUnFinish 0 (jobsAt c (cReduceJob c)) else None) of
            Some (i, job) \<Rightarrow> do {
              let reply1 = reply\<lparr>rJobType := jType job, rJobId := int i\<rparr>;
              c1 \<leftarrow> setState c (cReduceJob c) (int i) Doing;
              Some (c1, reply1, Some (jType job, int i)) }
          | None \<Rightarrow>
              if cReduceJobFinish c then Some (c, reply\<lparr>rJobType := TerminalJob\<rparr>, None)
              else Some (c, reply\<lparr>rJobType := WaitJob\<rparr>, None)))"

text \<open>The goroutine, when its timer fires.\<close>

definition timerFires :: "Coordinator \<Rightarrow> MRJobType \<times> int \<Rightarrow> Coordinator option" where
  "timerFires c t = (case t of (jobType, jobId) \<Rightarrow> do {
     st \<leftarrow> stateAt c (cAllJob c jobType) jobId;
     if st = Doing then setState c (cAllJob c jobType) jobId UnFinish else Some c })"

definition CheckAllState :: "Coordinator \<Rightarrow> JobFinishArgs \<Rightarrow> Coordinator" where
  "CheckAllState c args =
    (let mapJobAllFinish = (if fJobType args = MapJob
           then list_all (\<lambda>job. jState job = Finished) (jobsAt c (cAllJob c MapJob)) else True);
         reduceJobAllFinish = (if fJobType args = ReduceJob
           then list_all (\<lambda>job. jState job = Finished) (jobsAt c (cAllJob c ReduceJob)) else True);
         c1 = (if fJobType args = MapJob \<and> mapJobAllFinish then c\<lparr>cMapJobFinish := True\<rparr> else c)
     in (if fJobType args = ReduceJob \<and> reduceJobAllFinish then c1\<lparr>cReduceJobFinish := True\<rparr> else c1))"

definition ReportJobResult :: "Coordinator \<Rightarrow> JobFinishArgs \<Rightarrow> Coordinator option" where
  "ReportJobResult c args =
    (if fJobType args = TerminalJob \<or> fJobType args = WaitJob then Some c
     else if \<not> fSuccess args then do {
       st \<leftarrow> stateAt c (cAllJob c (fJobType args)) (fJobId args);
       if st = Doing then setState c (cAllJob c (fJobType args)) (fJobId args) UnFinish else Some c }
     else do {
       st \<leftarrow> stateAt c (cAllJob c (fJobType args)) (fJobId args);
       if st = Doing then do {
         c1 \<leftarrow> setState c (cAllJob c (fJobType args)) (fJobId args) Finished;
         Some (CheckAllState c1 args) }
       else Some c })"

definition mrDone :: "Coordinator \<Rightarrow> bool" where
  "mrDone c = cReduceJobFinish c"

fun mapJobs :: "nat \<Rightarrow> string list \<Rightarrow> Job list" where
  "mapJobs i [] = []"
| "mapJobs i (fileName # files) =
     \<lparr> jType = MapJob, jState = UnFinish, jId = int i, jFile = fileName \<rparr> # mapJobs (i + 1) files"

definition MakeCoordinator :: "string list \<Rightarrow> int \<Rightarrow> Coordinator" where
  "MakeCoordinator files nReduce =
    (let reduceJobs = map (\<lambda>i. \<lparr> jType = ReduceJob, jState = UnFinish, jId = int i, jFile = [] \<rparr>) [0..<nat nReduce]
     in \<lparr> cFiles = files, cNReduce = nReduce, cArrays = [mapJobs 0 files, reduceJobs],
          cAllJob = [MapJob \<mapsto> 0, ReduceJob \<mapsto> 1], cMapJobFinish = False, cMapJob = Some 0,
          cReduceJobFinish = False, cReduceJob = Some 1 \<rparr>)"

end
