(* ===== verification/Mr_Worker.thy ===== *)
theory Mr_Worker
  imports Mr_Coordinator "HOL-Library.Word" "HOL-Library.AList" "HOL-Library.Char_ord" "HOL-Library.List_Lexorder"
begin

text \<open>
  The MapReduce worker: \<^verbatim>\<open>src/src/mr/worker.go\<close>, and the sequential MapReduce of \<^verbatim>\<open>src/src/main/mrsequential.go\<close>.

  The directory is an association list of file names and contents.  Other workers run between the file operations of a job, so a
  job is a sequence of steps on the directory, with the control state \<open>wctl\<close> between them; \<open>processJob\<close> is their composition when
  nothing intervenes.  Arguments of the model are: the application's \<open>mapf\<close> and \<open>reducef\<close>; \<open>enc\<close>, what the JSON encoder writes for
  a pair; \<open>dec\<close>, the pairs that the JSON decoder reads from a file up to its first error; \<open>sorter\<close>, the call of
  \<open>sort.Sort\<close> by key, which leaves the order of equal keys open; and \<open>order\<close>, the order in which Go ranges over a map.
\<close>

unbundle bit_operations_syntax

section \<open>Keys and names\<close>

record KeyValue =
  kvKey :: string
  kvValue :: string

text \<open>\<open>ByKey.Less\<close>.\<close>

definition keyLess :: "KeyValue \<Rightarrow> KeyValue \<Rightarrow> bool" where
  "keyLess a b \<longleftrightarrow> kvKey a < kvKey b"

text \<open>\<open>fnv.New32a\<close>.\<close>

definition fnv32a :: "string \<Rightarrow> 32 word" where
  "fnv32a key = foldl (\<lambda>h b. (h XOR of_char b) * 16777619) 2166136261 key"

definition ihash :: "string \<Rightarrow> int" where
  "ihash key = uint (fnv32a key AND 0x7fffffff)"

text \<open>\<open>strconv.Itoa\<close>.\<close>

fun natDigits :: "nat \<Rightarrow> string" where
  "natDigits n = (if n < 10 then [char_of (48 + n)] else natDigits (n div 10) @ [char_of (48 + n mod 10)])"

declare natDigits.simps [simp del]

definition Itoa :: "int \<Rightarrow> string" where
  "Itoa i = (if i < 0 then CHR ''-'' # natDigits (nat (- i)) else natDigits (nat i))"

definition interName :: "string \<Rightarrow> string \<Rightarrow> string" where
  "interName m r = ''mr-'' @ m @ ''-'' @ r"

definition outName :: "string \<Rightarrow> string" where
  "outName r = ''mr-out-'' @ r"

section \<open>The directory\<close>

type_synonym files = "(string \<times> string) list"

text \<open>\<open>filepath.Glob\<close> with the pattern \<open>pre*suf\<close>.\<close>

definition globMatch :: "string \<Rightarrow> string \<Rightarrow> string \<Rightarrow> bool" where
  "globMatch pre suf name \<longleftrightarrow>
     length pre + length suf \<le> length name \<and> take (length pre) name = pre \<and> drop (length name - length suf) name = suf \<and>
     CHR ''/'' \<notin> set (take (length name - length pre - length suf) (drop (length pre) name))"

definition Glob :: "files \<Rightarrow> string \<Rightarrow> string \<Rightarrow> string list" where
  "Glob fs pre suf = filter (globMatch pre suf) (sort (remdups (map fst fs)))"

text \<open>\<open>os.CreateTemp\<close> picks a name that does not exist, by adding something random to the pattern; the writes to the file and
  \<open>os.Rename\<close>.\<close>

definition createTemp :: "files \<Rightarrow> string \<Rightarrow> string \<Rightarrow> (files \<times> string) option" where
  "createTemp fs pattern rand =
    (if map_of fs (pattern @ rand) = None then Some (AList.update (pattern @ rand) [] fs, pattern @ rand) else None)"

definition writeFile :: "files \<Rightarrow> string \<Rightarrow> string \<Rightarrow> files" where
  "writeFile fs name content = AList.update name content fs"

definition rename :: "files \<Rightarrow> string \<Rightarrow> string \<Rightarrow> files option" where
  "rename fs old new = map_option (\<lambda>content. AList.update new content (AList.delete old fs)) (map_of fs old)"

section \<open>The map job\<close>

text \<open>The loop that groups the pairs by the number of their reduce job.  Go's remainder of a number that is not negative does not
  depend on the sign of the divisor; the remainder by zero is a panic.\<close>

definition groupPair :: "int \<Rightarrow> (int \<times> KeyValue list) list \<Rightarrow> KeyValue \<Rightarrow> (int \<times> KeyValue list) list option" where
  "groupPair nReduce imap pair =
    (if nReduce = 0 then None
     else let index = ihash (kvKey pair) mod \<bar>nReduce\<bar>
          in Some (AList.update index ((case map_of imap index of None \<Rightarrow> [] | Some l \<Rightarrow> l) @ [pair]) imap))"

fun groupPairs :: "int \<Rightarrow> KeyValue list \<Rightarrow> (int \<times> KeyValue list) list \<Rightarrow> (int \<times> KeyValue list) list option" where
  "groupPairs nReduce [] imap = Some imap"
| "groupPairs nReduce (pair # pairs) imap = Option.bind (groupPair nReduce imap pair) (groupPairs nReduce pairs)"

text \<open>One iteration of the loop over the groups, with the name of the temporary file: \<open>None\<close> when the file cannot be created
  or renamed.\<close>

definition writeGroup :: "(KeyValue \<Rightarrow> string) \<Rightarrow> ExampleReply \<Rightarrow> files \<Rightarrow> int \<times> KeyValue list \<Rightarrow> string \<Rightarrow> files option" where
  "writeGroup enc reply fs g rand = (case g of (i, pairs) \<Rightarrow> do {
     let final = interName (Itoa (rJobId reply)) (Itoa i);
     (fs1, tmp) \<leftarrow> createTemp fs final rand;
     let fs2 = writeFile fs1 tmp (concat (map enc pairs));
     rename fs2 tmp final })"

section \<open>The reduce job\<close>

text \<open>The inner loop on \<open>j\<close>.\<close>

function sameKeyEnd :: "KeyValue list \<Rightarrow> nat \<Rightarrow> nat \<Rightarrow> nat" where
  "sameKeyEnd pairs i j =
    (if j < length pairs \<and> kvKey (pairs ! j) = kvKey (pairs ! i) then sameKeyEnd pairs i (j + 1) else j)"
  by auto
termination by (relation "measure (\<lambda>(pairs, i, j). length pairs - j)") auto

declare sameKeyEnd.simps [simp del]

lemma sameKeyEnd_ge: "j \<le> sameKeyEnd pairs i j"
proof (induction pairs i j rule: sameKeyEnd.induct)
  case (1 pairs i j)
  then show ?case by (subst sameKeyEnd.simps) auto
qed

text \<open>The loop over the keys: the key and the output of each line.\<close>

function reduceLoop :: "(string \<Rightarrow> string list \<Rightarrow> string) \<Rightarrow> KeyValue list \<Rightarrow> nat \<Rightarrow> (string \<times> string) list" where
  "reduceLoop reducef pairs i =
    (if i < length pairs
     then let j = sameKeyEnd pairs i (i + 1);
              values = map (\<lambda>k. kvValue (pairs ! k)) [i..<j];
              output = reducef (kvKey (pairs ! i)) values
          in (kvKey (pairs ! i), output) # reduceLoop reducef pairs j
     else [])"
  by auto
termination by (relation "measure (\<lambda>(reducef, pairs, i). length pairs - i)")
  (auto intro: diff_less_mono2 less_le_trans[OF _ sameKeyEnd_ge])

declare reduceLoop.simps [simp del]

text \<open>\<open>fmt.Fprintf(tmpFile, "%v %v\n", key, output)\<close>.\<close>

definition lineOf :: "string \<times> string \<Rightarrow> string" where
  "lineOf kv = fst kv @ '' '' @ snd kv @ [CHR 0x0A]"

definition outText :: "(string \<times> string) list \<Rightarrow> string" where
  "outText ls = concat (map lineOf ls)"

text \<open>Sorting, reducing and writing the output, after the files have been read.\<close>

definition writeOutput :: "(KeyValue list \<Rightarrow> KeyValue list) \<Rightarrow> (string \<Rightarrow> string list \<Rightarrow> string) \<Rightarrow> ExampleReply \<Rightarrow>
    files \<Rightarrow> KeyValue list \<Rightarrow> string \<Rightarrow> files option" where
  "writeOutput sorter reducef reply fs tempPairs rand = do {
     let pairs = sorter tempPairs;
     let final = outName (Itoa (rJobId reply));
     (fs1, tmp) \<leftarrow> createTemp fs final rand;
     let fs2 = writeFile fs1 tmp (outText (reduceLoop reducef pairs 0));
     rename fs2 tmp final }"

section \<open>A job, step by step\<close>

text \<open>Where a worker is: about to call \<open>GetJob\<close>; with a reply; in the loop over the groups; in the loop over the files, with those
  left and the pairs read; after it; with the result of \<open>processJob\<close>, about to report; and gone.\<close>

datatype wctl =
    Asking
  | Got ExampleReply
  | Mapping ExampleReply "(int \<times> KeyValue list) list"
  | Reading ExampleReply "string list" "KeyValue list"
  | Writing ExampleReply "KeyValue list"
  | Finishing ExampleReply bool
  | Exited

text \<open>The application and the parts of the library that are arguments.\<close>

record MrApp =
  mapf :: "string \<Rightarrow> string \<Rightarrow> KeyValue list"
  reducef :: "string \<Rightarrow> string list \<Rightarrow> string"
  enc :: "KeyValue \<Rightarrow> string"
  dec :: "string \<Rightarrow> KeyValue list"
  sorter :: "KeyValue list \<Rightarrow> KeyValue list"

text \<open>The beginning of \<open>processJob\<close> up to the loop over the groups or files.  A reply \<open>TerminalJob\<close> sets \<open>canTerminal\<close>.\<close>

definition startJob :: "MrApp \<Rightarrow> ((int \<times> KeyValue list) list \<Rightarrow> (int \<times> KeyValue list) list) \<Rightarrow> files \<Rightarrow> ExampleReply \<Rightarrow> wctl option" where
  "startJob app order fs reply =
    (if rJobType reply = TerminalJob then Some (Finishing reply True)
     else if rJobType reply = MapJob then
       (case map_of fs (rMapJobFileName reply) of
          None \<Rightarrow> Some (Finishing reply False)
        | Some content \<Rightarrow> do {
            imap \<leftarrow> groupPairs (rNReduce reply) (mapf app (rMapJobFileName reply) content) [];
            Some (Mapping reply (order imap)) })
     else if rJobType reply = ReduceJob then
       (let names = Glob fs ''mr-'' (CHR ''-'' # Itoa (rJobId reply)) in
        if names = [] then Some (Finishing reply True) else Some (Reading reply names []))
     else Some (Finishing reply True))"

text \<open>One step of \<open>processJob\<close>; \<open>rand\<close> is the random part of a temporary file's name.  \<open>None\<close> is a panic.\<close>

fun jobStep :: "MrApp \<Rightarrow> ((int \<times> KeyValue list) list \<Rightarrow> (int \<times> KeyValue list) list) \<Rightarrow> string \<Rightarrow> files \<Rightarrow> wctl \<Rightarrow>
    (files \<times> wctl) option" where
  "jobStep app order rand fs (Got reply) = map_option (\<lambda>w. (fs, w)) (startJob app order fs reply)"
| "jobStep app order rand fs (Mapping reply []) = Some (fs, Finishing reply True)"
| "jobStep app order rand fs (Mapping reply (g # gs)) =
     (case writeGroup (enc app) reply fs g rand of
        None \<Rightarrow> Some (fs, Finishing reply False)
      | Some fs1 \<Rightarrow> Some (fs1, Mapping reply gs))"
| "jobStep app order rand fs (Reading reply [] pairs) = Some (fs, Writing reply pairs)"
| "jobStep app order rand fs (Reading reply (name # names) pairs) =
     (case map_of fs name of
        None \<Rightarrow> Some (fs, Finishing reply False)
      | Some content \<Rightarrow> Some (fs, Reading reply names (pairs @ dec app content)))"
| "jobStep app order rand fs (Writing reply pairs) =
     (case writeOutput (sorter app) (reducef app) reply fs pairs rand of
        None \<Rightarrow> Some (fs, Finishing reply False)
      | Some fs1 \<Rightarrow> Some (fs1, Finishing reply True))"
| "jobStep app order rand fs w = Some (fs, w)"

text \<open>\<open>processJob\<close> when nothing else happens: \<open>rands k\<close> is the random part in step \<open>k\<close>.\<close>

definition processBody :: "MrApp \<Rightarrow> ((int \<times> KeyValue list) list \<Rightarrow> (int \<times> KeyValue list) list) \<Rightarrow> (nat \<Rightarrow> string) \<Rightarrow>
    nat \<times> files \<times> wctl \<Rightarrow> (nat \<times> files \<times> wctl, files \<times> bool) ctl" where
  "processBody app order rands s = (case s of (k, fs, w) \<Rightarrow>
     (case w of
        Finishing reply success \<Rightarrow> Halt (fs, success)
      | _ \<Rightarrow> orCrash (map_option (\<lambda>(fs1, w1). Go (k + 1, fs1, w1)) (jobStep app order (rands k) fs w))))"

definition processJob :: "MrApp \<Rightarrow> ((int \<times> KeyValue list) list \<Rightarrow> (int \<times> KeyValue list) list) \<Rightarrow> (nat \<Rightarrow> string) \<Rightarrow>
    files \<Rightarrow> ExampleReply \<Rightarrow> (files \<times> bool) option option" where
  "processJob app order rands fs reply = runLoop (processBody app order rands) (0, fs, Got reply)"

text \<open>What \<open>Worker\<close> sends, and whether its loop goes on.\<close>

definition zeroReply :: ExampleReply where
  "zeroReply = \<lparr> rJobType = UnknownJob, rJobId = 0, rMapJobFileName = [], rMapJobId = 0, rNReduce = 0, rReduceJobId = 0 \<rparr>"

definition jobResult :: "ExampleReply \<Rightarrow> bool \<Rightarrow> JobFinishArgs" where
  "jobResult reply success = \<lparr> fJobType = rJobType reply, fSuccess = success, fJobId = rJobId reply \<rparr>"

definition afterReport :: "ExampleReply \<Rightarrow> wctl" where
  "afterReport reply = (if rJobType reply = TerminalJob then Exited else Asking)"

section \<open>The sequential MapReduce\<close>

fun readInputs :: "(string \<Rightarrow> string \<Rightarrow> KeyValue list) \<Rightarrow> files \<Rightarrow> string list \<Rightarrow> KeyValue list option" where
  "readInputs f fs [] = Some []"
| "readInputs f fs (filename # filenames) = do {
     content \<leftarrow> map_of fs filename;
     rest \<leftarrow> readInputs f fs filenames;
     Some (f filename content @ rest) }"

definition mrSequential :: "MrApp \<Rightarrow> files \<Rightarrow> string list \<Rightarrow> files option" where
  "mrSequential app fs filenames = do {
     intermediate \<leftarrow> readInputs (mapf app) fs filenames;
     let pairs = sorter app intermediate;
     Some (writeFile fs ''mr-out-0'' (outText (reduceLoop (reducef app) pairs 0))) }"

end
