(* ===== verification/Mr_Data.thy ===== *)
theory Mr_Data
  imports Mr_Worker "HOL-Library.Multiset"
begin

text \<open>
  Facts on the data of a MapReduce run: file names and patterns, the grouping of pairs by reduce number, the effect of the file
  operations, and the loop over sorted pairs against its specification by keys.
\<close>

section \<open>Names\<close>

lemma natDigits_chars: "c \<in> set (natDigits n) \<Longrightarrow> \<exists>d < (10 :: nat). c = char_of (48 + d)"
proof (induction n rule: natDigits.induct)
  case (1 n)
  show ?case
  proof (cases "n < 10")
    case True
    then have "natDigits n = [char_of (48 + n)]" by (subst natDigits.simps) simp
    then show ?thesis using "1.prems" True by auto
  next
    case False
    then have "natDigits n = natDigits (n div 10) @ [char_of (48 + n mod 10)]" by (subst natDigits.simps) simp
    then consider "c \<in> set (natDigits (n div 10))" | "c = char_of (48 + n mod 10)" using "1.prems" by auto
    then show ?thesis using "1.IH"[OF False] by cases (auto intro: exI[of _ "n mod 10"])
  qed
qed

lemma natDigits_nonempty [simp]: "natDigits n \<noteq> []"
  by (subst natDigits.simps) simp

lemma digit_inj: "d < 10 \<Longrightarrow> e < 10 \<Longrightarrow> (char_of (48 + d) :: char) = char_of (48 + e) \<Longrightarrow> d = (e :: nat)"
  using arg_cong[of "char_of (48 + d)" "char_of (48 + e)" "of_char :: char \<Rightarrow> nat"] by simp

lemma natDigits_inj: "natDigits m = natDigits n \<Longrightarrow> m = n"
proof (induction m arbitrary: n rule: natDigits.induct)
  case (1 m)
  have one: "length (natDigits k) = 1 \<longleftrightarrow> k < 10" for k
    by (subst natDigits.simps) simp
  have "m < 10 \<longleftrightarrow> n < 10" using one[of m] one[of n] "1.prems" by simp
  show ?case
  proof (cases "m < 10")
    case True
    then show ?thesis using "1.prems" \<open>m < 10 \<longleftrightarrow> n < 10\<close> digit_inj[of m n] natDigits.simps[of m] natDigits.simps[of n] by simp
  next
    case False
    then have "natDigits (m div 10) = natDigits (n div 10)" "(char_of (48 + m mod 10) :: char) = char_of (48 + n mod 10)"
      using "1.prems" \<open>m < 10 \<longleftrightarrow> n < 10\<close> natDigits.simps[of m] natDigits.simps[of n] by simp_all
    then have "m div 10 = n div 10" "m mod 10 = n mod 10" using "1.IH"[OF False] digit_inj[of "m mod 10" "n mod 10"] by simp_all
    then show ?thesis by (metis div_mult_mod_eq)
  qed
qed

lemma Itoa_inj: "0 \<le> i \<Longrightarrow> 0 \<le> j \<Longrightarrow> Itoa i = Itoa j \<Longrightarrow> i = j"
  using natDigits_inj[of "nat i" "nat j"] by (simp add: Itoa_def eq_nat_nat_iff)

lemma Itoa_nonempty [simp]: "Itoa i \<noteq> []"
  by (simp add: Itoa_def)

lemma Itoa_chars: "0 \<le> i \<Longrightarrow> CHR ''-'' \<notin> set (Itoa i)" "0 \<le> i \<Longrightarrow> CHR ''/'' \<notin> set (Itoa i)" "0 \<le> i \<Longrightarrow> CHR ''o'' \<notin> set (Itoa i)"
proof -
  have "c \<noteq> CHR ''-'' \<and> c \<noteq> CHR ''/'' \<and> c \<noteq> CHR ''o''" if cn: "c \<in> set (natDigits n)" for c n
  proof -
    obtain d :: nat where d: "d < 10" "c = char_of (48 + d)" using natDigits_chars[OF cn] by blast
    then have "of_char c = 48 + d" by simp
    then show ?thesis using d(1) by auto
  qed
  then show "0 \<le> i \<Longrightarrow> CHR ''-'' \<notin> set (Itoa i)" "0 \<le> i \<Longrightarrow> CHR ''/'' \<notin> set (Itoa i)" "0 \<le> i \<Longrightarrow> CHR ''o'' \<notin> set (Itoa i)"
    by (auto simp: Itoa_def)
qed

text \<open>A string split at its last separator.\<close>

lemma last_split:
  assumes "xs @ c # ys = xs' @ c # ys'" "c \<notin> set ys" "c \<notin> set ys'"
  shows "xs = xs'" "ys = ys'"
  using assms by (auto simp: append_eq_append_conv2 Cons_eq_append_conv append_eq_Cons_conv)

lemma globMatch_iff: "globMatch pre suf name \<longleftrightarrow> (\<exists>mid. name = pre @ mid @ suf \<and> CHR ''/'' \<notin> set mid)"
proof
  assume g: "globMatch pre suf name"
  define k where "k = length name - length suf"
  have g': "length pre \<le> k" "take (length pre) name = pre" "drop k name = suf"
      "CHR ''/'' \<notin> set (take (k - length pre) (drop (length pre) name))"
    using g by (auto simp: globMatch_def k_def add.commute)
  have "take k name = take (length pre) (take k name) @ drop (length pre) (take k name)" by (rule append_take_drop_id[symmetric])
  also have "\<dots> = pre @ take (k - length pre) (drop (length pre) name)" using g'(1,2) by (simp add: drop_take min_def)
  finally have "name = pre @ take (k - length pre) (drop (length pre) name) @ suf"
    using append_take_drop_id[of k name] g'(3) by simp
  then show "\<exists>mid. name = pre @ mid @ suf \<and> CHR ''/'' \<notin> set mid" using g'(4) by blast
qed (auto simp: globMatch_def)

abbreviation inter :: "nat \<Rightarrow> int \<Rightarrow> string" where
  "inter j i \<equiv> interName (Itoa (int j)) (Itoa i)"

lemma inter_inj:
  assumes "inter j i = inter j' i'" "0 \<le> i" "0 \<le> i'"
  shows "j = j'" "i = i'"
  using last_split[of "Itoa (int j)" "CHR ''-''" "Itoa i" "Itoa (int j')" "Itoa i'"] assms Itoa_inj[of i i'] Itoa_inj[of "int j" "int j'"]
  by (simp_all add: interName_def Itoa_chars)

lemma inter_out: "0 \<le> i \<Longrightarrow> 0 \<le> i' \<Longrightarrow> inter j i \<noteq> outName (Itoa i')"
proof
  assume i: "0 \<le> i" "0 \<le> i'" and e: "inter j i = outName (Itoa i')"
  then have "Itoa (int j) @ CHR ''-'' # Itoa i = ''out'' @ CHR ''-'' # Itoa i'" by (simp add: interName_def outName_def)
  from last_split(1)[OF this] have "Itoa (int j) = ''out''" using i by (simp add: Itoa_chars)
  then show False using Itoa_chars(3)[of "int j"] by simp
qed

lemma out_inj: "0 \<le> i \<Longrightarrow> 0 \<le> i' \<Longrightarrow> outName (Itoa i) = outName (Itoa i') \<Longrightarrow> i = i'"
  by (simp add: outName_def Itoa_inj)

text \<open>The names that the pattern of a reduce job matches.\<close>

abbreviation matches :: "int \<Rightarrow> string \<Rightarrow> bool" where
  "matches i \<equiv> globMatch ''mr-'' (CHR ''-'' # Itoa i)"

lemma matches_name: "0 \<le> i \<Longrightarrow> CHR ''-'' \<notin> set r \<Longrightarrow> CHR ''/'' \<notin> set m \<Longrightarrow> matches i (interName m r) \<longleftrightarrow> r = Itoa i"
  using last_split[of m "CHR ''-''" r _ "Itoa i"] by (auto simp: globMatch_iff interName_def Itoa_chars)

lemma outName_inter: "outName r = interName ''out'' r"
  by (simp add: outName_def interName_def)

lemma matches_inter: "0 \<le> i \<Longrightarrow> 0 \<le> i' \<Longrightarrow> matches i' (inter j i) \<longleftrightarrow> i = i'"
  using matches_name[of i' "Itoa i" "Itoa (int j)"] Itoa_inj[of i i'] by (auto simp: Itoa_chars)

lemma matches_out: "0 \<le> i \<Longrightarrow> 0 \<le> i' \<Longrightarrow> matches i' (outName (Itoa i)) \<longleftrightarrow> i = i'"
  using matches_name[of i' "Itoa i" "''out''"] Itoa_inj[of i i'] by (auto simp: Itoa_chars outName_inter)

lemma matches_mr: "matches i name \<Longrightarrow> prefix ''mr-'' name"
  by (auto simp: globMatch_iff)

text \<open>The random part of the name of a temporary file: not empty, and so long that no reduce number is mistaken for it.\<close>

definition goodRand :: "int \<Rightarrow> string \<Rightarrow> bool" where
  "goodRand n rand \<longleftrightarrow> rand \<noteq> [] \<and> CHR ''-'' \<notin> set rand \<and> (\<forall>i. 0 \<le> i \<longrightarrow> i < n \<longrightarrow> length (Itoa i) \<le> length rand)"

lemma temp_matches:
  assumes "goodRand n rand" "0 \<le> i" "i < n" "CHR ''-'' \<notin> set r" "CHR ''/'' \<notin> set m" "r \<noteq> []"
  shows "\<not> matches i (interName m r @ rand)"
proof -
  have "interName m r @ rand = interName m (r @ rand)" by (simp add: interName_def)
  moreover have "r @ rand \<noteq> Itoa i"
  proof
    assume "r @ rand = Itoa i"
    then have "length rand < length (Itoa i)" using assms(6) by (metis length_append length_greater_0_conv less_add_same_cancel2)
    then show False using assms(1,2,3) by (auto simp: goodRand_def)
  qed
  ultimately show ?thesis using matches_name[of i "r @ rand" m] assms by (simp add: goodRand_def)
qed

section \<open>File operations\<close>

lemma map_of_update [simp]: "map_of (AList.update k v al) = (map_of al)(k \<mapsto> v)"
  by (rule update_conv')

lemma map_of_delete [simp]: "map_of (AList.delete k al) = (map_of al)(k := None)"
  by (rule delete_conv')

lemma write_rename:
  assumes "createTemp fs final rand = Some (fs1, tmp)" "rename (writeFile fs1 tmp content) tmp final = Some fs2" "rand \<noteq> []"
  shows "map_of fs2 = (map_of fs)(final \<mapsto> content)"
proof -
  have c: "fs1 = AList.update tmp [] fs" "tmp = final @ rand" "map_of fs tmp = None"
    using assms(1) by (auto simp: createTemp_def split: if_splits)
  have "map_of fs2 = (map_of fs)(tmp := None, final \<mapsto> content)" using assms(2) by (auto simp: rename_def writeFile_def c(1))
  then show ?thesis using c(3) assms(3) by (auto simp: fun_eq_iff c(2))
qed

lemma writeGroup_effect:
  "writeGroup en reply fs (i, pairs) rand = Some fs' \<Longrightarrow> rand \<noteq> [] \<Longrightarrow>
   map_of fs' = (map_of fs)(interName (Itoa (rJobId reply)) (Itoa i) \<mapsto> concat (map en pairs))"
  unfolding writeGroup_def Let_def by (auto split: bind_splits dest: write_rename)

lemma writeOutput_effect:
  "writeOutput so red reply fs pairs rand = Some fs' \<Longrightarrow> rand \<noteq> [] \<Longrightarrow>
   map_of fs' = (map_of fs)(outName (Itoa (rJobId reply)) \<mapsto> outText (reduceLoop red (so pairs) 0))"
  unfolding writeOutput_def Let_def by (auto split: bind_splits dest: write_rename)

lemma set_Glob: "name \<in> set (Glob fs pre suf) \<longleftrightarrow> globMatch pre suf name \<and> map_of fs name \<noteq> None"
  by (auto simp: Glob_def map_of_eq_None_iff)

lemma distinct_Glob: "distinct (Glob fs pre suf)"
  by (simp add: Glob_def)

section \<open>Grouping\<close>

lemma ihash_bounds: "0 \<le> ihash key \<and> ihash key < 2 ^ 31"
proof -
  have "uint (w AND 0x7fffffff) < 2 ^ 31" for w :: "32 word"
  proof -
    have "w AND 0x7fffffff = take_bit 31 w" by (simp add: take_bit_eq_mask mask_eq_decr_exp)
    then show ?thesis using take_bit_int_less_exp[of 31 "uint w"] by (simp add: unsigned_take_bit_eq)
  qed
  then show ?thesis by (simp add: ihash_def)
qed

definition bucket :: "int \<Rightarrow> KeyValue list \<Rightarrow> int \<Rightarrow> KeyValue list" where
  "bucket n pairs i = filter (\<lambda>kv. ihash (kvKey kv) mod n = i) pairs"

lemma groupPairs_spec:
  assumes "0 < n" "distinct (map fst imap)" "\<And>i. map_of imap i = (if bucket n done i = [] then None else Some (bucket n done i))"
  shows "\<exists>imap'. groupPairs n pairs imap = Some imap' \<and> distinct (map fst imap') \<and>
    (\<forall>i. map_of imap' i = (if bucket n (done @ pairs) i = [] then None else Some (bucket n (done @ pairs) i)))"
  using assms(2,3)
proof (induction pairs arbitrary: imap "done")
  case Nil
  then show ?case by simp
next
  case (Cons p ps)
  let ?i = "ihash (kvKey p) mod n"
  let ?imap = "AList.update ?i ((case map_of imap ?i of None \<Rightarrow> [] | Some l \<Rightarrow> l) @ [p]) imap"
  have "groupPair n imap p = Some ?imap" using assms(1) by (simp add: groupPair_def Let_def)
  moreover have "map_of ?imap i = (if bucket n (done @ [p]) i = [] then None else Some (bucket n (done @ [p]) i))" for i
    using Cons.prems(2)[of i] Cons.prems(2)[of ?i] by (auto simp: bucket_def)
  moreover have "distinct (map fst ?imap)" using Cons.prems(1) by (rule distinct_update)
  ultimately show ?case
    using Cons.IH[of ?imap "done @ [p]", unfolded append.assoc append_Cons append_Nil] by simp
qed

lemma groupPairs_groups:
  assumes "0 < n"
  shows "\<exists>imap. groupPairs n pairs [] = Some imap \<and> distinct imap \<and>
    (\<forall>i ps. (i, ps) \<in> set imap \<longleftrightarrow> ps = bucket n pairs i \<and> ps \<noteq> [])"
proof -
  obtain imap where i: "groupPairs n pairs [] = Some imap" "distinct (map fst imap)"
      "\<And>i. map_of imap i = (if bucket n pairs i = [] then None else Some (bucket n pairs i))"
    using groupPairs_spec[OF assms, of "[]" "[]" pairs] by (auto simp: bucket_def)
  have "(i, ps) \<in> set imap \<longleftrightarrow> ps = bucket n pairs i \<and> ps \<noteq> []" for i ps
    using map_of_eq_Some_iff[OF i(2), of i ps] i(3)[of i] by (auto split: if_splits)
  moreover have "distinct imap" using i(2) by (simp add: distinct_map)
  ultimately show ?thesis using i(1) by blast
qed

lemma bucket_range: "0 < n \<Longrightarrow> bucket n pairs i \<noteq> [] \<Longrightarrow> 0 \<le> i \<and> i < n"
  by (auto simp: bucket_def filter_empty_conv)

section \<open>The loop over sorted pairs\<close>

text \<open>What \<open>sort.Sort\<close> by key gives.\<close>

definition sortsPairs :: "(KeyValue list \<Rightarrow> KeyValue list) \<Rightarrow> bool" where
  "sortsPairs so \<longleftrightarrow> (\<forall>ps. mset (so ps) = mset ps \<and> sorted_wrt (\<lambda>a b. \<not> keyLess b a) (so ps))"

definition keySorted :: "KeyValue list \<Rightarrow> bool" where
  "keySorted ps \<longleftrightarrow> sorted (map kvKey ps)"

lemma sortsPairs_sorted: "sortsPairs so \<Longrightarrow> keySorted (so ps) \<and> mset (so ps) = mset ps"
  by (simp add: sortsPairs_def keySorted_def sorted_map keyLess_def not_less)

text \<open>The lines as a specification: one per key, in order, with all values of the key in the order of the list.\<close>

definition valuesOf :: "KeyValue list \<Rightarrow> string \<Rightarrow> string list" where
  "valuesOf ps k = map kvValue (filter (\<lambda>kv. kvKey kv = k) ps)"

definition linesOf :: "(string \<Rightarrow> string list \<Rightarrow> string) \<Rightarrow> KeyValue list \<Rightarrow> (string \<times> string) list" where
  "linesOf red ps = map (\<lambda>k. (k, red k (valuesOf ps k))) (sorted_list_of_set (kvKey ` set ps))"

lemma sameKeyEnd_takeWhile:
  assumes "i < length ps"
  shows "i < j \<Longrightarrow> j \<le> length ps \<Longrightarrow> sameKeyEnd ps i j = j + length (takeWhile (\<lambda>kv. kvKey kv = kvKey (ps ! i)) (drop j ps))"
proof (induction ps i j rule: sameKeyEnd.induct)
  case (1 ps i j)
  show ?case
  proof (cases "j < length ps")
    case True
    then have "drop j ps = ps ! j # drop (j + 1) ps" by (simp add: Cons_nth_drop_Suc)
    then show ?thesis using 1 True by (subst sameKeyEnd.simps) auto
  next
    case False
    then show ?thesis using 1 by (subst sameKeyEnd.simps) simp
  qed
qed

text \<open>The loop as a recursion on the rest of the list.\<close>

function linesRec :: "(string \<Rightarrow> string list \<Rightarrow> string) \<Rightarrow> KeyValue list \<Rightarrow> (string \<times> string) list" where
  "linesRec red [] = []"
| "linesRec red (p # ps) =
    (kvKey p, red (kvKey p) (map kvValue (p # takeWhile (\<lambda>kv. kvKey kv = kvKey p) ps))) #
      linesRec red (dropWhile (\<lambda>kv. kvKey kv = kvKey p) ps)"
  by pat_completeness auto
termination by (relation "measure (\<lambda>(red, ps). length ps)") (auto simp: le_imp_less_Suc length_dropWhile_le)

lemma nth_range_take: "i \<le> j \<Longrightarrow> j \<le> length xs \<Longrightarrow> map (\<lambda>k. f (xs ! k)) [i..<j] = map f (take (j - i) (drop i xs))"
  by (intro nth_equalityI) auto

lemma reduceLoop_rec: "i \<le> length ps \<Longrightarrow> reduceLoop red ps i = linesRec red (drop i ps)"
proof (induction red ps i rule: reduceLoop.induct)
  case (1 red ps i)
  show ?case
  proof (cases "i < length ps")
    case True
    let ?P = "\<lambda>kv. kvKey kv = kvKey (ps ! i)" let ?r = "drop (i + 1) ps"
    define j where "j = sameKeyEnd ps i (i + 1)"
    have j: "j = i + 1 + length (takeWhile ?P ?r)" using sameKeyEnd_takeWhile[OF True, of "i + 1"] True by (simp add: j_def)
    have jl: "j \<le> length ps" using length_takeWhile_le[of ?P ?r] True by (simp add: j)
    have d: "drop i ps = ps ! i # ?r" using True by (simp add: Cons_nth_drop_Suc)
    have "take (j - i) (drop i ps) = ps ! i # takeWhile ?P ?r" unfolding d j by (simp add: takeWhile_eq_take[symmetric])
    then have v: "map (\<lambda>k. kvValue (ps ! k)) [i..<j] = map kvValue (ps ! i # takeWhile ?P ?r)"
      using nth_range_take[of i j ps kvValue] jl j by simp
    have w: "drop j ps = dropWhile ?P ?r" unfolding j by (simp add: dropWhile_eq_drop add.commute)
    have IH: "reduceLoop red ps j = linesRec red (drop j ps)" using "1.IH"[OF True j_def] jl by (simp add: j_def)
    have "reduceLoop red ps i = (kvKey (ps ! i), red (kvKey (ps ! i)) (map (\<lambda>k. kvValue (ps ! k)) [i..<j])) # reduceLoop red ps j"
      using True by (subst reduceLoop.simps) (simp add: j_def Let_def)
    then show ?thesis unfolding IH v w d by simp
  next
    case False
    then show ?thesis using 1 by (subst reduceLoop.simps) simp
  qed
qed

lemma keySorted_split:
  assumes "keySorted (p # ps)"
  shows "takeWhile (\<lambda>kv. kvKey kv = kvKey p) ps = filter (\<lambda>kv. kvKey kv = kvKey p) ps \<and>
    dropWhile (\<lambda>kv. kvKey kv = kvKey p) ps = filter (\<lambda>kv. kvKey kv \<noteq> kvKey p) ps"
  using assms
proof (induction ps)
  case (Cons q ps)
  have s: "keySorted (p # ps)" using Cons.prems by (auto simp: keySorted_def)
  have "\<forall>r \<in> set ps. kvKey r \<noteq> kvKey p" if "kvKey q \<noteq> kvKey p"
    using Cons.prems that by (fastforce simp: keySorted_def)
  then show ?case using Cons.IH[OF s] by (auto simp: filter_empty_conv filter_id_conv)
qed simp

lemma sorted_keys_Cons:
  assumes "finite A" "\<forall>a \<in> A. k < a"
  shows "sorted_list_of_set (insert k A) = (k :: 'a :: linorder) # sorted_list_of_set A"
proof -
  have "Min (insert k A) = k" using assms by (intro Min_eqI) (auto intro: less_imp_le)
  moreover have "insert k A - {k} = A" using assms(2) by auto
  ultimately show ?thesis using sorted_list_of_set_nonempty[of "insert k A"] assms(1) by simp
qed

lemma linesRec_spec: "keySorted ps \<Longrightarrow> linesRec red ps = linesOf red ps"
proof (induction red ps rule: linesRec.induct)
  case (1 red)
  then show ?case by (simp add: linesOf_def)
next
  case (2 red p ps)
  let ?k = "kvKey p" let ?r = "filter (\<lambda>kv. kvKey kv \<noteq> ?k) ps"
  note sp = conjunct1[OF keySorted_split[OF "2.prems"]] conjunct2[OF keySorted_split[OF "2.prems"]]
  have sr: "keySorted ?r" using "2.prems" by (auto simp: keySorted_def intro: sorted_filter)
  have gt: "\<forall>a \<in> kvKey ` set ?r. ?k < a" using "2.prems" by (auto simp: keySorted_def order_less_le)
  have keys: "kvKey ` set (p # ps) = insert ?k (kvKey ` set ?r)" by auto
  have "valuesOf ?r k = valuesOf (p # ps) k" if "k \<in> kvKey ` set ?r" for k
    using that by (auto simp: valuesOf_def intro!: arg_cong[of _ _ "map kvValue"] filter_cong)
  then have "linesOf red (p # ps) = (?k, red ?k (valuesOf (p # ps) ?k)) # linesOf red ?r"
    unfolding linesOf_def keys sorted_keys_Cons[OF finite_imageI[OF finite_set] gt] by simp
  moreover have "valuesOf (p # ps) ?k = map kvValue (p # takeWhile (\<lambda>kv. kvKey kv = ?k) ps)"
    by (simp add: valuesOf_def sp(1))
  ultimately show ?case using "2.IH"[unfolded sp(2), OF sr] by (simp add: sp(2))
qed

lemma reduceLoop_lines: "keySorted ps \<Longrightarrow> reduceLoop red ps 0 = linesOf red ps"
  using reduceLoop_rec[of 0 ps red] linesRec_spec[of ps red] by simp

end
