(* ===== verification/Mr_Sys.thy ===== *)
theory Mr_Sys
  imports Mr_Data
begin

text \<open>
  The coordinator as two lists of job states, and the system of one coordinator, its timers and any number of workers on one
  directory.

  \<open>mkC\<close> is the coordinator with given job states; the lemmas on \<open>GetJob\<close>, \<open>timerFires\<close> and \<open>ReportJobResult\<close> say what each
  does to the two lists.  In the system a worker may be slow, fail in a file operation or die at any point, leaving a temporary
  file behind; timers fire at any time; the call of \<open>GetJob\<close> may fail before or after the handler has run, which leaves the
  worker with the zero value of the reply; a report may get lost; and a panic of a handler ends the coordinator.
\<close>

section \<open>The coordinator and its job states\<close>

definition mapJobsWith :: "string list \<Rightarrow> MRJobState list \<Rightarrow> Job list" where
  "mapJobsWith F ms = map (\<lambda>j. \<lparr> jType = MapJob, jState = ms ! j, jId = int j, jFile = F ! j \<rparr>) [0..<length F]"

definition reduceJobsWith :: "MRJobState list \<Rightarrow> Job list" where
  "reduceJobsWith rs = map (\<lambda>i. \<lparr> jType = ReduceJob, jState = rs ! i, jId = int i, jFile = [] \<rparr>) [0..<length rs]"

definition allFinished :: "MRJobState list \<Rightarrow> bool" where
  "allFinished ss \<longleftrightarrow> ss \<noteq> [] \<and> (\<forall>s \<in> set ss. s = Finished)"

definition mkC :: "string list \<Rightarrow> int \<Rightarrow> MRJobState list \<Rightarrow> MRJobState list \<Rightarrow> Coordinator" where
  "mkC F n ms rs = \<lparr> cFiles = F, cNReduce = n, cArrays = [mapJobsWith F ms, reduceJobsWith rs],
     cAllJob = [MapJob \<mapsto> 0, ReduceJob \<mapsto> 1], cMapJobFinish = allFinished ms, cMapJob = Some 0,
     cReduceJobFinish = allFinished rs, cReduceJob = Some 1 \<rparr>"

lemma with_length [simp]: "length (mapJobsWith F ms) = length F" "length (reduceJobsWith rs) = length rs"
  by (simp_all add: mapJobsWith_def reduceJobsWith_def)

lemma with_nth [simp]:
  "j < length F \<Longrightarrow> mapJobsWith F ms ! j = \<lparr> jType = MapJob, jState = ms ! j, jId = int j, jFile = F ! j \<rparr>"
  "i < length rs \<Longrightarrow> reduceJobsWith rs ! i = \<lparr> jType = ReduceJob, jState = rs ! i, jId = int i, jFile = [] \<rparr>"
  by (simp_all add: mapJobsWith_def reduceJobsWith_def)

lemma with_update:
  "length ms = length F \<Longrightarrow> j < length F \<Longrightarrow>
    (mapJobsWith F ms)[j := \<lparr> jType = MapJob, jState = v, jId = int j, jFile = F ! j \<rparr>] = mapJobsWith F (ms[j := v])"
  "i < length rs \<Longrightarrow>
    (reduceJobsWith rs)[i := \<lparr> jType = ReduceJob, jState = v, jId = int i, jFile = [] \<rparr>] = reduceJobsWith (rs[i := v])"
  by (auto intro!: nth_equalityI simp: nth_list_update)

lemma with_finished:
  "length ms = length F \<Longrightarrow> list_all (\<lambda>job. jState job = Finished) (mapJobsWith F ms) \<longleftrightarrow> (\<forall>s \<in> set ms. s = Finished)"
  "list_all (\<lambda>job. jState job = Finished) (reduceJobsWith rs) \<longleftrightarrow> (\<forall>s \<in> set rs. s = Finished)"
  by (auto simp: mapJobsWith_def reduceJobsWith_def list_all_iff all_set_conv_all_nth)

lemma MakeCoordinator_mkC:
  "MakeCoordinator F n = mkC F n (replicate (length F) UnFinish) (replicate (nat n) UnFinish)"
proof -
  have "mapJobs k F = map (\<lambda>j. \<lparr> jType = MapJob, jState = UnFinish, jId = int (k + j), jFile = F ! j \<rparr>) [0..<length F]" for k
    by (induction F arbitrary: k) (simp_all add: upt_conv_Cons map_Suc_upt[symmetric] comp_def del: upt_Suc)
  from this[of 0] have "mapJobs 0 F = mapJobsWith F (replicate (length F) UnFinish)" by (simp add: mapJobsWith_def)
  then show ?thesis
    by (auto simp: MakeCoordinator_def mkC_def allFinished_def reduceJobsWith_def Let_def)
qed

lemma firstUnFinish_Some:
  "firstUnFinish k jobs = Some (i, job) \<Longrightarrow> k \<le> i \<and> i < k + length jobs \<and> job = jobs ! (i - k) \<and> jState job = UnFinish"
  by (induction k jobs rule: firstUnFinish.induct) (force split: if_splits simp: nth_Cons')+

lemma firstUnFinish_None: "firstUnFinish k jobs = None \<longleftrightarrow> (\<forall>job \<in> set jobs. jState job \<noteq> UnFinish)"
  by (induction k jobs rule: firstUnFinish.induct) auto

lemma mkC_sel [simp]:
  "cNReduce (mkC F n ms rs) = n" "cMapJobFinish (mkC F n ms rs) = allFinished ms" "cMapJob (mkC F n ms rs) = Some 0"
  "cReduceJobFinish (mkC F n ms rs) = allFinished rs" "cReduceJob (mkC F n ms rs) = Some 1"
  "cAllJob (mkC F n ms rs) MapJob = Some 0" "cAllJob (mkC F n ms rs) ReduceJob = Some 1"
  "cAllJob (mkC F n ms rs) UnknownJob = None"
  "jobsAt (mkC F n ms rs) (Some 0) = mapJobsWith F ms" "jobsAt (mkC F n ms rs) (Some 1) = reduceJobsWith rs"
  "jobsAt (mkC F n ms rs) (Some (Suc 0)) = reduceJobsWith rs"
  by (simp_all add: mkC_def jobsAt_def)

lemma not_allFinished: "i < length ss \<Longrightarrow> ss ! i \<noteq> Finished \<Longrightarrow> \<not> allFinished ss"
  by (auto simp: allFinished_def)

text \<open>A job's state may be set as long as the job was and is not finished.\<close>

lemma setState_map:
  assumes "length ms = length F" "j < length F" "ms ! j \<noteq> Finished" "v \<noteq> Finished"
  shows "setState (mkC F n ms rs) (Some 0) (int j) v = Some (mkC F n (ms[j := v]) rs)"
proof -
  have "\<not> allFinished ms" "\<not> allFinished (ms[j := v])" using assms not_allFinished[of j] by simp_all
  then show ?thesis using assms with_update(1)[OF assms(1,2), of v]
    by (simp add: setState_def set_idx_def) (simp add: mkC_def)
qed

lemma setState_reduce:
  assumes "i < length rs" "rs ! i \<noteq> Finished" "v \<noteq> Finished"
  shows "setState (mkC F n ms rs) (Some 1) (int i) v = Some (mkC F n ms (rs[i := v]))"
proof -
  have "\<not> allFinished rs" "\<not> allFinished (rs[i := v])" using assms not_allFinished[of i] by simp_all
  then show ?thesis using assms with_update(2)[OF assms(1), of v]
    by (simp add: setState_def set_idx_def) (simp add: mkC_def)
qed

lemma stateAt_map: "j < length F \<Longrightarrow> stateAt (mkC F n ms rs) (Some 0) (int j) = Some (ms ! j)"
  by (simp add: stateAt_def)

lemma stateAt_reduce: "i < length rs \<Longrightarrow> stateAt (mkC F n ms rs) (Some 1) (int i) = Some (rs ! i)"
  by (simp add: stateAt_def)

lemma GetJob_cases:
  assumes "length ms = length F"
  obtains
    (map) j where "\<not> allFinished ms" "j < length F" "ms ! j = UnFinish"
      "GetJob (mkC F n ms rs) args reply = Some (mkC F n (ms[j := Doing]) rs,
         reply\<lparr>rMapJobFileName := F ! j, rJobType := MapJob, rJobId := int j, rNReduce := n\<rparr>, Some (MapJob, int j))"
  | (reduce) i where "allFinished ms" "i < length rs" "rs ! i = UnFinish"
      "GetJob (mkC F n ms rs) args reply = Some (mkC F n ms (rs[i := Doing]),
         reply\<lparr>rJobType := ReduceJob, rJobId := int i\<rparr>, Some (ReduceJob, int i))"
  | (terminal) "allFinished rs" "GetJob (mkC F n ms rs) args reply = Some (mkC F n ms rs, reply\<lparr>rJobType := TerminalJob\<rparr>, None)"
  | (wait) "\<not> allFinished rs" "\<not> allFinished ms \<longrightarrow> UnFinish \<notin> set ms" "allFinished ms \<longrightarrow> UnFinish \<notin> set rs"
      "GetJob (mkC F n ms rs) args reply = Some (mkC F n ms rs, reply\<lparr>rJobType := WaitJob\<rparr>, None)"
proof (cases "allFinished ms")
  case False
  show thesis
  proof (cases "firstUnFinish 0 (mapJobsWith F ms)")
    case None
    then have "UnFinish \<notin> set ms"
      using assms by (auto simp: firstUnFinish_None mapJobsWith_def in_set_conv_nth)
    then show thesis using False None terminal wait by (cases "allFinished rs") (simp_all add: GetJob_def)
  next
    case (Some p)
    then obtain j job where p: "firstUnFinish 0 (mapJobsWith F ms) = Some (j, job)" by (cases p) auto
    then have j: "j < length F" "job = mapJobsWith F ms ! j" "ms ! j = UnFinish" using firstUnFinish_Some[OF p] by auto
    then show thesis using False p assms setState_map[of ms F j Doing n rs] by (intro map) (simp_all add: GetJob_def Let_def)
  qed
next
  case True
  show thesis
  proof (cases "firstUnFinish 0 (reduceJobsWith rs)")
    case None
    then have "UnFinish \<notin> set rs" by (auto simp: firstUnFinish_None reduceJobsWith_def in_set_conv_nth)
    then show thesis using True None terminal wait by (cases "allFinished rs") (simp_all add: GetJob_def)
  next
    case (Some p)
    then obtain i job where p: "firstUnFinish 0 (reduceJobsWith rs) = Some (i, job)" by (cases p) auto
    then have i: "i < length rs" "job = reduceJobsWith rs ! i" "rs ! i = UnFinish" using firstUnFinish_Some[OF p] by auto
    then show thesis using True p setState_reduce[of i rs Doing F n ms] by (intro reduce) (simp_all add: GetJob_def Let_def)
  qed
qed

text \<open>A job that is under way goes back; any other is left as it is.\<close>

definition reset :: "MRJobState list \<Rightarrow> nat \<Rightarrow> MRJobState list" where
  "reset ss i = (if ss ! i = Doing then ss[i := UnFinish] else ss)"

definition finish :: "MRJobState list \<Rightarrow> nat \<Rightarrow> MRJobState list" where
  "finish ss i = (if ss ! i = Doing then ss[i := Finished] else ss)"

lemma timer_map:
  "length ms = length F \<Longrightarrow> j < length F \<Longrightarrow> timerFires (mkC F n ms rs) (MapJob, int j) = Some (mkC F n (reset ms j) rs)"
  using setState_map[of ms F j UnFinish n rs] by (simp add: timerFires_def stateAt_map reset_def)

lemma timer_reduce:
  "i < length rs \<Longrightarrow> timerFires (mkC F n ms rs) (ReduceJob, int i) = Some (mkC F n ms (reset rs i))"
  using setState_reduce[of i rs UnFinish F n ms] by (simp add: timerFires_def stateAt_reduce[unfolded One_nat_def] reset_def)

lemma report_map:
  assumes "length ms = length F" "j < length F"
  shows "ReportJobResult (mkC F n ms rs) \<lparr> fJobType = MapJob, fSuccess = success, fJobId = int j \<rparr> =
    Some (mkC F n (if success then finish ms j else reset ms j) rs)"
proof (cases "success \<and> ms ! j = Doing")
  case True
  then have nf: "\<not> allFinished ms" using assms not_allFinished[of j ms] by simp
  let ?c = "(mkC F n ms rs)\<lparr>cArrays := [mapJobsWith F (ms[j := Finished]), reduceJobsWith rs]\<rparr>"
  have s: "setState (mkC F n ms rs) (Some 0) (int j) Finished = Some ?c"
    using assms with_update(1)[OF assms, of Finished] by (simp add: setState_def set_idx_def) (simp add: mkC_def)
  have "jobsAt ?c (Some 0) = mapJobsWith F (ms[j := Finished])" by (simp add: jobsAt_def)
  then have "CheckAllState ?c \<lparr> fJobType = MapJob, fSuccess = True, fJobId = int j \<rparr> = mkC F n (ms[j := Finished]) rs"
    using assms nf with_finished(1)[of "ms[j := Finished]" F]
    by (auto simp: CheckAllState_def Let_def mkC_def allFinished_def)
  then show ?thesis using True s by (simp add: ReportJobResult_def stateAt_map assms finish_def)
next
  case False
  then show ?thesis using assms setState_map[of ms F j UnFinish n rs]
    by (auto simp: ReportJobResult_def stateAt_map reset_def finish_def)
qed

lemma report_reduce:
  assumes "i < length rs"
  shows "ReportJobResult (mkC F n ms rs) \<lparr> fJobType = ReduceJob, fSuccess = success, fJobId = int i \<rparr> =
    Some (mkC F n ms (if success then finish rs i else reset rs i))"
proof (cases "success \<and> rs ! i = Doing")
  case True
  then have nf: "\<not> allFinished rs" using assms not_allFinished[of i rs] by simp
  let ?c = "(mkC F n ms rs)\<lparr>cArrays := [mapJobsWith F ms, reduceJobsWith (rs[i := Finished])]\<rparr>"
  have s: "setState (mkC F n ms rs) (Some 1) (int i) Finished = Some ?c"
    using assms with_update(2)[OF assms, of Finished] by (simp add: setState_def set_idx_def) (simp add: mkC_def)
  have "jobsAt ?c (Some 1) = reduceJobsWith (rs[i := Finished])" by (simp add: jobsAt_def)
  then have "CheckAllState ?c \<lparr> fJobType = ReduceJob, fSuccess = True, fJobId = int i \<rparr> = mkC F n ms (rs[i := Finished])"
    using assms nf with_finished(2)[of "rs[i := Finished]"]
    by (auto simp: CheckAllState_def Let_def mkC_def allFinished_def)
  then show ?thesis using True s by (simp add: ReportJobResult_def stateAt_reduce[unfolded One_nat_def] assms finish_def)
next
  case False
  then show ?thesis using assms setState_reduce[of i rs UnFinish F n ms]
    by (auto simp: ReportJobResult_def stateAt_reduce[unfolded One_nat_def] reset_def finish_def)
qed

lemma report_other: "fJobType args = TerminalJob \<or> fJobType args = WaitJob \<Longrightarrow> ReportJobResult c args = Some c"
  by (auto simp: ReportJobResult_def)

lemma report_unknown: "ReportJobResult (mkC F n ms rs) (jobResult zeroReply success) = None"
  by (simp add: ReportJobResult_def jobResult_def zeroReply_def stateAt_def jobsAt_def idx_def)

lemma reset_length [simp]: "length (reset ss i) = length ss" "length (finish ss i) = length ss"
  by (simp_all add: reset_def finish_def)

section \<open>The system\<close>

record MrSys =
  mrCoord :: Coordinator
  mrTimers :: "(MRJobType \<times> int) list"
  mrDir :: files
  mrWorkers :: "nat \<Rightarrow> wctl"
  mrUp :: bool

definition mrInit :: "string list \<Rightarrow> int \<Rightarrow> files \<Rightarrow> MrSys" where
  "mrInit F n D = \<lparr> mrCoord = MakeCoordinator F n, mrTimers = [], mrDir = D, mrWorkers = (\<lambda>_. Asking), mrUp = True \<rparr>"

fun replyOf :: "wctl \<Rightarrow> ExampleReply option" where
  "replyOf (Got r) = Some r"
| "replyOf (Mapping r _) = Some r"
| "replyOf (Reading r _ _) = Some r"
| "replyOf (Writing r _) = Some r"
| "replyOf (Finishing r _) = Some r"
| "replyOf _ = None"

text \<open>A worker inside \<open>processJob\<close>.\<close>

fun inJob :: "wctl \<Rightarrow> bool" where
  "inJob (Finishing _ _) = False"
| "inJob w = (replyOf w \<noteq> None)"

text \<open>The file that a worker creates in its next step before it renames it.\<close>

fun finalName :: "wctl \<Rightarrow> string option" where
  "finalName (Mapping r ((i, ps) # gs)) = Some (interName (Itoa (rJobId r)) (Itoa i))"
| "finalName (Writing r ps) = Some (outName (Itoa (rJobId r)))"
| "finalName _ = None"

text \<open>What a worker that stops in the middle of a step may leave in the directory.\<close>

inductive leftover :: "int \<Rightarrow> wctl \<Rightarrow> files \<Rightarrow> files \<Rightarrow> bool" for n w D where
  clean: "leftover n w D D"
| temp: "finalName w = Some final \<Longrightarrow> goodRand n rand \<Longrightarrow> map_of D (final @ rand) = None \<Longrightarrow>
    leftover n w D (AList.update (final @ rand) junk D)"

definition permutes :: "((int \<times> KeyValue list) list \<Rightarrow> (int \<times> KeyValue list) list) \<Rightarrow> bool" where
  "permutes order \<longleftrightarrow> (\<forall>gs. mset (order gs) = mset gs)"

text \<open>\<open>got\<close> is what \<open>call\<close> leaves in the reply: what the handler has written, or nothing when the call fails after the handler has run.
  A worker cannot tell these apart, since it ignores the result of \<open>CallExample\<close>.\<close>

inductive mrstep :: "MrApp \<Rightarrow> int \<Rightarrow> MrSys \<Rightarrow> MrSys \<Rightarrow> bool" for app n where
  call: "mrUp s \<Longrightarrow> mrWorkers s w = Asking \<Longrightarrow> GetJob (mrCoord s) \<lparr> exX = 99 \<rparr> zeroReply = Some (c, reply, t) \<Longrightarrow>
    got \<in> {reply, zeroReply} \<Longrightarrow>
    mrstep app n s (s\<lparr>mrCoord := c, mrTimers := mrTimers s @ (case t of None \<Rightarrow> [] | Some x \<Rightarrow> [x]),
      mrWorkers := (mrWorkers s)(w := Got got)\<rparr>)"
| callFails: "mrWorkers s w = Asking \<Longrightarrow> mrstep app n s (s\<lparr>mrWorkers := (mrWorkers s)(w := Got zeroReply)\<rparr>)"
| work: "inJob (mrWorkers s w) \<Longrightarrow> permutes order \<Longrightarrow> goodRand n rand \<Longrightarrow>
    jobStep app order rand (mrDir s) (mrWorkers s w) = Some (D, w') \<Longrightarrow>
    mrstep app n s (s\<lparr>mrDir := D, mrWorkers := (mrWorkers s)(w := w')\<rparr>)"
| ioError: "inJob (mrWorkers s w) \<Longrightarrow> replyOf (mrWorkers s w) = Some reply \<Longrightarrow> rJobType reply \<in> {MapJob, ReduceJob} \<Longrightarrow>
    leftover n (mrWorkers s w) (mrDir s) D \<Longrightarrow>
    mrstep app n s (s\<lparr>mrDir := D, mrWorkers := (mrWorkers s)(w := Finishing reply False)\<rparr>)"
| crash: "leftover n (mrWorkers s w) (mrDir s) D \<Longrightarrow>
    mrstep app n s (s\<lparr>mrDir := D, mrWorkers := (mrWorkers s)(w := Exited)\<rparr>)"
| report: "mrUp s \<Longrightarrow> mrWorkers s w = Finishing reply success \<Longrightarrow>
    ReportJobResult (mrCoord s) (jobResult reply success) = Some c \<Longrightarrow>
    mrstep app n s (s\<lparr>mrCoord := c, mrWorkers := (mrWorkers s)(w := afterReport reply)\<rparr>)"
| reportFails: "mrWorkers s w = Finishing reply success \<Longrightarrow>
    mrstep app n s (s\<lparr>mrWorkers := (mrWorkers s)(w := afterReport reply)\<rparr>)"
| reportPanics: "mrUp s \<Longrightarrow> mrWorkers s w = Finishing reply success \<Longrightarrow>
    ReportJobResult (mrCoord s) (jobResult reply success) = None \<Longrightarrow>
    mrstep app n s (s\<lparr>mrWorkers := (mrWorkers s)(w := afterReport reply), mrUp := False\<rparr>)"
| timer: "mrUp s \<Longrightarrow> mrTimers s = ts @ t # us \<Longrightarrow> timerFires (mrCoord s) t = Some c \<Longrightarrow>
    mrstep app n s (s\<lparr>mrCoord := c, mrTimers := ts @ us\<rparr>)"

inductive mrreach :: "MrApp \<Rightarrow> string list \<Rightarrow> int \<Rightarrow> files \<Rightarrow> MrSys \<Rightarrow> bool" for app F n D where
  start: "mrreach app F n D (mrInit F n D)"
| more: "mrreach app F n D s \<Longrightarrow> mrstep app n s s' \<Longrightarrow> mrreach app F n D s'"

section \<open>The invariant of the coordinator\<close>

definition jobTimer :: "string list \<Rightarrow> int \<Rightarrow> MRJobType \<times> int \<Rightarrow> bool" where
  "jobTimer F n t \<longleftrightarrow> (\<exists>j < length F. t = (MapJob, int j)) \<or> (\<exists>i < nat n. t = (ReduceJob, int i))"

definition goodReply :: "string list \<Rightarrow> int \<Rightarrow> MRJobState list \<Rightarrow> MRJobState list \<Rightarrow> ExampleReply \<Rightarrow> bool" where
  "goodReply F n ms rs r \<longleftrightarrow>
     rJobType r = MapJob \<and> (\<exists>j < length F. rJobId r = int j \<and> rMapJobFileName r = F ! j \<and> rNReduce r = n) \<or>
     rJobType r = ReduceJob \<and> allFinished ms \<and> (\<exists>i < nat n. rJobId r = int i) \<or>
     rJobType r = TerminalJob \<and> allFinished rs \<or> rJobType r = WaitJob \<or> r = zeroReply"

text \<open>Every job under way has a timer.\<close>

definition timed :: "MRJobType \<Rightarrow> (MRJobType \<times> int) set \<Rightarrow> MRJobState list \<Rightarrow> bool" where
  "timed jt T ss \<longleftrightarrow> (\<forall>i < length ss. ss ! i = UnFinish \<or> ss ! i = Finished \<or> ss ! i = Doing \<and> (jt, int i) \<in> T)"

definition coordInv :: "string list \<Rightarrow> int \<Rightarrow> MrSys \<Rightarrow> MRJobState list \<Rightarrow> MRJobState list \<Rightarrow> bool" where
  "coordInv F n s ms rs \<longleftrightarrow> mrCoord s = mkC F n ms rs \<and> length ms = length F \<and> length rs = nat n \<and>
     (\<not> allFinished ms \<longrightarrow> (\<forall>x \<in> set rs. x = UnFinish)) \<and>
     (\<forall>t \<in> set (mrTimers s). jobTimer F n t) \<and>
     timed MapJob (set (mrTimers s)) ms \<and> timed ReduceJob (set (mrTimers s)) rs \<and>
     (\<forall>w r. replyOf (mrWorkers s w) = Some r \<longrightarrow> goodReply F n ms rs r)"

lemma goodReply_mono:
  "goodReply F n ms rs r \<Longrightarrow> (allFinished ms \<Longrightarrow> allFinished ms') \<Longrightarrow> (allFinished rs \<Longrightarrow> allFinished rs') \<Longrightarrow> goodReply F n ms' rs' r"
  by (auto simp: goodReply_def)

text \<open>How a step may change the job states: a finished job stays so, and a job becomes finished when a worker reports it.\<close>

definition reported :: "MrSys \<Rightarrow> MRJobType \<Rightarrow> nat \<Rightarrow> bool" where
  "reported s jt i \<longleftrightarrow> (\<exists>w r. mrWorkers s w = Finishing r True \<and> rJobType r = jt \<and> rJobId r = int i)"

definition advances :: "MrSys \<Rightarrow> MRJobType \<Rightarrow> MRJobState list \<Rightarrow> MRJobState list \<Rightarrow> bool" where
  "advances s jt ss ss' \<longleftrightarrow> length ss' = length ss \<and>
     (\<forall>i < length ss. (ss ! i = Finished \<longrightarrow> ss' ! i = Finished) \<and> (ss' ! i = Finished \<longrightarrow> ss ! i = Finished \<or> reported s jt i))"

lemma advances_refl [simp]: "advances s jt ss ss"
  by (simp add: advances_def)

lemma advances_update: "i < length ss \<Longrightarrow> ss ! i \<noteq> Finished \<Longrightarrow> v \<noteq> Finished \<Longrightarrow> advances s jt ss (ss[i := v])"
  by (auto simp: advances_def nth_list_update)

lemma advances_reset: "advances s jt ss (reset ss i)"
  by (cases "i < length ss") (auto simp: advances_def reset_def nth_list_update list_update_beyond)

lemma advances_finish: "reported s jt i \<Longrightarrow> advances s jt ss (finish ss i)"
  by (cases "i < length ss") (auto simp: advances_def finish_def nth_list_update list_update_beyond)

lemma advances_all: "advances s jt ss ss' \<Longrightarrow> allFinished ss \<Longrightarrow> allFinished ss'"
  by (fastforce simp: advances_def allFinished_def in_set_conv_nth)

lemma timed_mono: "timed jt T ss \<Longrightarrow> T \<subseteq> T' \<Longrightarrow> timed jt T' ss"
  by (auto simp: timed_def)

lemma timed_other: "timed jt T ss \<Longrightarrow> T \<subseteq> insert (jt', i) T' \<Longrightarrow> jt' \<noteq> jt \<Longrightarrow> timed jt T' ss"
  by (auto simp: timed_def)

lemma timed_doing: "timed jt T ss \<Longrightarrow> timed jt (insert (jt, int i) T) (ss[i := Doing])"
  by (cases "i < length ss") (auto simp: timed_def nth_list_update list_update_beyond)

lemma timed_reset: "timed jt T ss \<Longrightarrow> T \<subseteq> insert (jt, int i) T' \<Longrightarrow> timed jt T' (reset ss i)"
  by (cases "i < length ss") (fastforce simp: timed_def reset_def nth_list_update list_update_beyond)+

lemma timed_finish: "timed jt T ss \<Longrightarrow> timed jt T (finish ss i)"
  by (cases "i < length ss") (auto simp: timed_def finish_def nth_list_update list_update_beyond)

lemma jobStep_reply: "jobStep app order rand D w = Some (D', w') \<Longrightarrow> replyOf w' = replyOf w"
  by (induction app order rand D w rule: jobStep.induct)
    (auto simp: startJob_def Let_def split: if_splits option.splits bind_splits)

text \<open>Steps of the workers leave the coordinator alone.\<close>

lemma coordInv_worker:
  "coordInv F n s ms rs \<Longrightarrow> replyOf w' = None \<or> replyOf w' = replyOf (mrWorkers s w) \<Longrightarrow>
   coordInv F n (s\<lparr>mrDir := D, mrWorkers := (mrWorkers s)(w := w')\<rparr>) ms rs"
  unfolding coordInv_def by (auto split: if_splits)

lemma coordInv_up: "coordInv F n (s\<lparr>mrUp := b\<rparr>) ms rs = coordInv F n s ms rs"
  by (simp add: coordInv_def)

lemma coordInv_failed: "coordInv F n s ms rs \<Longrightarrow> coordInv F n (s\<lparr>mrWorkers := (mrWorkers s)(w := Got zeroReply)\<rparr>) ms rs"
  unfolding coordInv_def by (auto simp: goodReply_def split: if_splits)

lemma coordInv_reported: "coordInv F n s ms rs \<Longrightarrow> coordInv F n (s\<lparr>mrWorkers := (mrWorkers s)(w := afterReport reply)\<rparr>) ms rs"
  unfolding coordInv_def by (auto simp: afterReport_def split: if_splits)

lemma coordInv_timer:
  assumes inv: "coordInv F n s ms rs" and t: "mrTimers s = ts @ t # us" "timerFires (mrCoord s) t = Some c"
  shows "\<exists>ms' rs'. coordInv F n (s\<lparr>mrCoord := c, mrTimers := ts @ us\<rparr>) ms' rs' \<and> advances s MapJob ms ms' \<and> advances s ReduceJob rs rs'"
proof -
  note d = inv[unfolded coordInv_def]
  have "jobTimer F n t" using d t(1) by auto
  then consider (m) j where "j < length F" "t = (MapJob, int j)" | (r) i where "i < nat n" "t = (ReduceJob, int i)"
    by (auto simp: jobTimer_def)
  then show ?thesis
  proof cases
    case m
    have c: "c = mkC F n (reset ms j) rs" using timer_map[of ms F j n rs] d t(2) m by simp
    have a: "advances s MapJob ms (reset ms j)" by (rule advances_reset)
    have "coordInv F n (s\<lparr>mrCoord := c, mrTimers := ts @ us\<rparr>) (reset ms j) rs"
      unfolding coordInv_def using d t(1) m(2) c advances_all[OF a] timed_reset[of MapJob "set (mrTimers s)" ms j "set (ts @ us)"] timed_other[of ReduceJob "set (mrTimers s)" rs MapJob "int j" "set (ts @ us)"]
        goodReply_mono[of F n ms rs _ "reset ms j" rs] by auto
    then show ?thesis using a advances_refl by blast
  next
    case r
    have c: "c = mkC F n ms (reset rs i)" using timer_reduce[of i rs F n ms] d t(2) r by simp
    have a: "advances s ReduceJob rs (reset rs i)" by (rule advances_reset)
    have "\<not> allFinished ms \<longrightarrow> (\<forall>x \<in> set (reset rs i). x = UnFinish)" using d by (auto simp: reset_def dest!: set_update_subset_insert[THEN subsetD])
    then have "coordInv F n (s\<lparr>mrCoord := c, mrTimers := ts @ us\<rparr>) ms (reset rs i)"
      unfolding coordInv_def using d t(1) r(2) c advances_all[OF a] timed_reset[of ReduceJob "set (mrTimers s)" rs i "set (ts @ us)"] timed_other[of MapJob "set (mrTimers s)" ms ReduceJob "int i" "set (ts @ us)"]
        goodReply_mono[of F n ms rs _ ms "reset rs i"] by auto
    then show ?thesis using a advances_refl by blast
  qed
qed

lemma coordInv_call:
  assumes inv: "coordInv F n s ms rs" and c: "GetJob (mrCoord s) \<lparr> exX = 99 \<rparr> zeroReply = Some (c, reply, t)"
  shows "\<exists>ms' rs'. coordInv F n (s\<lparr>mrCoord := c, mrTimers := mrTimers s @ (case t of None \<Rightarrow> [] | Some x \<Rightarrow> [x]),
      mrWorkers := (mrWorkers s)(w := Got reply)\<rparr>) ms' rs' \<and> advances s MapJob ms ms' \<and> advances s ReduceJob rs rs'"
    (is "\<exists>ms' rs'. coordInv F n ?s ms' rs' \<and> _")
proof -
  note d = inv[unfolded coordInv_def]
  have old: "\<forall>w r. replyOf (mrWorkers s w) = Some r \<longrightarrow> goodReply F n ms rs r" using d by simp
  have len: "length ms = length F" using d by simp
  show ?thesis
  proof (cases rule: GetJob_cases[OF len, of n rs "\<lparr> exX = 99 \<rparr>" zeroReply])
    case (1 j)
    have a: "advances s MapJob ms (ms[j := Doing])" using 1 len by (intro advances_update) auto
    have "\<forall>x \<in> set rs. x = UnFinish" using d 1(1) by blast
    then have "coordInv F n ?s (ms[j := Doing]) rs"
      unfolding coordInv_def using d c 1 timed_doing[of MapJob _ ms j] timed_mono[of ReduceJob "set (mrTimers s)" rs]
        goodReply_mono[of F n ms rs _ "ms[j := Doing]" rs] old by (auto simp: jobTimer_def goodReply_def)
    then show ?thesis using a advances_refl by blast
  next
    case (2 i)
    have a: "advances s ReduceJob rs (rs[i := Doing])" using 2 by (intro advances_update) auto
    have "coordInv F n ?s ms (rs[i := Doing])"
      unfolding coordInv_def using d c 2 timed_doing[of ReduceJob _ rs i] timed_mono[of MapJob "set (mrTimers s)" ms]
        advances_all[OF a] goodReply_mono[of F n ms rs _ ms "rs[i := Doing]"] old by (auto simp: jobTimer_def goodReply_def)
    then show ?thesis using a advances_refl by blast
  next
    case 3
    then have "coordInv F n ?s ms rs" unfolding coordInv_def using d c by (auto simp: goodReply_def)
    then show ?thesis using advances_refl by blast
  next
    case 4
    then have "coordInv F n ?s ms rs" unfolding coordInv_def using d c by (auto simp: goodReply_def)
    then show ?thesis using advances_refl by blast
  qed
qed

lemma coordInv_report:
  assumes inv: "coordInv F n s ms rs" and w: "mrWorkers s w = Finishing reply success"
    and c: "ReportJobResult (mrCoord s) (jobResult reply success) = Some c"
  shows "\<exists>ms' rs'. coordInv F n (s\<lparr>mrCoord := c, mrWorkers := (mrWorkers s)(w := afterReport reply)\<rparr>) ms' rs' \<and>
      advances s MapJob ms ms' \<and> advances s ReduceJob rs rs'"
    (is "\<exists>ms' rs'. coordInv F n ?s ms' rs' \<and> _")
proof -
  note d = inv[unfolded coordInv_def]
  have g: "goodReply F n ms rs reply" using d w by (metis replyOf.simps(5))
  have no: "replyOf (afterReport reply) = None" by (simp add: afterReport_def)
  consider (m) j where "rJobType reply = MapJob" "j < length F" "rJobId reply = int j"
    | (r) i where "rJobType reply = ReduceJob" "i < length rs" "rJobId reply = int i" "allFinished ms"
    | (o) "rJobType reply = TerminalJob \<or> rJobType reply = WaitJob" | (u) "reply = zeroReply"
    using g d by (auto simp: goodReply_def)
  then show ?thesis
  proof cases
    case m
    define ms' where "ms' = (if success then finish ms j else reset ms j)"
    have rep: "success \<Longrightarrow> reported s MapJob j" using w m by (auto simp: reported_def)
    have a: "advances s MapJob ms ms'" using rep advances_finish advances_reset by (simp add: ms'_def)
    have ti: "timed MapJob (set (mrTimers s)) ms'"
      using d timed_finish[of MapJob] timed_reset[of MapJob "set (mrTimers s)" ms j "set (mrTimers s)"] by (auto simp: ms'_def)
    have c': "c = mkC F n ms' rs" "length ms' = length F"
      using c report_map[of ms F j n rs success] d m by (simp_all add: jobResult_def ms'_def)
    have "coordInv F n ?s ms' rs"
      unfolding coordInv_def using d c' no ti advances_all[OF a] goodReply_mono[of F n ms rs _ ms' rs] by auto
    then show ?thesis using a advances_refl by blast
  next
    case r
    define rs' where "rs' = (if success then finish rs i else reset rs i)"
    have rep: "success \<Longrightarrow> reported s ReduceJob i" using w r by (auto simp: reported_def)
    have a: "advances s ReduceJob rs rs'" using rep advances_finish advances_reset by (simp add: rs'_def)
    have ti: "timed ReduceJob (set (mrTimers s)) rs'"
      using d timed_finish[of ReduceJob] timed_reset[of ReduceJob "set (mrTimers s)" rs i "set (mrTimers s)"] by (auto simp: rs'_def)
    have c': "c = mkC F n ms rs'" "length rs' = length rs"
      using c report_reduce[of i rs F n ms success] d r by (simp_all add: jobResult_def rs'_def)
    have "coordInv F n ?s ms rs'"
      unfolding coordInv_def using d c' no ti r(4) advances_all[OF a] goodReply_mono[of F n ms rs _ ms rs'] by auto
    then show ?thesis using a advances_refl by blast
  next
    case o
    have "c = mrCoord s" using c report_other[of "jobResult reply success" "mrCoord s"] o by (auto simp: jobResult_def)
    then have "coordInv F n ?s ms rs" unfolding coordInv_def using d no by auto
    then show ?thesis using advances_refl by blast
  next
    case u
    then show ?thesis using c d report_unknown by simp
  qed
qed

lemma coordInv_step:
  assumes "mrstep app n s s'" "coordInv F n s ms rs"
  shows "\<exists>ms' rs'. coordInv F n s' ms' rs' \<and> advances s MapJob ms ms' \<and> advances s ReduceJob rs rs'"
  using assms(1)
proof cases
  case (call w c reply t got)
  obtain ms' rs' where i: "coordInv F n (s\<lparr>mrCoord := c, mrTimers := mrTimers s @ (case t of None \<Rightarrow> [] | Some x \<Rightarrow> [x]),
      mrWorkers := (mrWorkers s)(w := Got reply)\<rparr>) ms' rs'" "advances s MapJob ms ms'" "advances s ReduceJob rs rs'"
    using coordInv_call[OF assms(2) call(4)] by blast
  from coordInv_failed[OF i(1), of w] have "coordInv F n s' ms' rs'" using i(1) call(1,5) by auto
  then show ?thesis using i(2,3) by blast
next
  case (callFails w)
  then show ?thesis using coordInv_failed[OF assms(2)] advances_refl by blast
next
  case (work w order rand D w')
  then show ?thesis using coordInv_worker[OF assms(2), of w' w D] jobStep_reply[OF work(5)] advances_refl by blast
next
  case (ioError w reply D)
  then have "coordInv F n s' ms rs" using coordInv_worker[OF assms(2), of "Finishing reply False" w D] by simp
  then show ?thesis using advances_refl by blast
next
  case (crash w D)
  then have "coordInv F n s' ms rs" using coordInv_worker[OF assms(2), of Exited w D] by simp
  then show ?thesis using advances_refl by blast
next
  case (report w reply success c)
  then show ?thesis using coordInv_report[OF assms(2)] by simp
next
  case (reportFails w reply success)
  then show ?thesis using coordInv_reported[OF assms(2)] advances_refl by blast
next
  case (reportPanics w reply success)
  then have "coordInv F n s' ms rs" using coordInv_reported[OF assms(2)] by (simp add: coordInv_up)
  then show ?thesis using advances_refl by blast
next
  case (timer ts t us c)
  then show ?thesis using coordInv_timer[OF assms(2)] by simp
qed

lemma coordInv_init: "coordInv F n (mrInit F n D) (replicate (length F) UnFinish) (replicate (nat n) UnFinish)"
  by (simp add: coordInv_def mrInit_def MakeCoordinator_mkC timed_def)

lemma mrreach_coordInv: "mrreach app F n D s \<Longrightarrow> \<exists>ms rs. coordInv F n s ms rs"
  by (induction rule: mrreach.induct) (blast intro: coordInv_init, blast dest: coordInv_step)

end
