(* ===== verification/Mr_Output.thy ===== *)
theory Mr_Output
  imports Mr_Sys
begin

text \<open>
  What is in the directory during a MapReduce run.  Intermediate files have the pairs of their map job and reduce number; output
  files are made from all pairs of their reduce number; a job that counts as finished has written its files.  The invariant holds
  however often a job is executed and wherever workers stop.
\<close>

section \<open>A run and its data\<close>

text \<open>The application, the input files, the number of reduce jobs, and the directory at the start.\<close>

record MrRun =
  runApp :: MrApp
  runFiles :: "string list"
  runN :: int
  runDir :: files

definition pairsOf :: "MrRun \<Rightarrow> nat \<Rightarrow> KeyValue list" where
  "pairsOf R j = (case map_of (runDir R) (runFiles R ! j) of None \<Rightarrow> [] | Some c \<Rightarrow> mapf (runApp R) (runFiles R ! j) c)"

definition bk :: "MrRun \<Rightarrow> nat \<Rightarrow> int \<Rightarrow> KeyValue list" where
  "bk R j i = bucket (runN R) (pairsOf R j) i"

definition allOf :: "MrRun \<Rightarrow> int \<Rightarrow> KeyValue list" where
  "allOf R i = concat (map (\<lambda>j. bk R j i) [0..<length (runFiles R)])"

text \<open>What a run relies on: at least one reduce job; no file that begins with \<open>mr-\<close> at the start or among the inputs; the decoder
  reads what the encoder writes; the sort sorts.\<close>

definition runOK :: "MrRun \<Rightarrow> bool" where
  "runOK R \<longleftrightarrow> 0 < runN R \<and> (\<forall>f \<in> set (runFiles R). \<not> prefix ''mr-'' f) \<and>
     (\<forall>f \<in> set (map fst (runDir R)). \<not> prefix ''mr-'' f) \<and>
     (\<forall>kvs. dec (runApp R) (concat (map (enc (runApp R)) kvs)) = kvs) \<and>
     sortsPairs (sorter (runApp R))"

definition inRange :: "MrRun \<Rightarrow> int \<Rightarrow> bool" where
  "inRange R i \<longleftrightarrow> 0 \<le> i \<and> i < runN R"

abbreviation outFile :: "int \<Rightarrow> string" where
  "outFile i \<equiv> outName (Itoa i)"

definition goodOut :: "MrRun \<Rightarrow> int \<Rightarrow> string \<Rightarrow> bool" where
  "goodOut R i c \<longleftrightarrow> (\<exists>ps. keySorted ps \<and> mset ps = mset (allOf R i) \<and> c = outText (reduceLoop (reducef (runApp R)) ps 0))"

text \<open>The pattern that a reduce job looks for also matches its own output file.  So the run also relies on its data: from no output
  file that it can write does the decoder read a pair.\<close>

definition quietOutputs :: "MrRun \<Rightarrow> bool" where
  "quietOutputs R \<longleftrightarrow> (\<forall>i c. inRange R i \<longrightarrow> goodOut R i c \<longrightarrow> dec (runApp R) c = [])"

definition isFile :: "MrRun \<Rightarrow> int \<Rightarrow> string \<Rightarrow> bool" where
  "isFile R i name \<longleftrightarrow> (\<exists>j < length (runFiles R). name = inter j i) \<or> name = outFile i"

definition dirInv :: "MrRun \<Rightarrow> files \<Rightarrow> bool" where
  "dirInv R X \<longleftrightarrow>
     (\<forall>name. \<not> prefix ''mr-'' name \<longrightarrow> map_of X name = map_of (runDir R) name) \<and>
     (\<forall>j < length (runFiles R). \<forall>i c. inRange R i \<longrightarrow> map_of X (inter j i) = Some c \<longrightarrow> c = concat (map (enc (runApp R)) (bk R j i))) \<and>
     (\<forall>i c. inRange R i \<longrightarrow> map_of X (outFile i) = Some c \<longrightarrow> goodOut R i c) \<and>
     (\<forall>i name. inRange R i \<longrightarrow> map_of X name \<noteq> None \<longrightarrow> matches i name \<longrightarrow> isFile R i name)"

definition mapDone :: "MrRun \<Rightarrow> files \<Rightarrow> nat \<Rightarrow> bool" where
  "mapDone R X j \<longleftrightarrow> (\<forall>i. inRange R i \<longrightarrow> bk R j i \<noteq> [] \<longrightarrow> map_of X (inter j i) \<noteq> None)"

definition reduceDone :: "MrRun \<Rightarrow> files \<Rightarrow> int \<Rightarrow> bool" where
  "reduceDone R X i \<longleftrightarrow> (allOf R i \<noteq> [] \<longrightarrow> map_of X (outFile i) \<noteq> None)"

text \<open>The pairs in a file of a reduce job.\<close>

definition fileVal :: "MrRun \<Rightarrow> int \<Rightarrow> string \<Rightarrow> KeyValue list" where
  "fileVal R i name = (case List.find (\<lambda>j. name = inter j i) [0..<length (runFiles R)] of None \<Rightarrow> [] | Some j \<Rightarrow> bk R j i)"

fun workerInv :: "MrRun \<Rightarrow> files \<Rightarrow> wctl \<Rightarrow> bool" where
  "workerInv R X (Mapping r gs) \<longleftrightarrow> rJobType r = MapJob \<and> (\<exists>j < length (runFiles R). rJobId r = int j \<and>
     (\<forall>g \<in> set gs. inRange R (fst g) \<and> snd g = bk R j (fst g)) \<and>
     (\<forall>i. inRange R i \<longrightarrow> bk R j i \<noteq> [] \<longrightarrow> i \<notin> fst ` set gs \<longrightarrow> map_of X (inter j i) \<noteq> None))"
| "workerInv R X (Reading r names ps) \<longleftrightarrow> rJobType r = ReduceJob \<and> inRange R (rJobId r) \<and> (\<exists>read.
     distinct (read @ names) \<and> (\<forall>name \<in> set (read @ names). isFile R (rJobId r) name) \<and>
     (\<forall>j < length (runFiles R). bk R j (rJobId r) \<noteq> [] \<longrightarrow> inter j (rJobId r) \<in> set (read @ names)) \<and>
     ps = concat (map (fileVal R (rJobId r)) read))"
| "workerInv R X (Writing r ps) \<longleftrightarrow> rJobType r = ReduceJob \<and> inRange R (rJobId r) \<and> mset ps = mset (allOf R (rJobId r))"
| "workerInv R X (Finishing r True) \<longleftrightarrow>
     (rJobType r = MapJob \<longrightarrow> (\<exists>j < length (runFiles R). rJobId r = int j \<and> mapDone R X j)) \<and>
     (rJobType r = ReduceJob \<longrightarrow> reduceDone R X (rJobId r))"
| "workerInv R X _ \<longleftrightarrow> True"

definition mrInv :: "MrRun \<Rightarrow> MrSys \<Rightarrow> MRJobState list \<Rightarrow> MRJobState list \<Rightarrow> bool" where
  "mrInv R s ms rs \<longleftrightarrow> coordInv (runFiles R) (runN R) s ms rs \<and> dirInv R (mrDir s) \<and>
     (\<forall>w. workerInv R (mrDir s) (mrWorkers s w)) \<and>
     (\<forall>j < length ms. ms ! j = Finished \<longrightarrow> mapDone R (mrDir s) j) \<and>
     (\<forall>i < length rs. rs ! i = Finished \<longrightarrow> reduceDone R (mrDir s) (int i))"

section \<open>Growing directories\<close>

definition grows :: "files \<Rightarrow> files \<Rightarrow> bool" where
  "grows X X' \<longleftrightarrow> (\<forall>name. map_of X name \<noteq> None \<longrightarrow> map_of X' name \<noteq> None)"

lemma grows_refl [simp]: "grows X X"
  by (simp add: grows_def)

lemma grows_put: "map_of X' = (map_of X)(name \<mapsto> c) \<Longrightarrow> grows X X'"
  by (simp add: grows_def)

lemma done_mono: "grows X X' \<Longrightarrow> mapDone R X j \<Longrightarrow> mapDone R X' j" "grows X X' \<Longrightarrow> reduceDone R X i \<Longrightarrow> reduceDone R X' i"
  by (simp_all add: grows_def mapDone_def reduceDone_def)

lemma workerInv_mono: "grows X X' \<Longrightarrow> workerInv R X w \<Longrightarrow> workerInv R X' w"
proof (cases w)
  case (Mapping r gs)
  then show "grows X X' \<Longrightarrow> workerInv R X w \<Longrightarrow> workerInv R X' w" unfolding grows_def by fastforce
next
  case (Finishing r b)
  then show "grows X X' \<Longrightarrow> workerInv R X w \<Longrightarrow> workerInv R X' w" using done_mono[of X X' R] by (cases b) auto
qed simp_all

section \<open>Writing files\<close>

lemma mr_prefix [simp]: "prefix ''mr-'' (interName m r @ x)" "prefix ''mr-'' (interName m r)" "prefix ''mr-'' (outName r)"
  by (simp_all add: interName_def outName_def)

lemma dirInv_inter:
  assumes "dirInv R X" "map_of X' = (map_of X)(inter j i \<mapsto> concat (map (enc (runApp R)) (bk R j i)))" "j < length (runFiles R)" "inRange R i"
  shows "dirInv R X'"
proof -
  have eq: "inter j' i' = inter j i \<longleftrightarrow> j' = j \<and> i' = i" if "inRange R i'" for j' i'
    using inter_inj[of j' i' j i] that assms(4) by (auto simp: inRange_def)
  have "outFile i' \<noteq> inter j i" if "inRange R i'" for i' using inter_out[of i i' j] that assms(4) by (simp add: inRange_def)
  moreover have "matches i' (inter j i) \<Longrightarrow> isFile R i' (inter j i)" if "inRange R i'" for i'
    using matches_inter[of i i' j] that assms(3,4) by (auto simp: inRange_def isFile_def)
  ultimately show ?thesis using assms(1) unfolding dirInv_def assms(2) by (auto simp: eq)
qed

lemma dirInv_out:
  assumes "dirInv R X" "map_of X' = (map_of X)(outFile i \<mapsto> c)" "goodOut R i c" "inRange R i"
  shows "dirInv R X'"
proof -
  have eq: "outFile i' = outFile i \<longleftrightarrow> i' = i" if "inRange R i'" for i'
    using out_inj[of i' i] that assms(4) by (auto simp: inRange_def)
  have "inter j i' \<noteq> outFile i" if "inRange R i'" for i' j using inter_out[of i' i j] that assms(4) by (simp add: inRange_def)
  moreover have "matches i' (outFile i) \<Longrightarrow> isFile R i' (outFile i)" if "inRange R i'" for i'
    using matches_out[of i i'] that assms(4) by (auto simp: inRange_def isFile_def)
  ultimately show ?thesis using assms(1,3) unfolding dirInv_def assms(2) by (auto simp: eq)
qed

lemma dirInv_temp:
  assumes "dirInv R X" "goodRand (runN R) rand" "CHR ''-'' \<notin> set r" "CHR ''/'' \<notin> set m" "r \<noteq> []"
  shows "dirInv R (AList.update (interName m r @ rand) junk X)"
proof -
  have no: "\<not> matches i (interName m r @ rand)" if "inRange R i" for i
    using temp_matches[OF assms(2) _ _ assms(3-5)] that by (simp add: inRange_def)
  have "inter j i \<noteq> interName m r @ rand" "outFile i \<noteq> interName m r @ rand" if "inRange R i" for j i
    using no[OF that] matches_inter[of i i j] matches_out[of i i] that by (auto simp: inRange_def)
  then show ?thesis using assms(1) no unfolding dirInv_def by auto
qed

text \<open>The invariant of a worker when its reply is good.\<close>

lemma leftover_dirInv:
  assumes "leftover (runN R) w X X'" "dirInv R X" "workerInv R X w"
  shows "dirInv R X' \<and> grows X X'"
  using assms(1)
proof cases
  case (temp final rand junk)
  have "\<exists>m r. final = interName m r \<and> CHR ''-'' \<notin> set r \<and> CHR ''/'' \<notin> set m \<and> r \<noteq> []"
  proof (cases w rule: finalName.cases)
    case (1 r i ps gs)
    then have "final = interName (Itoa (rJobId r)) (Itoa i)" "0 \<le> rJobId r" "0 \<le> i" using temp(2) assms(3) by (auto simp: inRange_def)
    then show ?thesis using Itoa_chars Itoa_nonempty by metis
  next
    case (2 r ps)
    then have "final = interName ''out'' (Itoa (rJobId r))" "0 \<le> rJobId r"
      using temp(2) assms(3) by (auto simp: inRange_def outName_inter)
    moreover have "CHR ''/'' \<notin> set ''out''" by simp
    ultimately show ?thesis using Itoa_chars(1) Itoa_nonempty by metis
  qed (use temp(2) in auto)
  then show ?thesis using dirInv_temp[OF assms(2) temp(3)] temp(1) grows_put[of X' X] by auto
qed (use assms(2) in simp)

section \<open>Reading files\<close>

lemma fileVal_inter: "inRange R i \<Longrightarrow> j < length (runFiles R) \<Longrightarrow> fileVal R i (inter j i) = bk R j i"
proof -
  assume i: "inRange R i" and j: "j < length (runFiles R)"
  have e: "inter j i = inter j' i \<longleftrightarrow> j' = j" for j' using inter_inj(1)[of j i j' i] i by (auto simp: inRange_def)
  have "List.find (\<lambda>j'. j' = j) [0..<length (runFiles R)] = Some j"
    unfolding find_Some_iff using j by (intro exI[of _ j]) auto
  then show ?thesis by (simp add: fileVal_def e)
qed

lemma fileVal_out: "inRange R i \<Longrightarrow> fileVal R i (outFile i) = []"
proof -
  assume "inRange R i"
  then have "outFile i \<noteq> inter j i" for j using inter_out[of i i j] by (simp add: inRange_def)
  then have "List.find (\<lambda>j. outFile i = inter j i) [0..<length (runFiles R)] = None" by (simp add: find_None_iff)
  then show ?thesis by (simp add: fileVal_def)
qed

lemma read_file:
  assumes "runOK R" "dirInv R X" "inRange R i" "isFile R i name" "map_of X name = Some c" "quietOutputs R"
  shows "dec (runApp R) c = fileVal R i name"
proof -
  consider (inter) j where "j < length (runFiles R)" "name = inter j i" | (out) "name = outFile i"
    using assms(4) by (auto simp: isFile_def)
  then show ?thesis
  proof cases
    case inter
    then have "c = concat (map (enc (runApp R)) (bk R j i))" using assms(2,3,5) by (simp add: dirInv_def)
    then show ?thesis using assms(1,3) inter fileVal_inter by (simp add: runOK_def)
  next
    case out
    then have "goodOut R i c" using assms(2,3,5) by (simp add: dirInv_def)
    then have "dec (runApp R) c = []" using assms(3,6) by (simp add: quietOutputs_def)
    then show ?thesis using out fileVal_out[OF assms(3)] by simp
  qed
qed

lemma mset_concat_sum: "mset (concat (map f xs)) = (\<Sum>x \<leftarrow> xs. mset (f x))"
  by (induction xs) simp_all

text \<open>All files of a reduce job together.\<close>

lemma read_all:
  assumes "inRange R i" "distinct names" "\<forall>name \<in> set names. isFile R i name"
    "\<forall>j < length (runFiles R). bk R j i \<noteq> [] \<longrightarrow> inter j i \<in> set names"
  shows "mset (concat (map (fileVal R i) names)) = mset (allOf R i)"
proof -
  let ?n = "length (runFiles R)" let ?I = "(\<lambda>j. inter j i) ` {..<?n}" let ?v = "\<lambda>name. mset (fileVal R i name)"
  have inj: "inj_on (\<lambda>j. inter j i) {..<?n}" using inter_inj(1)[of _ i _ i] assms(1) by (auto simp: inj_on_def inRange_def)
  have "mset (concat (map (fileVal R i) names)) = (\<Sum>name \<in> set names. ?v name)"
    using assms(2) by (simp add: mset_concat_sum sum_list_distinct_conv_sum_set)
  also have "\<dots> = (\<Sum>name \<in> ?I. ?v name)"
  proof (rule sum.mono_neutral_cong)
    show "?v name = 0" if "name \<in> ?I - set names" for name using that assms(1,4) fileVal_inter by fastforce
    show "?v name = 0" if "name \<in> set names - ?I" for name
      using that assms(1,3) fileVal_out by (fastforce simp: isFile_def)
  qed auto
  also have "\<dots> = (\<Sum>j \<in> {..<?n}. mset (bk R j i))"
    unfolding sum.reindex[OF inj] using fileVal_inter[OF assms(1)] by simp
  also have "\<dots> = mset (allOf R i)"
    unfolding allOf_def mset_concat_sum by (simp add: sum_list_distinct_conv_sum_set atLeast0LessThan)
  finally show ?thesis .
qed

section \<open>The steps of a job\<close>

lemma bk_range: "runOK R \<Longrightarrow> bk R j i \<noteq> [] \<Longrightarrow> inRange R i"
  using bucket_range[of "runN R" "pairsOf R j" i] by (simp add: bk_def runOK_def inRange_def)

lemma start_map:
  assumes ok: "runOK R" and d: "dirInv R X" and o: "permutes order"
    and r: "rJobType r = MapJob" "j < length (runFiles R)" "rJobId r = int j" "rMapJobFileName r = runFiles R ! j" "rNReduce r = runN R"
    and st: "startJob (runApp R) order X r = Some w'"
  shows "workerInv R X w'"
proof (cases "map_of X (runFiles R ! j)")
  case None
  then show ?thesis using st r by (auto simp: startJob_def)
next
  case (Some c)
  have "\<not> prefix ''mr-'' (runFiles R ! j)" using ok r(2) by (simp add: runOK_def)
  then have p: "mapf (runApp R) (runFiles R ! j) c = pairsOf R j" using Some d by (simp add: dirInv_def pairsOf_def)
  obtain imap where g: "groupPairs (runN R) (pairsOf R j) [] = Some imap"
      "\<And>i ps. (i, ps) \<in> set imap \<longleftrightarrow> ps = bk R j i \<and> ps \<noteq> []"
    using groupPairs_groups[of "runN R" "pairsOf R j"] ok unfolding runOK_def bk_def by blast
  have w: "w' = Mapping r (order imap)" using st r Some p g(1) by (simp add: startJob_def)
  have so: "set (order imap) = set imap" using o unfolding permutes_def by (metis mset_eq_setD)
  have "inRange R (fst x) \<and> snd x = bk R j (fst x)" if "x \<in> set imap" for x
    using that g(2)[of "fst x" "snd x"] bk_range[OF ok, of j "fst x"] by auto
  moreover have "i \<in> fst ` set imap" if "bk R j i \<noteq> []" for i using g(2)[of i "bk R j i"] that by force
  ultimately show ?thesis unfolding w using r(1,2,3) so by (intro workerInv.simps(1)[THEN iffD2]) auto
qed

lemma start_reduce:
  assumes ok: "runOK R" and d: "dirInv R X" and m: "\<forall>j < length (runFiles R). mapDone R X j"
    and r: "rJobType r = ReduceJob" "inRange R (rJobId r)" and st: "startJob (runApp R) order X r = Some w'"
  shows "workerInv R X w'"
proof -
  let ?i = "rJobId r" and ?g = "Glob X ''mr-'' (CHR ''-'' # Itoa (rJobId r))"
  have cover: "\<forall>j < length (runFiles R). bk R j ?i \<noteq> [] \<longrightarrow> inter j ?i \<in> set ?g"
    using m r(2) matches_inter[of ?i ?i] by (auto simp: set_Glob mapDone_def inRange_def)
  have files: "\<forall>name \<in> set ?g. isFile R ?i name" using d r(2) by (auto simp: set_Glob dirInv_def)
  show ?thesis
  proof (cases "?g = []")
    case True
    then have "allOf R ?i = []" using read_all[OF r(2) distinct_Glob files cover] by simp
    then show ?thesis using True st r by (auto simp: startJob_def reduceDone_def)
  next
    case False
    then have "w' = Reading r ?g []" using st r by (simp add: startJob_def)
    then show ?thesis using r files cover distinct_Glob by (auto intro!: exI[of _ "[]"])
  qed
qed

lemma mapping_step:
  assumes ok: "runOK R" and d: "dirInv R X" and w: "workerInv R X (Mapping r gs)" and rand: "rand \<noteq> []"
    and st: "jobStep (runApp R) order rand X (Mapping r gs) = Some (X', w')"
  shows "dirInv R X' \<and> grows X X' \<and> workerInv R X' w'"
proof -
  obtain j where j: "rJobType r = MapJob" "j < length (runFiles R)" "rJobId r = int j"
      "\<forall>g \<in> set gs. inRange R (fst g) \<and> snd g = bk R j (fst g)"
      "\<forall>i. inRange R i \<longrightarrow> bk R j i \<noteq> [] \<longrightarrow> i \<notin> fst ` set gs \<longrightarrow> map_of X (inter j i) \<noteq> None"
    using w by auto
  show ?thesis
  proof (cases gs)
    case Nil
    then show ?thesis using st d j by (auto simp: mapDone_def)
  next
    case (Cons g gs')
    obtain i ps where g: "g = (i, ps)" by (cases g)
    have i: "inRange R i" "ps = bk R j i" using j(4) Cons g by auto
    show ?thesis
    proof (cases "writeGroup (enc (runApp R)) r X g rand")
      case None
      then show ?thesis using st d Cons by auto
    next
      case (Some X1)
      then have X: "X' = X1" "w' = Mapping r gs'" using st Cons by simp_all
      have e: "map_of X' = (map_of X)(inter j i \<mapsto> concat (map (enc (runApp R)) (bk R j i)))"
        using writeGroup_effect[OF Some[unfolded g] rand] j(3) i(2) X by simp
      have "workerInv R X' w'" unfolding X(2) using j Cons g by (intro workerInv.simps(1)[THEN iffD2]) (auto simp: e)
      then show ?thesis using dirInv_inter[OF d e j(2) i(1)] grows_put[OF e] by blast
    qed
  qed
qed

lemma reading_step:
  assumes ok: "runOK R" "quietOutputs R" and d: "dirInv R X" and w: "workerInv R X (Reading r names ps)"
    and st: "jobStep (runApp R) order rand X (Reading r names ps) = Some (X', w')"
  shows "dirInv R X' \<and> grows X X' \<and> workerInv R X' w'"
proof -
  let ?i = "rJobId r"
  obtain rd where r: "rJobType r = ReduceJob" "inRange R ?i" "distinct (rd @ names)" "\<forall>name \<in> set (rd @ names). isFile R ?i name"
      "\<forall>j < length (runFiles R). bk R j ?i \<noteq> [] \<longrightarrow> inter j ?i \<in> set (rd @ names)" "ps = concat (map (fileVal R ?i) rd)"
    using w by auto
  show ?thesis
  proof (cases names)
    case Nil
    then show ?thesis using st d r read_all[OF r(2-5)] by auto
  next
    case (Cons name names')
    show ?thesis
    proof (cases "map_of X name")
      case None
      then show ?thesis using st d Cons by auto
    next
      case (Some c)
      then have "dec (runApp R) c = fileVal R ?i name" using read_file[OF ok(1) d r(2) _ Some ok(2)] r(4) Cons by simp
      then have "X' = X" "w' = Reading r names' (concat (map (fileVal R ?i) (rd @ [name])))" using st Cons Some r(6) by simp_all
      then show ?thesis using d r(1-5) Cons by (auto intro!: exI[of _ "rd @ [name]"])
    qed
  qed
qed

lemma writing_step:
  assumes ok: "runOK R" and d: "dirInv R X" and w: "workerInv R X (Writing r ps)" and rand: "rand \<noteq> []"
    and st: "jobStep (runApp R) order rand X (Writing r ps) = Some (X', w')"
  shows "dirInv R X' \<and> grows X X' \<and> workerInv R X' w'"
proof (cases "writeOutput (sorter (runApp R)) (reducef (runApp R)) r X ps rand")
  case None
  then show ?thesis using st d by auto
next
  case (Some X1)
  let ?i = "rJobId r"
  have X: "X' = X1" "w' = Finishing r True" using st Some by simp_all
  have r: "rJobType r = ReduceJob" "inRange R ?i" "mset ps = mset (allOf R ?i)" using w by auto
  have e: "map_of X' = (map_of X)(outFile ?i \<mapsto> outText (reduceLoop (reducef (runApp R)) (sorter (runApp R) ps) 0))"
    using writeOutput_effect[OF Some rand] X by simp
  have "goodOut R ?i (outText (reduceLoop (reducef (runApp R)) (sorter (runApp R) ps) 0))"
    using sortsPairs_sorted[of "sorter (runApp R)" ps] ok r(3) by (auto simp: goodOut_def runOK_def)
  from dirInv_out[OF d e this r(2)] show ?thesis using grows_put[OF e] X(2) r(1) by (simp add: reduceDone_def e)
qed

lemma goodRand_nonempty: "goodRand n rand \<Longrightarrow> rand \<noteq> []"
  by (simp add: goodRand_def)

lemma jobStep_inv:
  assumes ok: "runOK R" "quietOutputs R" and d: "dirInv R X" and w: "workerInv R X w" and o: "permutes order" and rand: "goodRand (runN R) rand"
    and r: "replyOf w = Some r" "goodReply (runFiles R) (runN R) ms rs r"
    and m: "allFinished ms \<Longrightarrow> \<forall>j < length (runFiles R). mapDone R X j"
    and st: "jobStep (runApp R) order rand X w = Some (X', w')"
  shows "dirInv R X' \<and> grows X X' \<and> workerInv R X' w'"
proof (cases w)
  case (Got r')
  then have s: "startJob (runApp R) order X r = Some w'" "X' = X" using st r(1) by auto
  consider (map) j where "rJobType r = MapJob" "j < length (runFiles R)" "rJobId r = int j" "rMapJobFileName r = runFiles R ! j"
      "rNReduce r = runN R"
    | (reduce) "rJobType r = ReduceJob" "allFinished ms" "inRange R (rJobId r)"
    | (other) "rJobType r = TerminalJob \<or> rJobType r = WaitJob \<or> rJobType r = UnknownJob"
    using r(2) by (auto simp: goodReply_def inRange_def zeroReply_def)
  then show ?thesis
  proof cases
    case map
    then show ?thesis using start_map[OF ok(1) d o map s(1)] s(2) d by simp
  next
    case reduce
    then show ?thesis using start_reduce[OF ok(1) d m reduce(1,3) s(1)] s(2) d by simp
  next
    case other
    then have "w' = Finishing r True" using s(1) by (auto simp: startJob_def)
    then show ?thesis using other s(2) d by auto
  qed
next
  case (Mapping r' gs)
  then show ?thesis using mapping_step[OF ok(1) d, of r' gs rand order X' w'] w goodRand_nonempty[OF rand] st by blast
next
  case (Reading r' names ps)
  then show ?thesis using reading_step[OF ok d, of r' names ps order rand X' w'] w st by blast
next
  case (Writing r' ps)
  then show ?thesis using writing_step[OF ok(1) d, of r' ps rand order X' w'] w goodRand_nonempty[OF rand] st by blast
qed (use st w d in auto)

section \<open>The invariant of a run\<close>

lemma mrInv_dir:
  assumes "mrInv R s ms rs" "coordInv (runFiles R) (runN R) s' ms rs" "mrDir s' = X'" "dirInv R X'" "grows (mrDir s) X'"
    "workerInv R X' w'" "mrWorkers s' = (mrWorkers s)(w := w')"
  shows "mrInv R s' ms rs"
  using assms workerInv_mono[OF assms(5)] done_mono[OF assms(5)] unfolding mrInv_def by auto

lemma mrInv_coord:
  assumes inv: "mrInv R s ms rs" and c: "coordInv (runFiles R) (runN R) s' ms' rs'" and dir: "mrDir s' = mrDir s"
    and ws: "\<forall>w. mrWorkers s' w = mrWorkers s w \<or> workerInv R (mrDir s) (mrWorkers s' w)"
    and a: "advances s MapJob ms ms'" "advances s ReduceJob rs rs'"
  shows "mrInv R s' ms' rs'"
proof -
  note d = inv[unfolded mrInv_def]
  have rep: "workerInv R (mrDir s) (Finishing r True)" if "mrWorkers s w = Finishing r True" for w r
    using d that by metis
  have "mapDone R (mrDir s) j" if "reported s MapJob j" for j using that rep unfolding reported_def by fastforce
  moreover have "reduceDone R (mrDir s) (int i)" if "reported s ReduceJob i" for i
    using that rep unfolding reported_def by fastforce
  ultimately show ?thesis using d c dir ws a unfolding mrInv_def advances_def by (metis (no_types, lifting))
qed

lemma maps_done: "mrInv R s ms rs \<Longrightarrow> allFinished ms \<Longrightarrow> \<forall>j < length (runFiles R). mapDone R (mrDir s) j"
  unfolding mrInv_def coordInv_def allFinished_def by (metis nth_mem)

lemma mrInv_step:
  assumes st: "mrstep (runApp R) (runN R) s s'" and ok: "runOK R" "quietOutputs R" and inv: "mrInv R s ms rs"
  shows "\<exists>ms' rs'. mrInv R s' ms' rs'"
proof -
  have ci: "coordInv (runFiles R) (runN R) s ms rs" and d: "dirInv R (mrDir s)" and w: "\<And>w. workerInv R (mrDir s) (mrWorkers s w)"
    using inv by (auto simp: mrInv_def)
  obtain ms' rs' where ci': "coordInv (runFiles R) (runN R) s' ms' rs'" "advances s MapJob ms ms'" "advances s ReduceJob rs rs'"
    using coordInv_step[OF st ci] by blast
  from st show ?thesis
  proof cases
    case (call w c reply t got)
    have "mrInv R s' ms' rs'" by (rule mrInv_coord[OF inv ci'(1) _ _ ci'(2,3)]) (simp_all add: call(1))
    then show ?thesis by blast
  next
    case (callFails w)
    have "mrInv R s' ms' rs'" by (rule mrInv_coord[OF inv ci'(1) _ _ ci'(2,3)]) (simp_all add: callFails(1))
    then show ?thesis by blast
  next
    case (work v order rand D w')
    obtain r where r: "replyOf (mrWorkers s v) = Some r" using work(2) by (cases "mrWorkers s v") auto
    have g: "goodReply (runFiles R) (runN R) ms rs r" using ci r by (auto simp: coordInv_def)
    have "dirInv R D \<and> grows (mrDir s) D \<and> workerInv R D w'"
      using jobStep_inv[OF ok d w work(3,4) r g maps_done[OF inv] work(5)] .
    then have "mrInv R s' ms rs"
      using mrInv_dir[OF inv coordInv_worker[OF ci, of w' v D], of D w' v] jobStep_reply[OF work(5)] work(1) by simp
    then show ?thesis by blast
  next
    case (ioError v reply D)
    then have "mrInv R s' ms rs"
      using mrInv_dir[OF inv coordInv_worker[OF ci, of "Finishing reply False" v D], of D "Finishing reply False" v]
        leftover_dirInv[OF ioError(5) d w] by simp
    then show ?thesis by blast
  next
    case (crash v D)
    then have "mrInv R s' ms rs"
      using mrInv_dir[OF inv coordInv_worker[OF ci, of Exited v D], of D Exited v] leftover_dirInv[OF crash(2) d w] by simp
    then show ?thesis by blast
  next
    case (report v reply success c)
    have "mrInv R s' ms' rs'" by (rule mrInv_coord[OF inv ci'(1) _ _ ci'(2,3)]) (simp_all add: report(1) afterReport_def)
    then show ?thesis by blast
  next
    case (reportFails v reply success)
    have "mrInv R s' ms' rs'" by (rule mrInv_coord[OF inv ci'(1) _ _ ci'(2,3)]) (simp_all add: reportFails(1) afterReport_def)
    then show ?thesis by blast
  next
    case (reportPanics v reply success)
    have "mrInv R s' ms' rs'" by (rule mrInv_coord[OF inv ci'(1) _ _ ci'(2,3)]) (simp_all add: reportPanics(1) afterReport_def)
    then show ?thesis by blast
  next
    case (timer ts t us c)
    have "mrInv R s' ms' rs'" by (rule mrInv_coord[OF inv ci'(1) _ _ ci'(2,3)]) (simp_all add: timer(1))
    then show ?thesis by blast
  qed
qed

lemma mrInv_init:
  assumes "runOK R"
  shows "\<exists>ms rs. mrInv R (mrInit (runFiles R) (runN R) (runDir R)) ms rs"
proof -
  have no: "map_of (runDir R) name = None" if "prefix ''mr-'' name" for name
    using assms that by (auto simp: runOK_def map_of_eq_None_iff)
  have "dirInv R (runDir R)" unfolding dirInv_def using no matches_mr by auto
  then show ?thesis using coordInv_init[of "runFiles R" "runN R" "runDir R"]
    by (intro exI) (auto simp: mrInv_def mrInit_def)
qed

lemma mrreach_inv:
  "mrreach (runApp R) (runFiles R) (runN R) (runDir R) s \<Longrightarrow> runOK R \<Longrightarrow> quietOutputs R \<Longrightarrow> \<exists>ms rs. mrInv R s ms rs"
  by (induction rule: mrreach.induct) (blast intro: mrInv_init, blast dest: mrInv_step)

end
