(* ===== verification/Mr_Apps.thy ===== *)
theory Mr_Apps
  imports Mr_Data
begin

text \<open>
  MapReduce applications: \<^verbatim>\<open>src/src/mrapps/wc.go\<close>, \<^verbatim>\<open>src/src/mrapps/indexer.go\<close>, \<^verbatim>\<open>src/src/mrapps/nocrash.go\<close>,
  \<^verbatim>\<open>src/src/mrapps/crash.go\<close> and \<^verbatim>\<open>src/src/mrapps/early_exit.go\<close>.  \<open>unicode.IsLetter\<close> is an argument; texts are ASCII, so that a byte is a
  rune.  The locale
  \<open>order_free\<close> is what a run relies on: the result of a reduce function does not depend on the order of the values.
\<close>

section \<open>Applications\<close>

text \<open>\<open>strings.FieldsFunc\<close>: the maximal runs of characters that are not separators.\<close>

fun fieldsFunc :: "(char \<Rightarrow> bool) \<Rightarrow> string \<Rightarrow> string \<Rightarrow> string list" where
  "fieldsFunc sep [] cur = (if cur = [] then [] else [cur])"
| "fieldsFunc sep (c # cs) cur =
     (if sep c then (if cur = [] then fieldsFunc sep cs [] else cur # fieldsFunc sep cs []) else fieldsFunc sep cs (cur @ [c]))"

definition wcMap :: "(char \<Rightarrow> bool) \<Rightarrow> string \<Rightarrow> string \<Rightarrow> KeyValue list" where
  "wcMap isLetter filename contents =
    (let words = fieldsFunc (\<lambda>r. \<not> isLetter r) contents [] in map (\<lambda>w. \<lparr> kvKey = w, kvValue = ''1'' \<rparr>) words)"

definition wcReduce :: "string \<Rightarrow> string list \<Rightarrow> string" where
  "wcReduce key values = Itoa (int (length values))"

text \<open>\<open>sort.Strings\<close> and \<open>strings.Join\<close>.\<close>

fun joinStrings :: "string \<Rightarrow> string list \<Rightarrow> string" where
  "joinStrings sep [] = []"
| "joinStrings sep [x] = x"
| "joinStrings sep (x # y # ys) = x @ sep @ joinStrings sep (y # ys)"

text \<open>The set of the words; \<open>order\<close> is the order in which Go ranges over it.\<close>

definition indexerMap :: "(char \<Rightarrow> bool) \<Rightarrow> (string list \<Rightarrow> string list) \<Rightarrow> string \<Rightarrow> string \<Rightarrow> KeyValue list" where
  "indexerMap isLetter order document txt =
    (let words = fieldsFunc (\<lambda>x. \<not> isLetter x) txt [] in map (\<lambda>w. \<lparr> kvKey = w, kvValue = document \<rparr>) (order (remdups words)))"

definition indexerReduce :: "string \<Rightarrow> string list \<Rightarrow> string" where
  "indexerReduce key values = Itoa (int (length values)) @ '' '' @ joinStrings '','' (sort values)"

definition nocrashMap :: "string \<Rightarrow> string \<Rightarrow> KeyValue list" where
  "nocrashMap filename contents =
    [\<lparr> kvKey = ''a'', kvValue = filename \<rparr>,
     \<lparr> kvKey = ''b'', kvValue = Itoa (int (length filename)) \<rparr>,
     \<lparr> kvKey = ''c'', kvValue = Itoa (int (length contents)) \<rparr>,
     \<lparr> kvKey = ''d'', kvValue = ''xyzzy'' \<rparr>]"

definition nocrashReduce :: "string \<Rightarrow> string list \<Rightarrow> string" where
  "nocrashReduce key values = joinStrings '' '' (sort values)"

text \<open>The crash test's application: the process exits or sleeps, depending on a random number, and otherwise does the same.  \<open>None\<close> is the
  exit.\<close>

definition maybeCrash :: "int \<Rightarrow> unit option" where
  "maybeCrash rr = (if rr < 330 then None else Some ())"

definition crashMap :: "int \<Rightarrow> string \<Rightarrow> string \<Rightarrow> KeyValue list option" where
  "crashMap rr filename contents = do {
     maybeCrash rr;
     Some [\<lparr> kvKey = ''a'', kvValue = filename \<rparr>,
           \<lparr> kvKey = ''b'', kvValue = Itoa (int (length filename)) \<rparr>,
           \<lparr> kvKey = ''c'', kvValue = Itoa (int (length contents)) \<rparr>,
           \<lparr> kvKey = ''d'', kvValue = ''xyzzy'' \<rparr>] }"

definition crashReduce :: "int \<Rightarrow> string \<Rightarrow> string list \<Rightarrow> string option" where
  "crashReduce rr key values = do {
     maybeCrash rr;
     let vv = sort values;
     Some (joinStrings '' '' vv) }"

lemma crash_or_same:
  "crashMap rr filename contents = (if rr < 330 then None else Some (nocrashMap filename contents))"
  "crashReduce rr key values = (if rr < 330 then None else Some (nocrashReduce key values))"
  by (simp_all add: crashMap_def crashReduce_def maybeCrash_def nocrashMap_def nocrashReduce_def)

definition earlyExitMap :: "string \<Rightarrow> string \<Rightarrow> KeyValue list" where
  "earlyExitMap filename contents = [\<lparr> kvKey = filename, kvValue = ''1'' \<rparr>]"

definition earlyExitReduce :: "string \<Rightarrow> string list \<Rightarrow> string" where
  "earlyExitReduce key values = Itoa (int (length values))"

section \<open>Reduce functions that do not depend on the order\<close>

lemma filter_sorted_list_of_set: "finite A \<Longrightarrow> filter P (sorted_list_of_set A) = sorted_list_of_set {x \<in> A. P x}"
  by (intro sorted_distinct_set_unique) (auto intro: sorted_wrt_filter)

lemma valuesOf_mset: "mset ps = mset qs \<Longrightarrow> mset (valuesOf ps k) = mset (valuesOf qs k)"
  by (simp add: valuesOf_def)

locale order_free =
  fixes red :: "string \<Rightarrow> string list \<Rightarrow> string"
  assumes perm: "mset vs = mset vs' \<Longrightarrow> red k vs = red k vs'"
begin

text \<open>The lines of a part of the keys are a part of the lines.\<close>

lemma linesOf_part:
  assumes "mset ps = mset (filter (\<lambda>kv. P (kvKey kv)) qs)" "mset qs' = mset qs"
  shows "linesOf red ps = filter (\<lambda>l. P (fst l)) (linesOf red qs')"
proof -
  have s: "set ps = {kv \<in> set qs'. P (kvKey kv)}" using mset_eq_setD[OF assms(1)] mset_eq_setD[OF assms(2)] by auto
  then have keys: "kvKey ` set ps = {k \<in> kvKey ` set qs'. P k}" by auto
  have "red k (valuesOf ps k) = red k (valuesOf qs' k)" if "P k" for k
  proof -
    have "valuesOf (filter (\<lambda>kv. P (kvKey kv)) qs) k = valuesOf qs k"
      using that by (auto simp: valuesOf_def intro!: arg_cong[of _ _ "map kvValue"] filter_cong)
    then have "mset (valuesOf ps k) = mset (valuesOf qs' k)"
      using valuesOf_mset[OF assms(1), of k] valuesOf_mset[OF assms(2), of k] by simp
    then show ?thesis by (rule perm)
  qed
  then show ?thesis unfolding linesOf_def keys by (simp add: filter_map comp_def filter_sorted_list_of_set[symmetric])
qed

text \<open>The lines do not depend on the order of the pairs.\<close>

lemma linesOf_perm: "mset ps = mset qs \<Longrightarrow> linesOf red ps = linesOf red qs"
  using linesOf_part[of ps "\<lambda>_. True" qs qs] by simp

end

lemma sort_perm: "mset vs = mset vs' \<Longrightarrow> sort vs = sort (vs' :: 'a :: linorder list)"
  by (metis mset_sort properties_for_sort sorted_sort)

interpretation wc: order_free wcReduce
  by unfold_locales (auto simp: wcReduce_def dest: mset_eq_length)

interpretation indexer: order_free indexerReduce
proof unfold_locales
  fix vs vs' :: "string list" and k :: string assume e: "mset vs = mset vs'"
  show "indexerReduce k vs = indexerReduce k vs'" using sort_perm[OF e] mset_eq_length[OF e] by (simp add: indexerReduce_def)
qed

interpretation nocrash: order_free nocrashReduce
proof unfold_locales
  fix vs vs' :: "string list" and k :: string assume e: "mset vs = mset vs'"
  show "nocrashReduce k vs = nocrashReduce k vs'" using sort_perm[OF e] by (simp add: nocrashReduce_def)
qed

interpretation earlyExit: order_free earlyExitReduce
  by unfold_locales (auto simp: earlyExitReduce_def dest: mset_eq_length)

end
