(* ===== verification/String_Codec.thy ===== *)
theory String_Codec
  imports Main
begin

text \<open>
  A concrete encoding of strings with a terminator, for the runs that show that the hypotheses about encoders can hold: each
  character is marked, so the terminator cannot occur in the encoded text.
\<close>

definition encStr :: "string \<Rightarrow> string" where
  "encStr s = concat (map (\<lambda>c. [CHR ''#'', c]) s) @ '';''"

fun decStr :: "string \<Rightarrow> (string \<times> string) option" where
  "decStr [] = None"
| "decStr [x] = (if x = CHR '';'' then Some ([], []) else None)"
| "decStr (x # c # cs) =
     (if x = CHR '';'' then Some ([], c # cs)
      else if x = CHR ''#'' then map_option (\<lambda>(s, r). (c # s, r)) (decStr cs) else None)"

lemma decStr_encStr: "decStr (encStr s @ rest) = Some (s, rest)"
proof (induction s)
  case Nil
  then show ?case by (cases rest) (simp_all add: encStr_def)
next
  case (Cons c s)
  then show ?case by (simp add: encStr_def)
qed

end
