(* ===== verification/Mr_Demo.thy ===== *)
theory Mr_Demo
  imports Mr_Output Mr_Apps String_Codec
begin

text \<open>
  A concrete MapReduce run: word count over two files with two reduce jobs, executed by a function that performs steps of the
  system.  In it a worker crashes in the middle of a map job and leaves a temporary file, its timer fires, and another worker takes
  over.  Two more runs show an old timer that undoes a newer assignment, and a word that the decoder reads as a value.
\<close>

section \<open>A codec for pairs\<close>

text \<open>A stand-in for the JSON encoder and decoder: strings with a terminator, and a pair with an opening bracket.  What the decoder does
  with other text is as in \<^verbatim>\<open>encoding/json\<close>: it skips white space, it reads the literal \<open>null\<close> as a value that leaves the
  variable it decodes into as it was, here the zero pair, and anything else is an error, which ends the loop of the reduce job.\<close>

definition encPair :: "KeyValue \<Rightarrow> string" where
  "encPair kv = CHR 0x7B # encStr (kvKey kv) @ encStr (kvValue kv)"

definition isSpace :: "char \<Rightarrow> bool" where
  "isSpace c \<longleftrightarrow> c = CHR '' '' \<or> c = CHR 0x09 \<or> c = CHR 0x0A \<or> c = CHR 0x0D"

fun decPairs :: "nat \<Rightarrow> string \<Rightarrow> KeyValue list" where
  "decPairs 0 txt = []"
| "decPairs (Suc k) txt = (case dropWhile isSpace txt of
      [] \<Rightarrow> []
    | x # txt0 \<Rightarrow>
        if x = CHR 0x7B then
          (case decStr txt0 of None \<Rightarrow> [] | Some (key, txt1) \<Rightarrow>
            (case decStr txt1 of None \<Rightarrow> [] | Some (v, txt2) \<Rightarrow> \<lparr> kvKey = key, kvValue = v \<rparr> # decPairs k txt2))
        else if take 4 (x # txt0) = ''null'' then \<lparr> kvKey = [], kvValue = [] \<rparr> # decPairs k (drop 3 txt0)
        else [])"

definition decFile :: "string \<Rightarrow> KeyValue list" where
  "decFile txt = decPairs (length txt) txt"

lemma decPairs_enc: "length kvs \<le> k \<Longrightarrow> decPairs k (concat (map encPair kvs)) = kvs"
proof (induction kvs arbitrary: k)
  case Nil
  then show ?case by (cases k) simp_all
next
  case (Cons kv kvs)
  then obtain k' where "k = Suc k'" by (cases k) auto
  then show ?case using Cons by (simp add: encPair_def decStr_encStr isSpace_def)
qed

lemma decFile_enc: "decFile (concat (map encPair kvs)) = kvs"
proof -
  have "length kvs \<le> length (concat (map encPair kvs))" by (induction kvs) (simp_all add: encPair_def)
  then show ?thesis unfolding decFile_def by (rule decPairs_enc)
qed

lemma decFile_other:
  assumes "\<not> isSpace (hd txt)" "hd txt \<noteq> CHR 0x7B" "\<not> prefix ''null'' txt"
  shows "decFile txt = []"
proof (cases "txt")
  case (Cons x xs)
  have "take 4 txt \<noteq> ''null''" using assms(3) by (metis take_is_prefix)
  then show ?thesis using assms(1,2) Cons by (simp add: decFile_def)
qed (simp add: decFile_def)

section \<open>Word count\<close>

definition isLetter :: "char \<Rightarrow> bool" where
  "isLetter c \<longleftrightarrow> (CHR ''a'' \<le> c \<and> c \<le> CHR ''z'') \<or> (CHR ''A'' \<le> c \<and> c \<le> CHR ''Z'')"

definition wcApp :: MrApp where
  "wcApp = \<lparr> mapf = wcMap isLetter, reducef = wcReduce, enc = encPair, dec = decFile, sorter = sort_key kvKey \<rparr>"

lemma fields_letters:
  assumes "\<forall>c \<in> set cur. \<not> sep c" "w \<in> set (fieldsFunc sep txt cur)"
  shows "w \<noteq> [] \<and> (\<forall>c \<in> set w. \<not> sep c)"
  using assms
proof (induction "txt" arbitrary: cur)
  case Nil
  then show ?case by (cases "cur = []") auto
next
  case (Cons x xs)
  show ?case
  proof (cases "sep x")
    case True
    then have "w = cur \<and> cur \<noteq> [] \<or> w \<in> set (fieldsFunc sep xs [])" using Cons.prems(2) by (cases "cur = []") auto
    then show ?thesis using Cons.IH[of "[]"] Cons.prems(1) by auto
  next
    case False
    then have "\<forall>c \<in> set (cur @ [x]). \<not> sep c" "w \<in> set (fieldsFunc sep xs (cur @ [x]))" using Cons.prems by simp_all
    then show ?thesis by (rule Cons.IH)
  qed
qed

lemma wcMap_keys:
  assumes "kv \<in> set (wcMap isL f txt)"
  shows "kvKey kv \<noteq> [] \<and> isL (hd (kvKey kv)) \<and> kvKey kv \<in> set (fieldsFunc (\<lambda>r. \<not> isL r) txt [])"
proof -
  have k: "kvKey kv \<in> set (fieldsFunc (\<lambda>r. \<not> isL r) txt [])" using assms by (auto simp: wcMap_def Let_def)
  then have "kvKey kv \<noteq> [] \<and> (\<forall>c \<in> set (kvKey kv). \<not> \<not> isL c)" by (intro fields_letters[of "[]"]) simp_all
  then show ?thesis using k by (simp add: hd_in_set)
qed

lemma sort_key_sorts: "sortsPairs (sort_key kvKey)"
proof -
  have "sorted_wrt (\<lambda>a b. \<not> keyLess b a) (sort_key kvKey ps)" for ps
    using sorted_sort_key[of kvKey ps] by (simp add: sorted_wrt_map keyLess_def not_less)
  then show ?thesis by (simp add: sortsPairs_def)
qed

lemma reduceLoop_head: "ps \<noteq> [] \<Longrightarrow> \<exists>v ls. reduceLoop red ps 0 = (kvKey (ps ! 0), v) # ls"
  by (subst reduceLoop.simps) (auto simp: Let_def)

text \<open>Every run of word count satisfies what a run relies on, if no file begins with \<open>mr-\<close>; and no output file decodes to a pair, if no
  word begins with \<open>null\<close>.\<close>

lemma wc_runOK:
  assumes "runApp R = wcApp" "0 < runN R" "\<forall>f \<in> set (runFiles R). \<not> prefix ''mr-'' f" "\<forall>f \<in> set (map fst (runDir R)). \<not> prefix ''mr-'' f"
  shows "runOK R"
  using assms decFile_enc sort_key_sorts by (simp add: runOK_def wcApp_def)

definition wordsOf :: "string \<Rightarrow> string list" where
  "wordsOf txt = fieldsFunc (\<lambda>r. \<not> isLetter r) txt []"

lemma prefix_before_space: "prefix ''null'' (key @ CHR '' '' # rest) \<Longrightarrow> prefix ''null'' key"
proof -
  assume "prefix ''null'' (key @ CHR '' '' # rest)"
  then consider "prefix ''null'' key" | us where "''null'' = key @ us" "prefix us (CHR '' '' # rest)" by (auto simp: prefix_append)
  then show ?thesis
  proof cases
    case (2 us)
    have "set us \<subseteq> set ''null''" unfolding 2(1) by simp
    then have "CHR '' '' \<notin> set us" by auto
    then have "us = []" using 2(2) by (cases us) auto
    then show ?thesis using 2(1) by simp
  qed
qed

lemma wc_quiet:
  assumes "runApp R = wcApp" "\<forall>txt \<in> snd ` set (runDir R). \<forall>w \<in> set (wordsOf txt). \<not> prefix ''null'' w"
  shows "quietOutputs R"
  unfolding quietOutputs_def
proof (intro allI impI)
  fix i c assume "goodOut R i c"
  then obtain ps where ps: "mset ps = mset (allOf R i)" "c = outText (reduceLoop wcReduce ps 0)"
    using assms(1) by (auto simp: goodOut_def wcApp_def)
  have "decFile c = []"
  proof (cases "ps = []")
    case True
    then show ?thesis unfolding ps(2) by (subst reduceLoop.simps) (simp add: outText_def decFile_def)
  next
    case False
    then obtain v ls where "reduceLoop wcReduce ps 0 = (kvKey (ps ! 0), v) # ls" using reduceLoop_head by blast
    then have c: "c = kvKey (ps ! 0) @ CHR '' '' # (v @ CHR 0x0A # outText ls)" by (simp add: ps(2) outText_def lineOf_def)
    have "ps ! 0 \<in> set (allOf R i)" using False mset_eq_setD[OF ps(1)] by (metis length_greater_0_conv nth_mem)
    then obtain j content where "map_of (runDir R) (runFiles R ! j) = Some content" "ps ! 0 \<in> set (wcMap isLetter (runFiles R ! j) content)"
      using assms(1) by (auto simp: allOf_def bk_def bucket_def pairsOf_def wcApp_def split: option.splits dest!: sym[of "Some _"])
    then have k: "kvKey (ps ! 0) \<noteq> []" "isLetter (hd (kvKey (ps ! 0)))" "\<not> prefix ''null'' (kvKey (ps ! 0))"
      using wcMap_keys[of "ps ! 0" isLetter] assms(2) map_of_SomeD by (fastforce simp: wordsOf_def)+
    have "\<not> isLetter (CHR 0x7B)" "\<not> (isSpace x \<and> isLetter x)" for x by code_simp (auto simp: isSpace_def isLetter_def less_eq_char_def)
    then show ?thesis using k prefix_before_space[of "kvKey (ps ! 0)"] unfolding c by (intro decFile_other) auto
  qed
  then show "dec (runApp R) c = []" using assms(1) by (simp add: wcApp_def)
qed

section \<open>Performing steps\<close>

datatype mract = Call nat | Work nat string | Fail nat | CrashAt nat string string | Report nat | Timer

definition randOK :: "int \<Rightarrow> string \<Rightarrow> bool" where
  "randOK n rand \<longleftrightarrow> rand \<noteq> [] \<and> CHR ''-'' \<notin> set rand \<and> list_all (\<lambda>i. length (Itoa (int i)) \<le> length rand) [0..<nat n]"

lemma randOK_good: "randOK n rand \<Longrightarrow> goodRand n rand"
  unfolding randOK_def goodRand_def list_all_iff by (auto dest!: bspec[of _ _ "nat _"])

fun perform :: "MrApp \<Rightarrow> int \<Rightarrow> mract \<Rightarrow> MrSys \<Rightarrow> MrSys option" where
  "perform app n (Call w) s =
     (case (mrUp s, mrWorkers s w) of
        (True, Asking) \<Rightarrow> (case GetJob (mrCoord s) \<lparr> exX = 99 \<rparr> zeroReply of
            Some (c, reply, t) \<Rightarrow> Some (s\<lparr>mrCoord := c, mrTimers := mrTimers s @ (case t of None \<Rightarrow> [] | Some x \<Rightarrow> [x]),
              mrWorkers := (mrWorkers s)(w := Got reply)\<rparr>)
          | None \<Rightarrow> None)
      | _ \<Rightarrow> None)"
| "perform app n (Work w rand) s =
     (if inJob (mrWorkers s w) \<and> randOK n rand
      then (case jobStep app (\<lambda>gs. gs) rand (mrDir s) (mrWorkers s w) of
              Some (D, w') \<Rightarrow> Some (s\<lparr>mrDir := D, mrWorkers := (mrWorkers s)(w := w')\<rparr>)
            | None \<Rightarrow> None)
      else None)"
| "perform app n (Fail w) s =
     (if inJob (mrWorkers s w) \<and> map_option rJobType (replyOf (mrWorkers s w)) = Some MapJob
      then map_option (\<lambda>reply. s\<lparr>mrDir := mrDir s, mrWorkers := (mrWorkers s)(w := Finishing reply False)\<rparr>) (replyOf (mrWorkers s w))
      else None)"
| "perform app n (CrashAt w rand junk) s =
     (case finalName (mrWorkers s w) of
        Some final \<Rightarrow>
          (if randOK n rand \<and> map_of (mrDir s) (final @ rand) = None
           then Some (s\<lparr>mrDir := AList.update (final @ rand) junk (mrDir s), mrWorkers := (mrWorkers s)(w := Exited)\<rparr>) else None)
      | None \<Rightarrow> None)"
| "perform app n (Report w) s =
     (case (mrUp s, mrWorkers s w) of
        (True, Finishing reply success) \<Rightarrow> (case ReportJobResult (mrCoord s) (jobResult reply success) of
            Some c \<Rightarrow> Some (s\<lparr>mrCoord := c, mrWorkers := (mrWorkers s)(w := afterReport reply)\<rparr>)
          | None \<Rightarrow> None)
      | _ \<Rightarrow> None)"
| "perform app n Timer s =
     (case (mrUp s, mrTimers s) of
        (True, t # ts) \<Rightarrow> (case timerFires (mrCoord s) t of Some c \<Rightarrow> Some (s\<lparr>mrCoord := c, mrTimers := ts\<rparr>) | None \<Rightarrow> None)
      | _ \<Rightarrow> None)"

fun performAll :: "MrApp \<Rightarrow> int \<Rightarrow> mract list \<Rightarrow> MrSys \<Rightarrow> MrSys option" where
  "performAll app n [] s = Some s"
| "performAll app n (a # as) s = Option.bind (perform app n a s) (performAll app n as)"

lemma perform_step: "perform app n a s = Some s' \<Longrightarrow> mrstep app n s s'"
proof (cases a)
  case (Call w)
  assume "perform app n a s = Some s'"
  then show ?thesis using Call by (auto split: wctl.splits option.splits bool.splits intro: mrstep.call)
next
  case (Work w rand)
  assume "perform app n a s = Some s'"
  then show ?thesis using Work
    by (auto split: option.splits if_splits intro!: mrstep.work[where order = "\<lambda>gs. gs" and rand = rand] simp: permutes_def randOK_good)
next
  case (Fail w)
  assume "perform app n a s = Some s'"
  then obtain reply where r: "inJob (mrWorkers s w)" "replyOf (mrWorkers s w) = Some reply" "rJobType reply \<in> {MapJob, ReduceJob}"
      "s' = s\<lparr>mrDir := mrDir s, mrWorkers := (mrWorkers s)(w := Finishing reply False)\<rparr>"
    using Fail by (auto split: if_splits)
  show ?thesis unfolding r(4) by (rule mrstep.ioError[OF r(1-3) leftover.clean])
next
  case (CrashAt w rand junk)
  assume "perform app n a s = Some s'"
  then show ?thesis using CrashAt
    by (auto split: option.splits if_splits intro!: mrstep.crash leftover.temp simp: randOK_good)
next
  case (Report w)
  assume "perform app n a s = Some s'"
  then show ?thesis using Report by (auto split: wctl.splits option.splits bool.splits intro: mrstep.report)
next
  case Timer
  assume "perform app n a s = Some s'"
  then show ?thesis using Timer mrstep.timer[of s "[]"] by (auto split: list.splits option.splits bool.splits)
qed

lemma performAll_reach: "performAll app n as s = Some s' \<Longrightarrow> mrreach app F n D s \<Longrightarrow> mrreach app F n D s'"
proof (induction "as" arbitrary: s)
  case (Cons a "as")
  then obtain s1 where "perform app n a s = Some s1" "performAll app n as s1 = Some s'" by (auto split: bind_splits)
  then show ?case using Cons.IH Cons.prems(2) mrreach.more perform_step by blast
qed simp

section \<open>The run\<close>

definition demoR :: MrRun where
  "demoR = \<lparr> runApp = wcApp, runFiles = [''x'', ''y''], runN = 2, runDir = [(''x'', ''a b''), (''y'', ''b'')] \<rparr>"

text \<open>Worker 0 crashes in its first map job; worker 1 does the other one, the lost one after the timer, and the reduce jobs.\<close>

definition demoActs :: "mract list" where
  "demoActs = [Call 0, Work 0 ''77'', CrashAt 0 ''77'' ''?'', Call 1, Work 1 ''1'', Work 1 ''2'', Work 1 ''3'', Report 1, Timer,
     Call 1, Work 1 ''11'', Work 1 ''12'', Work 1 ''13'', Work 1 ''14'', Report 1,
     Call 1, Work 1 ''15'', Work 1 ''16'', Work 1 ''17'', Work 1 ''18'', Report 1,
     Call 1, Work 1 ''25'', Work 1 ''26'', Work 1 ''27'', Work 1 ''28'', Work 1 ''29'', Report 1]"

definition demoEnd :: "MrSys option" where
  "demoEnd = performAll wcApp 2 demoActs (mrInit [''x'', ''y''] 2 [(''x'', ''a b''), (''y'', ''b'')])"

lemma demo_done:
  "map_option (\<lambda>s. (mrDone (mrCoord s), map_of (mrDir s) ''mr-out-0'', map_of (mrDir s) ''mr-out-1'')) demoEnd =
    Some (True, Some (outText [(''a'', ''1'')]), Some (outText [(''b'', ''2'')]))"
  by code_simp

lemma demo_reachable: "\<exists>s. demoEnd = Some s \<and> mrDone (mrCoord s) \<and>
    mrreach (runApp demoR) (runFiles demoR) (runN demoR) (runDir demoR) s"
proof -
  obtain s where s: "demoEnd = Some s" "mrDone (mrCoord s)" using demo_done by (cases demoEnd) auto
  then have "mrreach wcApp [''x'', ''y''] 2 [(''x'', ''a b''), (''y'', ''b'')] s"
    unfolding demoEnd_def using performAll_reach mrreach.start by blast
  then show ?thesis using s by (auto simp: demoR_def)
qed

lemma demo_runOK: "runOK demoR" "quietOutputs demoR"
proof -
  show "runOK demoR" by (rule wc_runOK) (simp_all add: demoR_def)
  have "wordsOf ''a b'' = [''a'', ''b'']" "wordsOf ''b'' = [''b'']" by code_simp+
  then show "quietOutputs demoR" by (intro wc_quiet) (auto simp: demoR_def)
qed

text \<open>The sequential program on the same files.\<close>

definition demoSeq :: "files option" where
  "demoSeq = mrSequential wcApp (runDir demoR) (runFiles demoR)"

lemma demo_sequential: "map_option (\<lambda>D. map_of D ''mr-out-0'') demoSeq = Some (Some (outText [(''a'', ''1''), (''b'', ''2'')]))"
  by code_simp

section \<open>An old timer\<close>

text \<open>Consecutive states of a run by a list of actions.\<close>

lemma performAll_append: "performAll app n (as @ bs) s = Option.bind (performAll app n as s) (performAll app n bs)"
proof (induction "as" arbitrary: s)
  case (Cons a "as")
  then show ?case by (cases "perform app n a s") simp_all
qed simp

lemma performAll_steps: "performAll app n as s = Some s' \<Longrightarrow> (mrstep app n)\<^sup>*\<^sup>* s s'"
proof (induction "as" arbitrary: s)
  case (Cons a "as")
  then obtain s1 where "perform app n a s = Some s1" "performAll app n as s1 = Some s'" by (auto split: bind_splits)
  then show ?case using Cons.IH perform_step converse_rtranclp_into_rtranclp[of "mrstep app n"] by blast
qed simp

text \<open>Worker 0 fails in a map job and reports it; worker 1 gets the job.  Then the timer of the first assignment fires.  Worker 1
  does the job.  \<open>staleAt k\<close> is the state after \<open>k\<close> actions.\<close>

definition staleActs :: "mract list" where
  "staleActs = [Call 0, Fail 0, Report 0, Call 1, Timer, Work 1 ''1'', Work 1 ''2'', Work 1 ''3'']"

definition staleAt :: "nat \<Rightarrow> MrSys option" where
  "staleAt k = performAll wcApp 1 (take k staleActs) (mrInit [''y''] 1 [(''y'', ''b'')])"

lemma staleAt_split:
  assumes "k + m \<le> 8" "staleAt k = Some s"
  shows "staleAt (k + m) = performAll wcApp 1 (take m (drop k staleActs)) s"
  using assms(2) by (simp add: staleAt_def take_add performAll_append)

lemma staleAt_step:
  assumes "k < 8" "staleAt k = Some s"
  shows "staleAt (Suc k) = perform wcApp 1 (staleActs ! k) s"
proof -
  have "length staleActs = 8" by (simp add: staleActs_def)
  then have "take 1 (drop k staleActs) = [staleActs ! k]" using assms(1) by (simp add: take_Suc_conv_app_nth)
  then show ?thesis using staleAt_split[of k 1 s] assms by (cases "perform wcApp 1 (staleActs ! k) s") simp_all
qed

lemma staleAt_reach: "staleAt k = Some s \<Longrightarrow> mrreach wcApp [''y''] 1 [(''y'', ''b'')] s"
  unfolding staleAt_def by (rule performAll_reach[OF _ mrreach.start])

definition staleReply :: ExampleReply where
  "staleReply = zeroReply\<lparr>rMapJobFileName := ''y'', rJobType := MapJob, rJobId := 0, rNReduce := 1\<rparr>"

definition mapJob0 :: "Coordinator \<Rightarrow> MRJobState option" where
  "mapJob0 c = stateAt c (cAllJob c MapJob) 0"

text \<open>The two workers, the timers and the state of the job.\<close>

definition staleView :: "MrSys \<Rightarrow> wctl \<times> wctl \<times> (MRJobType \<times> int) list \<times> MRJobState option" where
  "staleView s = (mrWorkers s 0, mrWorkers s 1, mrTimers s, mapJob0 (mrCoord s))"

lemma stale_views:
  "map_option staleView (staleAt 1) = Some (Got staleReply, Asking, [(MapJob, 0)], Some Doing)"
  "map_option staleView (staleAt 2) = Some (Finishing staleReply False, Asking, [(MapJob, 0)], Some Doing)"
  "map_option staleView (staleAt 3) = Some (Asking, Asking, [(MapJob, 0)], Some UnFinish)"
  "map_option staleView (staleAt 4) = Some (Asking, Got staleReply, [(MapJob, 0), (MapJob, 0)], Some Doing)"
  "map_option staleView (staleAt 5) = Some (Asking, Got staleReply, [(MapJob, 0)], Some UnFinish)"
  "map_option staleView (staleAt 8) = Some (Asking, Finishing staleReply True, [(MapJob, 0)], Some UnFinish)"
  by code_simp+

lemma stale_report:
  "map_option (\<lambda>s. map_option mapJob0 (ReportJobResult (mrCoord s) (jobResult staleReply True))) (staleAt 8) =
    Some (Some (Some UnFinish))"
  by code_simp

section \<open>A word that decodes\<close>

text \<open>Worker 0 does the map job and the reduce job of a file with the word \<open>null\<close> but is slow to report the latter, so worker 1 gets it
  too.\<close>

definition nullActs :: "mract list" where
  "nullActs = [Call 0, Work 0 ''1'', Work 0 ''2'', Work 0 ''3'', Report 0, Timer,
     Call 0, Work 0 ''4'', Work 0 ''5'', Work 0 ''6'', Work 0 ''7'', Timer,
     Call 1, Work 1 ''4'', Work 1 ''5'', Work 1 ''6'', Work 1 ''7'', Work 1 ''8'', Report 1]"

definition nullEnd :: "MrSys option" where
  "nullEnd = performAll wcApp 1 nullActs (mrInit [''x''] 1 [(''x'', ''null'')])"

lemma null_done:
  "map_option (\<lambda>s. (mrDone (mrCoord s), map_of (mrDir s) ''mr-out-0'')) nullEnd =
    Some (True, Some (outText [([], ''1''), (''null'', ''1'')]))"
  "map_option (\<lambda>D. map_of D ''mr-out-0'') (mrSequential wcApp [(''x'', ''null'')] [''x'']) = Some (Some (outText [(''null'', ''1'')]))"
  by code_simp+

end
