(* ===== verification/Mr_Props.thy ===== *)
theory Mr_Props
  imports Mr_Demo
begin

text \<open>
  Properties of MapReduce: the output of a finished run against the sequential program, the phases of the coordinator, jobs that
  cannot get stuck, the partition and the reduce loop; and what goes wrong without input files, with a job of unknown type, with
  an old timer, and with a word that the decoder reads as a value.
\<close>

section \<open>The sequential output\<close>

lemma readInputs_pairs:
  assumes "readInputs f D F = Some ps"
  shows "ps = concat (map (\<lambda>j. case map_of D (F ! j) of None \<Rightarrow> [] | Some c \<Rightarrow> f (F ! j) c) [0..<length F])"
  using assms
proof (induction F arbitrary: ps)
  case (Cons x F)
  then obtain c rest where c: "map_of D x = Some c" "readInputs f D F = Some rest" "ps = f x c @ rest"
    by (auto split: bind_splits)
  then show ?case using Cons.IH[OF c(2)]
    by (simp add: upt_conv_Cons map_Suc_upt[symmetric] comp_def del: upt_Suc cong: option.case_cong)
qed simp

lemma allOf_filter:
  "allOf R i = filter (\<lambda>kv. ihash (kvKey kv) mod runN R = i) (concat (map (pairsOf R) [0..<length (runFiles R)]))"
  by (simp add: allOf_def bk_def bucket_def filter_concat comp_def)

section \<open>A finished run\<close>

lemma done_outputs:
  assumes "mrInv R s ms rs" "mrDone (mrCoord s)" "inRange R i"
  shows "map_of (mrDir s) (outFile i) = None \<and> allOf R i = [] \<or> (\<exists>c. map_of (mrDir s) (outFile i) = Some c \<and> goodOut R i c)"
proof -
  have inv: "mrCoord s = mkC (runFiles R) (runN R) ms rs" "length rs = nat (runN R)" "dirInv R (mrDir s)"
      "\<forall>i < length rs. rs ! i = Finished \<longrightarrow> reduceDone R (mrDir s) (int i)"
    using assms(1) by (auto simp: mrInv_def coordInv_def)
  have "\<forall>x \<in> set rs. x = Finished" using assms(2) inv(1) by (simp add: mrDone_def allFinished_def)
  then have "reduceDone R (mrDir s) i"
    using inv(2,4) assms(3) by (auto simp: inRange_def dest!: spec[of _ "nat i"])
  then show ?thesis using inv(3) assms(3) by (cases "map_of (mrDir s) (outFile i)") (auto simp: reduceDone_def dirInv_def)
qed

text \<open>The file of a reduce number, and the lines of the sequential output that belong to it.\<close>

definition outputIs :: "MrRun \<Rightarrow> files \<Rightarrow> (string \<times> string) list \<Rightarrow> int \<Rightarrow> bool" where
  "outputIs R D ls i \<longleftrightarrow> (let part = filter (\<lambda>l. ihash (fst l) mod runN R = i) ls in
     map_of D (outFile i) = Some (outText part) \<or> part = [] \<and> map_of D (outFile i) = None)"

lemma sequential_lines:
  assumes "mrSequential app D F = Some D'" "sortsPairs (sorter app)"
  shows "\<exists>qs qs'. readInputs (mapf app) D F = Some qs \<and> mset qs' = mset qs \<and> keySorted qs' \<and>
    map_of D' ''mr-out-0'' = Some (outText (linesOf (reducef app) qs'))"
proof -
  obtain qs where q: "readInputs (mapf app) D F = Some qs"
      "D' = writeFile D ''mr-out-0'' (outText (reduceLoop (reducef app) (sorter app qs) 0))"
    using assms(1) by (auto simp: mrSequential_def Let_def split: bind_splits)
  have "keySorted (sorter app qs)" "mset (sorter app qs) = mset qs" using sortsPairs_sorted[OF assms(2)] by auto
  then show ?thesis using q reduceLoop_lines[of "sorter app qs" "reducef app"] by (auto simp: writeFile_def)
qed

lemma linesOf_sorted: "sorted (map fst (linesOf red ps)) \<and> distinct (map fst (linesOf red ps))"
  by (simp add: linesOf_def comp_def)

section \<open>All jobs of a type\<close>

definition allDone :: "Coordinator \<Rightarrow> MRJobType \<Rightarrow> bool" where
  "allDone c jt \<longleftrightarrow> jobsAt c (cAllJob c jt) \<noteq> [] \<and> list_all (\<lambda>job. jState job = Finished) (jobsAt c (cAllJob c jt))"

lemma allDone_mkC:
  "length ms = length F \<Longrightarrow> allDone (mkC F n ms rs) MapJob = allFinished ms" "allDone (mkC F n ms rs) ReduceJob = allFinished rs"
  by (simp_all add: allDone_def allFinished_def with_finished flip: length_greater_0_conv)

lemma stateAt_jobs:
  assumes "length ms = length F" "jt = MapJob \<or> jt = ReduceJob"
  shows "stateAt (mkC F n ms rs) (cAllJob (mkC F n ms rs) jt) i =
    (let ss = if jt = MapJob then ms else rs in if 0 \<le> i \<and> nat i < length ss then Some (ss ! nat i) else None)"
  using assms by (auto simp: stateAt_def idx_def Let_def)

lemma goodReply_work:
  assumes "goodReply F n ms rs r" "0 < n" "replyOf w = Some r"
  shows "jobStep app order rand D w \<noteq> None"
proof (cases w)
  case (Got r')
  have "rJobType r = MapJob \<Longrightarrow> rNReduce r = n" using assms(1) by (auto simp: goodReply_def zeroReply_def)
  moreover have "groupPairs n pairs [] \<noteq> None" for pairs using groupPairs_groups[OF assms(2), of pairs] by auto
  ultimately show ?thesis using Got assms(3) by (auto simp: startJob_def Let_def bind_eq_Some_conv split: option.splits)
next
  case (Mapping r' gs)
  then show ?thesis by (cases gs) (auto split: option.splits)
next
  case (Reading r' names ps)
  then show ?thesis by (cases names) (auto split: option.splits)
qed (auto split: option.splits)

lemma goodReply_report:
  assumes "goodReply F n ms rs r" "length ms = length F" "length rs = nat n"
  shows "(ReportJobResult (mkC F n ms rs) (jobResult r b) = None \<longleftrightarrow> rJobType r = UnknownJob) \<and> (rJobType r = UnknownJob \<longrightarrow> r = zeroReply)"
proof (cases "r = zeroReply")
  case True
  then show ?thesis using report_unknown by (simp add: zeroReply_def)
next
  case False
  then show ?thesis
    using assms report_map[OF assms(2), of _ n rs b] report_reduce[of _ rs F n ms b] report_other[of "jobResult r b" "mkC F n ms rs"]
    by (auto simp: goodReply_def jobResult_def)
qed

lemma job_available:
  assumes "length ms = length F" "timed MapJob T ms" "timed ReduceJob T rs" "jt \<in> {MapJob, ReduceJob}"
    "stateAt (mkC F n ms rs) (cAllJob (mkC F n ms rs) jt) i = Some st"
  shows "st = Finished \<or> st = UnFinish \<or> st = Doing \<and> (jt, i) \<in> T \<and>
    (\<exists>c. timerFires (mkC F n ms rs) (jt, i) = Some c \<and> stateAt c (cAllJob c jt) i = Some UnFinish)"
proof -
  define k where "k = nat i"
  define ss where "ss = (if jt = MapJob then ms else rs)"
  have k: "i = int k" "k < length ss" "st = ss ! k"
    using assms(1,4,5) by (auto simp: stateAt_jobs Let_def k_def ss_def split: if_splits)
  have "st = Finished \<or> st = UnFinish \<or> st = Doing \<and> (jt, i) \<in> T"
    using assms(2-4) k by (auto simp: timed_def ss_def split: if_splits)
  moreover have "\<exists>c. timerFires (mkC F n ms rs) (jt, i) = Some c \<and> stateAt c (cAllJob c jt) i = Some UnFinish" if "st = Doing"
  proof (cases "jt = MapJob")
    case True
    then show ?thesis using k assms(1) that timer_map[OF assms(1), of k n rs] stateAt_map[of k F n "ms[k := UnFinish]" rs]
      by (simp add: ss_def reset_def)
  next
    case False
    then show ?thesis using k assms(4) that timer_reduce[of k rs F n ms] stateAt_reduce[of k "rs[k := UnFinish]" F n ms]
      by (simp add: ss_def reset_def)
  qed
  ultimately show ?thesis by blast
qed

section \<open>Properties\<close>

text \<open>C30: a finished MapReduce run computes what the sequential program computes.  Whatever the workers do, including crashes in the middle
  of a job, jobs that are executed several times at once, calls that fail, and timers that fire at any moment: when the coordinator
  is done, the output file of a reduce number has exactly the lines of the sequential output whose keys belong to the number, in the same
  order; it is missing only if there are none.  The conditions are: at least one reduce job; no input and no other file at the start
  with a name that begins with \<open>mr-\<close>; a decoder that reads what the encoder writes; a reduce function that does not depend on the
  order of the values; and that the decoder reads no pair from an output file, because a reduce job that is done again also reads the
  output file of its number.  With JSON the last one fails for outputs that begin with the word \<open>null\<close>.\<close>

theorem mapreduce_matches_sequential:
  assumes "mrreach (runApp R) (runFiles R) (runN R) (runDir R) s" "runOK R" "quietOutputs R" "order_free (reducef (runApp R))"
    "mrDone (mrCoord s)" "mrSequential (runApp R) (runDir R) (runFiles R) = Some D"
  shows "\<exists>ls. map_of D ''mr-out-0'' = Some (outText ls) \<and> sorted (map fst ls) \<and> distinct (map fst ls) \<and>
    (\<forall>i. inRange R i \<longrightarrow> outputIs R (mrDir s) ls i)"
proof -
  have so: "sortsPairs (sorter (runApp R))" using assms(2) by (simp add: runOK_def)
  obtain qs qs' where q: "readInputs (mapf (runApp R)) (runDir R) (runFiles R) = Some qs" "mset qs' = mset qs"
      "map_of D ''mr-out-0'' = Some (outText (linesOf (reducef (runApp R)) qs'))"
    using sequential_lines[OF assms(6) so] by blast
  obtain ms rs where inv: "mrInv R s ms rs" using mrreach_inv[OF assms(1-3)] by blast
  have qs: "qs = concat (map (pairsOf R) [0..<length (runFiles R)])"
    using readInputs_pairs[OF q(1)] unfolding pairsOf_def .
  have part: "linesOf (reducef (runApp R)) ps = filter (\<lambda>l. ihash (fst l) mod runN R = i) (linesOf (reducef (runApp R)) qs')"
    if "mset ps = mset (allOf R i)" for ps i
    by (rule order_free.linesOf_part[OF assms(4) _ q(2)]) (use that in \<open>simp only: allOf_filter qs\<close>)
  have "outputIs R (mrDir s) (linesOf (reducef (runApp R)) qs') i" if "inRange R i" for i
    using done_outputs[OF inv assms(5) that]
  proof
    assume n: "map_of (mrDir s) (outFile i) = None \<and> allOf R i = []"
    then have "linesOf (reducef (runApp R)) [] = filter (\<lambda>l. ihash (fst l) mod runN R = i) (linesOf (reducef (runApp R)) qs')"
      by (intro part) simp
    then show ?thesis using n by (simp add: outputIs_def linesOf_def[of _ "[]"])
  next
    assume "\<exists>c. map_of (mrDir s) (outFile i) = Some c \<and> goodOut R i c"
    then obtain ps where "map_of (mrDir s) (outFile i) = Some (outText (linesOf (reducef (runApp R)) ps))" "mset ps = mset (allOf R i)"
      using reduceLoop_lines by (auto simp: goodOut_def)
    then show ?thesis using part by (simp add: outputIs_def)
  qed
  then show ?thesis using q(3) linesOf_sorted by blast
qed

theorem mapreduce_matches_sequential_witness:
  "\<exists>s D ls. demoEnd = Some s \<and> demoSeq = Some D \<and> mrDone (mrCoord s) \<and> map_of D ''mr-out-0'' = Some (outText ls) \<and>
    outputIs demoR (mrDir s) ls 0 \<and> outputIs demoR (mrDir s) ls 1"
proof -
  obtain s where s: "demoEnd = Some s" "mrDone (mrCoord s)" "mrreach (runApp demoR) (runFiles demoR) (runN demoR) (runDir demoR) s"
    using demo_reachable by blast
  obtain D where d: "demoSeq = Some D" using demo_sequential by (cases demoSeq) auto
  have "order_free (reducef (runApp demoR))" using wc.order_free_axioms by (simp add: demoR_def wcApp_def)
  moreover have "mrSequential (runApp demoR) (runDir demoR) (runFiles demoR) = Some D"
    using d unfolding demoSeq_def by (simp add: demoR_def)
  moreover have "inRange demoR 0" "inRange demoR 1" by (simp_all add: inRange_def demoR_def)
  ultimately show ?thesis
    using mapreduce_matches_sequential[OF s(3) demo_runOK _ s(2), of D] s(1,2) d by blast
qed

text \<open>The condition on the output files cannot be left out: in a run of word count over one file with the word \<open>null\<close>, in which a
  second worker gets the reduce job because the first one is slow to report it, the output has an additional line, with the empty
  word.\<close>

theorem mr_null_word:
  "\<exists>s D. mrreach wcApp [''x''] 1 [(''x'', ''null'')] s \<and> mrDone (mrCoord s) \<and> mrSequential wcApp [(''x'', ''null'')] [''x''] = Some D \<and>
    map_of D ''mr-out-0'' = Some (outText [(''null'', ''1'')]) \<and>
    map_of (mrDir s) ''mr-out-0'' = Some (outText [([], ''1''), (''null'', ''1'')])"
proof -
  obtain s where s: "nullEnd = Some s" "mrDone (mrCoord s)" "map_of (mrDir s) ''mr-out-0'' = Some (outText [([], ''1''), (''null'', ''1'')])"
    using null_done(1) by (cases nullEnd) auto
  moreover have "mrreach wcApp [''x''] 1 [(''x'', ''null'')] s"
    using s(1) unfolding nullEnd_def by (rule performAll_reach[OF _ mrreach.start])
  moreover obtain D where "mrSequential wcApp [(''x'', ''null'')] [''x''] = Some D" "map_of D ''mr-out-0'' = Some (outText [(''null'', ''1'')])"
    using null_done(2) by (cases "mrSequential wcApp [(''x'', ''null'')] [''x'']") auto
  ultimately show ?thesis by blast
qed

text \<open>C31: the phases of a MapReduce run.  Reduce jobs are given to workers only when every map job is finished, the reply that lets a worker
  exit is given only when every job is; the coordinator is done only then; and a finished job stays finished, whatever timers and
  late reports do.\<close>

theorem mr_phases:
  assumes "mrreach app F n D s"
  shows "(\<forall>args reply c r t. GetJob (mrCoord s) args reply = Some (c, r, t) \<longrightarrow>
      (rJobType r = ReduceJob \<longrightarrow> allDone (mrCoord s) MapJob) \<and>
      (rJobType r = TerminalJob \<longrightarrow> mrDone (mrCoord s))) \<and>
    (mrDone (mrCoord s) \<longrightarrow> allDone (mrCoord s) MapJob \<and> allDone (mrCoord s) ReduceJob) \<and>
    (\<forall>s' jt i. mrstep app n s s' \<longrightarrow> jt \<in> {MapJob, ReduceJob} \<longrightarrow> stateAt (mrCoord s) (cAllJob (mrCoord s) jt) i = Some Finished \<longrightarrow>
      stateAt (mrCoord s') (cAllJob (mrCoord s') jt) i = Some Finished)"
proof -
  obtain ms rs where inv: "coordInv F n s ms rs" using mrreach_coordInv[OF assms] by blast
  then have c: "mrCoord s = mkC F n ms rs" "length ms = length F" "\<not> allFinished ms \<longrightarrow> (\<forall>x \<in> set rs. x = UnFinish)"
    by (simp_all add: coordInv_def)
  have "(rJobType r = ReduceJob \<longrightarrow> allDone (mrCoord s) MapJob) \<and> (rJobType r = TerminalJob \<longrightarrow> mrDone (mrCoord s))"
    if "GetJob (mrCoord s) args reply = Some (c', r, t)" for args reply c' r t
    by (rule GetJob_cases[OF c(2), of n rs args reply]) (use that[unfolded c(1)] c(2) in \<open>auto simp: c(1) allDone_mkC mrDone_def\<close>)
  moreover have "allDone (mrCoord s) MapJob \<and> allDone (mrCoord s) ReduceJob" if "mrDone (mrCoord s)"
  proof -
    have r: "allFinished rs" using that c(1) by (simp add: mrDone_def)
    then have "\<not> (\<forall>x \<in> set rs. x = UnFinish)" by (cases rs) (auto simp: allFinished_def)
    then show ?thesis using r c by (auto simp: allDone_mkC)
  qed
  moreover have "stateAt (mrCoord s') (cAllJob (mrCoord s') jt) i = Some Finished"
    if st: "mrstep app n s s'" "jt \<in> {MapJob, ReduceJob}" "stateAt (mrCoord s) (cAllJob (mrCoord s) jt) i = Some Finished" for s' jt i
  proof -
    obtain ms' rs' where "coordInv F n s' ms' rs'" "advances s MapJob ms ms'" "advances s ReduceJob rs rs'"
      using coordInv_step[OF st(1) inv] by blast
    then have "mrCoord s' = mkC F n ms' rs'" "length ms' = length F" "advances s MapJob ms ms'" "advances s ReduceJob rs rs'"
      by (auto simp: coordInv_def)
    then show ?thesis using st(2,3) c(1,2)
      by (auto simp: stateAt_jobs Let_def advances_def split: if_splits)
  qed
  ultimately show ?thesis by blast
qed

theorem mr_phases_witness:
  "\<exists>s. demoEnd = Some s \<and> allDone (mrCoord s) MapJob \<and> allDone (mrCoord s) ReduceJob"
  using demo_reachable mr_phases by blast

text \<open>C32: panics in a MapReduce run with at least one reduce job, in which calls may fail.  No call of \<open>GetJob\<close> panics, and none
  answers with the job type 0; no timer panics, and no step of a job, whatever file name and order of the groups it happens to
  get.  A report panics exactly if it has the job type 0, and then the worker had the zero value of the reply, which a failed call
  leaves.\<close>

theorem mr_never_panics:
  assumes "mrreach app F n D s" "0 < n"
  shows "(\<exists>c r t. GetJob (mrCoord s) args reply = Some (c, r, t) \<and> rJobType r \<noteq> UnknownJob) \<and>
    (\<forall>w r b. mrWorkers s w = Finishing r b \<longrightarrow>
      (ReportJobResult (mrCoord s) (jobResult r b) = None \<longleftrightarrow> rJobType r = UnknownJob) \<and>
      (rJobType r = UnknownJob \<longrightarrow> r = zeroReply)) \<and>
    (\<forall>t \<in> set (mrTimers s). timerFires (mrCoord s) t \<noteq> None) \<and>
    (\<forall>w order rand. inJob (mrWorkers s w) \<longrightarrow> jobStep app order rand (mrDir s) (mrWorkers s w) \<noteq> None)"
proof -
  obtain ms rs where inv: "coordInv F n s ms rs" using mrreach_coordInv[OF assms(1)] by blast
  then have c: "mrCoord s = mkC F n ms rs" "length ms = length F" "length rs = nat n" "\<forall>t \<in> set (mrTimers s). jobTimer F n t"
    and g: "\<And>w r. replyOf (mrWorkers s w) = Some r \<Longrightarrow> goodReply F n ms rs r"
    by (simp_all add: coordInv_def)
  have "\<exists>c r t. GetJob (mrCoord s) args reply = Some (c, r, t) \<and> rJobType r \<noteq> UnknownJob"
    by (rule GetJob_cases[OF c(2), of n rs args reply]) (simp_all add: c(1))
  moreover have "(ReportJobResult (mrCoord s) (jobResult r b) = None \<longleftrightarrow> rJobType r = UnknownJob) \<and> (rJobType r = UnknownJob \<longrightarrow> r = zeroReply)"
    if "mrWorkers s w = Finishing r b" for w r b
    using goodReply_report[OF g[of w r] c(2,3)] that c(1) by simp
  moreover have "timerFires (mrCoord s) t \<noteq> None" if "t \<in> set (mrTimers s)" for t
    using c that timer_map[OF c(2), of _ n rs] timer_reduce[of _ rs F n ms] by (auto simp: jobTimer_def)
  moreover have "jobStep app order rand (mrDir s) (mrWorkers s w) \<noteq> None" if w: "inJob (mrWorkers s w)" for w order rand
  proof -
    obtain r where r: "replyOf (mrWorkers s w) = Some r" using w by (cases "mrWorkers s w") auto
    show ?thesis by (rule goodReply_work[OF g[OF r] assms(2) r])
  qed
  ultimately show ?thesis by blast
qed

text \<open>A run in which the first call fails and the worker goes on with the zero value.\<close>

definition failedCall :: MrSys where
  "failedCall = (mrInit [''x''] 1 [])\<lparr>mrWorkers := (\<lambda>_. Asking)(0 := Finishing zeroReply True)\<rparr>"

lemma failedCall_reachable: "mrreach wcApp [''x''] 1 [] failedCall"
proof -
  let ?s = "mrInit [''x''] 1 []"
  let ?s1 = "?s\<lparr>mrWorkers := (mrWorkers ?s)(0 := Got zeroReply)\<rparr>"
  have "mrreach wcApp [''x''] 1 [] ?s1" by (rule mrreach.more[OF mrreach.start mrstep.callFails]) (simp add: mrInit_def)
  moreover have "mrstep wcApp 1 ?s1 (?s1\<lparr>mrDir := mrDir ?s1, mrWorkers := (mrWorkers ?s1)(0 := Finishing zeroReply True)\<rparr>)"
    by (rule mrstep.work[where order = "\<lambda>gs. gs" and rand = "''0''"])
      (simp_all add: permutes_def startJob_def zeroReply_def randOK_good randOK_def Itoa_def natDigits.simps)
  moreover have "?s1\<lparr>mrDir := mrDir ?s1, mrWorkers := (mrWorkers ?s1)(0 := Finishing zeroReply True)\<rparr> = failedCall"
    by (simp add: failedCall_def mrInit_def)
  ultimately show ?thesis using mrreach.more by metis
qed

theorem mr_never_panics_witness:
  "GetJob (mrCoord failedCall) \<lparr> exX = 99 \<rparr> zeroReply \<noteq> None \<and> ReportJobResult (mrCoord failedCall) (jobResult zeroReply True) = None"
proof -
  have "mrWorkers failedCall 0 = Finishing zeroReply True" "rJobType zeroReply = UnknownJob" by (simp_all add: failedCall_def zeroReply_def)
  then show ?thesis using mr_never_panics[OF failedCall_reachable zero_less_one, of "\<lparr> exX = 99 \<rparr>" zeroReply] by fastforce
qed

text \<open>C33: no job gets stuck, when there is at least one input file and one reduce job.  At every moment a job is finished, or waiting to be
  given out, or under way with a pending timer that would make it available again.  And if no timer is pending before the end, the
  next call of \<open>GetJob\<close> gives out a job.\<close>

theorem mr_jobs_never_stuck:
  assumes "mrreach app F n D s" "F \<noteq> []" "0 < n"
  shows "(\<forall>jt i st. jt \<in> {MapJob, ReduceJob} \<longrightarrow> stateAt (mrCoord s) (cAllJob (mrCoord s) jt) i = Some st \<longrightarrow>
      st = Finished \<or> st = UnFinish \<or>
      st = Doing \<and> (jt, i) \<in> set (mrTimers s) \<and>
        (\<exists>c. timerFires (mrCoord s) (jt, i) = Some c \<and> stateAt c (cAllJob c jt) i = Some UnFinish)) \<and>
    (\<not> mrDone (mrCoord s) \<longrightarrow> mrTimers s = [] \<longrightarrow> (\<exists>c r t. GetJob (mrCoord s) args reply = Some (c, r, Some t)))"
proof -
  obtain ms rs where inv: "coordInv F n s ms rs" using mrreach_coordInv[OF assms(1)] by blast
  then have c: "mrCoord s = mkC F n ms rs" "length ms = length F" "length rs = nat n"
    and ti: "timed MapJob (set (mrTimers s)) ms" "timed ReduceJob (set (mrTimers s)) rs" by (simp_all add: coordInv_def)
  have "st = Finished \<or> st = UnFinish \<or> st = Doing \<and> (jt, i) \<in> set (mrTimers s) \<and>
        (\<exists>c. timerFires (mrCoord s) (jt, i) = Some c \<and> stateAt c (cAllJob c jt) i = Some UnFinish)"
    if "jt \<in> {MapJob, ReduceJob}" "stateAt (mrCoord s) (cAllJob (mrCoord s) jt) i = Some st" for jt i st
    using that job_available[OF c(2) ti] by (simp add: c(1))
  moreover have "\<exists>c r t. GetJob (mrCoord s) args reply = Some (c, r, Some t)" if "\<not> mrDone (mrCoord s)" "mrTimers s = []"
  proof -
    have no: "\<not> allFinished rs" using that(1) c(1) by (simp add: mrDone_def)
    have "UnFinish \<in> set ss" if "timed jt {} ss" "\<not> allFinished ss" "ss \<noteq> []" for jt ss
      using that by (fastforce simp: timed_def allFinished_def in_set_conv_nth)
    then have "allFinished ms \<or> UnFinish \<in> set ms" "UnFinish \<in> set rs"
      using ti no that(2) c(2,3) assms(2,3) by (cases "ms = []"; cases "rs = []"; force)+
    then show ?thesis unfolding c(1)
      by (cases rule: GetJob_cases[OF c(2), of n rs args reply]) (simp_all add: no)
  qed
  ultimately show ?thesis by blast
qed

theorem mr_jobs_never_stuck_witness:
  "\<exists>c r t. GetJob (mrCoord (mrInit [''x''] 1 [])) \<lparr> exX = 99 \<rparr> zeroReply = Some (c, r, Some t)"
  using mr_jobs_never_stuck[OF mrreach.start[of wcApp "[''x'']" 1 "[]"]]
  by (simp add: mrInit_def MakeCoordinator_def mrDone_def Let_def)

text \<open>C34: a coordinator without input files never finishes.  Its flag for the map phase is only set in \<open>ReportJobResult\<close>, and there is no job
  to report: every call of \<open>GetJob\<close> answers that the worker is to wait.\<close>

theorem mr_no_input_never_done:
  assumes "mrreach app [] n D s"
  shows "\<not> mrDone (mrCoord s) \<and> GetJob (mrCoord s) args reply = Some (mrCoord s, reply\<lparr>rJobType := WaitJob\<rparr>, None)"
proof -
  obtain ms rs where "coordInv [] n s ms rs" using mrreach_coordInv[OF assms] by blast
  then have c: "mrCoord s = mkC [] n [] rs" "\<forall>x \<in> set rs. x = UnFinish" by (auto simp: coordInv_def allFinished_def)
  then have no: "\<not> allFinished rs" by (cases rs) (auto simp: allFinished_def)
  moreover have "\<not> allFinished []" by (simp add: allFinished_def)
  ultimately show ?thesis by (simp add: c(1) mrDone_def GetJob_def mapJobsWith_def)
qed

theorem mr_no_input_never_done_witness: "\<not> mrDone (mrCoord (mrInit [] 1 []))"
  using mr_no_input_never_done[OF mrreach.start[of wcApp "[]" 1 "[]"]] by simp

text \<open>C35: a worker whose call of \<open>GetJob\<close> fails panics the coordinator.  The reply then still has the zero value of the job type; the worker
  counts this job as a success and reports it; and \<open>ReportJobResult\<close> indexes the slice of a type that is not in \<open>allJob\<close>.\<close>

theorem mr_unknown_job_panics:
  assumes "mrreach app F n D s"
  shows "processJob app order rands fs zeroReply = Some (Some (fs, True)) \<and>
    ReportJobResult (mrCoord s) (jobResult zeroReply True) = None"
proof -
  obtain ms rs where "coordInv F n s ms rs" using mrreach_coordInv[OF assms] by blast
  then have c: "mrCoord s = mkC F n ms rs" by (simp add: coordInv_def)
  have "processJob app order rands fs zeroReply = Some (Some (fs, True))"
    unfolding processJob_def
    by (subst runLoop.simps, simp add: processBody_def startJob_def zeroReply_def orCrash_def)
      (subst runLoop.simps, simp add: processBody_def)
  moreover have "ReportJobResult (mrCoord s) (jobResult zeroReply True) = None"
    by (simp add: c ReportJobResult_def jobResult_def zeroReply_def stateAt_def jobsAt_def idx_def)
  ultimately show ?thesis by blast
qed

theorem mr_unknown_job_panics_witness:
  "ReportJobResult (MakeCoordinator [''x''] 1) (jobResult zeroReply True) = None"
  using mr_unknown_job_panics[OF mrreach.start[of wcApp "[''x'']" 1 "[]"]] by (simp add: mrInit_def)

text \<open>C36: an old timer can undo a newer assignment.  A timer is not stopped when its job is reported, and looks only at the state of the
  job.  There is a run of word count over one file with these states: in \<open>s0\<close> worker 0 has the map job, and the timer of this assignment is
  the only one; the worker fails (\<open>a\<close>) and its report makes the job available (\<open>b\<close>); worker 1 gets the job, which starts a second
  timer behind the first (\<open>s1\<close>); the first timer fires and makes the job available while worker 1 has it, with its own timer still
  pending (\<open>s2\<close>); worker 1 does the job (\<open>s3\<close>); and the success that it reports, before its own timer fires, is ignored: the
  job is to be done again.\<close>

theorem mr_stale_timer:
  "\<exists>s0 a b s1 s2 s3 r c. mrreach wcApp [''y''] 1 [(''y'', ''b'')] s0 \<and> rJobType r = MapJob \<and> rJobId r = 0 \<and>
    mrWorkers s0 0 = Got r \<and> mrTimers s0 = [(MapJob, 0)] \<and> mapJob0 (mrCoord s0) = Some Doing \<and>
    mrstep wcApp 1 s0 a \<and> mrWorkers a 0 = Finishing r False \<and> mrTimers a = mrTimers s0 \<and>
    mrstep wcApp 1 a b \<and> mrWorkers b 0 = Asking \<and> mrTimers b = mrTimers s0 \<and> mapJob0 (mrCoord b) = Some UnFinish \<and>
    mrstep wcApp 1 b s1 \<and> mrWorkers s1 1 = Got r \<and> mrTimers s1 = mrTimers s0 @ [(MapJob, 0)] \<and> mapJob0 (mrCoord s1) = Some Doing \<and>
    timerFires (mrCoord s1) (hd (mrTimers s1)) = Some (mrCoord s2) \<and> s2 = s1\<lparr>mrCoord := mrCoord s2, mrTimers := tl (mrTimers s1)\<rparr> \<and>
    mrstep wcApp 1 s1 s2 \<and> mapJob0 (mrCoord s2) = Some UnFinish \<and>
    (mrstep wcApp 1)\<^sup>*\<^sup>* s2 s3 \<and> mrWorkers s3 1 = Finishing r True \<and> mrTimers s3 = mrTimers s2 \<and>
    ReportJobResult (mrCoord s3) (jobResult r True) = Some c \<and> mapJob0 c = Some UnFinish"
proof -
  have some: "\<exists>s. staleAt k = Some s" if "map_option staleView (staleAt k) = Some x" for k x using that by (cases "staleAt k") auto
  obtain s0 a b where s0: "staleAt 1 = Some s0" "staleAt 2 = Some a" "staleAt 3 = Some b"
    using some[OF stale_views(1)] some[OF stale_views(2)] some[OF stale_views(3)] by auto
  obtain s1 s2 s3 where s1: "staleAt 4 = Some s1" "staleAt 5 = Some s2" "staleAt 8 = Some s3"
    using some[OF stale_views(4)] some[OF stale_views(5)] some[OF stale_views(6)] by auto
  note st = s0 s1
  note v = stale_views[unfolded st option.map staleView_def option.inject prod.inject]
  have p: "perform wcApp 1 (Fail 0) s0 = Some a" "perform wcApp 1 (Report 0) a = Some b" "perform wcApp 1 (Call 1) b = Some s1"
      "perform wcApp 1 Timer s1 = Some s2"
    using staleAt_step[OF _ st(1)] staleAt_step[OF _ st(2)] staleAt_step[OF _ st(3)] staleAt_step[OF _ st(4)] st
    by (simp_all add: staleActs_def eval_nat_numeral)
  have t: "timerFires (mrCoord s1) (hd (mrTimers s1)) = Some (mrCoord s2)" "s2 = s1\<lparr>mrCoord := mrCoord s2, mrTimers := tl (mrTimers s1)\<rparr>"
    using p(4) by (auto split: bool.splits list.splits option.splits)
  have "performAll wcApp 1 (take 3 (drop 5 staleActs)) s2 = Some s3" using staleAt_split[of 5 3, OF _ st(5)] st(6) by simp
  from performAll_steps[OF this] have w: "(mrstep wcApp 1)\<^sup>*\<^sup>* s2 s3" .
  obtain c where c: "ReportJobResult (mrCoord s3) (jobResult staleReply True) = Some c" "mapJob0 c = Some UnFinish"
    using stale_report[unfolded st] by auto
  have "rJobType staleReply = MapJob" "rJobId staleReply = 0" by (simp_all add: staleReply_def)
  then show ?thesis
    using v p[THEN perform_step] t w c staleAt_reach[OF st(1)]
    by (intro exI[of _ s0] exI[of _ a] exI[of _ b] exI[of _ s1] exI[of _ s2] exI[of _ s3] exI[of _ staleReply] exI[of _ c]) simp
qed

text \<open>C37: the partition of a map job.  With at least one reduce job the loop gives every number its pairs, in their order, and no empty
  group; the numbers are those of reduce jobs, because the hash is masked to 31 bits and so never negative; and no pair is lost or
  duplicated.\<close>

theorem mr_partition:
  assumes "0 < nReduce"
  shows "\<exists>imap. groupPairs nReduce pairs [] = Some imap \<and> distinct (map fst imap) \<and>
    (\<forall>(i, ps) \<in> set imap. 0 \<le> i \<and> i < nReduce \<and> ps \<noteq> [] \<and> ps = filter (\<lambda>kv. ihash (kvKey kv) mod nReduce = i) pairs) \<and>
    (\<forall>kv \<in> set pairs. \<exists>ps. (ihash (kvKey kv) mod nReduce, ps) \<in> set imap \<and> kv \<in> set ps)"
proof -
  obtain imap where i: "groupPairs nReduce pairs [] = Some imap" "distinct imap"
      "\<And>i ps. (i, ps) \<in> set imap \<longleftrightarrow> ps = bucket nReduce pairs i \<and> ps \<noteq> []"
    using groupPairs_groups[OF assms, of pairs] by blast
  have "inj_on fst (set imap)" using i(3) by (auto simp: inj_on_def)
  then have "distinct (map fst imap)" using i(2) by (simp add: distinct_map)
  moreover have "\<exists>ps. (ihash (kvKey kv) mod nReduce, ps) \<in> set imap \<and> kv \<in> set ps" if "kv \<in> set pairs" for kv
    using that i(3)[of "ihash (kvKey kv) mod nReduce"] by (auto simp: bucket_def filter_empty_conv)
  moreover have "0 \<le> i \<and> i < nReduce \<and> ps \<noteq> [] \<and> ps = filter (\<lambda>kv. ihash (kvKey kv) mod nReduce = i) pairs"
    if "(i, ps) \<in> set imap" for i ps
    using that i(3)[of i ps] bucket_range[OF assms, of pairs i] by (auto simp: bucket_def)
  ultimately show ?thesis using i(1) by blast
qed

theorem mr_partition_witness: "\<exists>imap. groupPairs 3 [\<lparr> kvKey = ''a'', kvValue = ''1'' \<rparr>] [] = Some imap \<and> distinct (map fst imap)"
  using mr_partition[of 3 "[\<lparr> kvKey = ''a'', kvValue = ''1'' \<rparr>]", OF zero_less_numeral] by blast

end
