(* ===== verification/Labgob.thy ===== *)
theory Labgob
  imports Go_Prelude
begin

text \<open>
  The checks of \<^verbatim>\<open>src/src/labgob/labgob.go\<close>, which wrap Go's encoder and decoder: a warning for every field name that
  does not begin with a capital letter, in all types that a value's type mentions, and a warning for decoding into a variable
  that does not have its zero value.

  Go's types can be recursive.  A type is a number, and the environment says what the number stands for; the global map of
  checked types is a set of numbers.  Whether a name begins with a capital letter is an argument, since it depends on Unicode's
  tables.  The package's lock protects single accesses, and the model is of one goroutine.
\<close>

section \<open>Types\<close>

datatype gotype =
    Struct string "(string \<times> nat) list"
  | Slice nat
  | Array nat
  | Ptr nat
  | Map nat nat
  | Other string

type_synonym typeEnv = "gotype list"

definition typeAt :: "typeEnv \<Rightarrow> nat \<Rightarrow> gotype" where
  "typeAt env t = (if t < length env then env ! t else Other '''')"

record GobState =
  errorCount :: int
  checked :: "nat set"
  warnings :: "string list"

section \<open>Checking a type\<close>

text \<open>The recursion ends because a type is checked once; \<open>fuel\<close> bounds its depth, and \<open>None\<close> is a recursion that needs more.\<close>

function checkType :: "(string \<Rightarrow> bool) \<Rightarrow> typeEnv \<Rightarrow> nat \<Rightarrow> nat \<Rightarrow> GobState \<Rightarrow> GobState option"
  and checkFields :: "(string \<Rightarrow> bool) \<Rightarrow> typeEnv \<Rightarrow> nat \<Rightarrow> (string \<times> nat) list \<Rightarrow> GobState \<Rightarrow> GobState option" where
  "checkType upper env 0 t st = None"
| "checkType upper env (Suc fuel) t st =
    (if t \<in> checked st then Some st
     else let st1 = st\<lparr>checked := insert t (checked st)\<rparr> in
       (case typeAt env t of
          Struct name flds \<Rightarrow> checkFields upper env fuel flds st1
        | Slice elem \<Rightarrow> checkType upper env fuel elem st1
        | Array elem \<Rightarrow> checkType upper env fuel elem st1
        | Ptr elem \<Rightarrow> checkType upper env fuel elem st1
        | Map key elem \<Rightarrow> do {
            st2 \<leftarrow> checkType upper env fuel elem st1;
            checkType upper env fuel key st2 }
        | Other name \<Rightarrow> Some st1))"
| "checkFields upper env fuel [] st = Some st"
| "checkFields upper env fuel ((fname, ftype) # flds) st = do {
     let st1 = (if \<not> upper fname
                then st\<lparr>warnings := warnings st @ [fname], errorCount := errorCount st + 1\<rparr> else st);
     st2 \<leftarrow> checkType upper env fuel ftype st1;
     checkFields upper env fuel flds st2 }"
  by pat_completeness auto
termination
  by (relation "measures [\<lambda>x. case x of Inl (_, _, fuel, _, _) \<Rightarrow> fuel | Inr (_, _, fuel, _, _) \<Rightarrow> fuel,
       \<lambda>x. case x of Inl _ \<Rightarrow> 0 | Inr (_, _, _, flds, _) \<Rightarrow> length flds + 1]") auto

section \<open>Checking for zero values\<close>

text \<open>A value as reflection shows it: a basic value knows whether it is the zero value of its type.\<close>

datatype goval =
    VStruct "(string \<times> goval) list"
  | VPtr "goval option"
  | VBasic string bool
  | VOther

text \<open>The name of a field inside a struct whose own name is \<open>name\<close>.\<close>

definition fieldName :: "string \<Rightarrow> string \<Rightarrow> string" where
  "fieldName name f = (if name \<noteq> [] then name @ ''.'' @ f else f)"

definition warnDefault :: "string \<Rightarrow> string \<Rightarrow> GobState \<Rightarrow> GobState" where
  "warnDefault name tname st =
    (let st1 = (if errorCount st < 1
                then st\<lparr>warnings := warnings st @ [if name = [] then tname else name]\<rparr> else st)
     in st1\<lparr>errorCount := errorCount st1 + 1\<rparr>)"

fun checkDefault1 :: "goval \<Rightarrow> int \<Rightarrow> string \<Rightarrow> GobState \<Rightarrow> GobState"
  and checkDefaultFields :: "(string \<times> goval) list \<Rightarrow> int \<Rightarrow> string \<Rightarrow> GobState \<Rightarrow> GobState" where
  "checkDefault1 (VStruct flds) depth name st =
    (if depth > 3 then st else checkDefaultFields flds depth name st)"
| "checkDefault1 (VPtr None) depth name st = st"
| "checkDefault1 (VPtr (Some v)) depth name st =
    (if depth > 3 then st else checkDefault1 v (depth + 1) name st)"
| "checkDefault1 (VBasic tname isZero) depth name st =
    (if depth > 3 then st else if \<not> isZero then warnDefault name tname st else st)"
| "checkDefault1 VOther depth name st = st"
| "checkDefaultFields [] depth name st = st"
| "checkDefaultFields ((f, v) # flds) depth name st =
    checkDefaultFields flds depth name (checkDefault1 v (depth + 1) (fieldName name f) st)"

definition checkDefault :: "goval option \<Rightarrow> GobState \<Rightarrow> GobState" where
  "checkDefault v st = (case v of None \<Rightarrow> st | Some x \<Rightarrow> checkDefault1 x 1 [] st)"

section \<open>Encoding and decoding\<close>

text \<open>\<open>checkValue\<close> and the wrappers.  The dynamic type of a nil interface is nil, and asking it for its kind panics.  \<open>gob\<close> is what
  the wrapped encoder or decoder does with the value.\<close>

definition checkValue :: "(string \<Rightarrow> bool) \<Rightarrow> typeEnv \<Rightarrow> nat option \<Rightarrow> GobState \<Rightarrow> GobState option" where
  "checkValue upper env t st = (case t of None \<Rightarrow> None | Some t \<Rightarrow> checkType upper env (length env + 1) t st)"

definition LabEncode :: "(string \<Rightarrow> bool) \<Rightarrow> typeEnv \<Rightarrow> ('v \<Rightarrow> 'r) \<Rightarrow> nat option \<Rightarrow> 'v \<Rightarrow> GobState \<Rightarrow> (GobState \<times> 'r) option" where
  "LabEncode upper env gob t e st = map_option (\<lambda>st1. (st1, gob e)) (checkValue upper env t st)"

definition LabDecode :: "(string \<Rightarrow> bool) \<Rightarrow> typeEnv \<Rightarrow> (goval option \<Rightarrow> 'r) \<Rightarrow> nat option \<Rightarrow> goval option \<Rightarrow> GobState \<Rightarrow>
    (GobState \<times> 'r) option" where
  "LabDecode upper env gob t e st = map_option (\<lambda>st1. (checkDefault e st1, gob e)) (checkValue upper env t st)"

section \<open>What is checked\<close>

text \<open>The types that a type mentions, and those it mentions directly or indirectly.\<close>

definition mentions :: "typeEnv \<Rightarrow> nat \<Rightarrow> nat set" where
  "mentions env t = (case typeAt env t of
     Struct name flds \<Rightarrow> snd ` set flds
   | Slice elem \<Rightarrow> {elem} | Array elem \<Rightarrow> {elem} | Ptr elem \<Rightarrow> {elem}
   | Map key elem \<Rightarrow> {key, elem} | Other name \<Rightarrow> {})"

definition typesIn :: "typeEnv \<Rightarrow> nat \<Rightarrow> nat set" where
  "typesIn env t = {u. (t, u) \<in> {(a, b). b \<in> mentions env a}\<^sup>*}"

text \<open>The fields of a type that a warning is for.\<close>

definition badFields :: "(string \<Rightarrow> bool) \<Rightarrow> typeEnv \<Rightarrow> nat \<Rightarrow> nat" where
  "badFields upper env t =
    (case typeAt env t of Struct name flds \<Rightarrow> length (filter (\<lambda>f. \<not> upper (fst f)) flds) | _ \<Rightarrow> 0)"

definition wfTypes :: "typeEnv \<Rightarrow> bool" where
  "wfTypes env \<longleftrightarrow> (\<forall>t < length env. \<forall>u \<in> mentions env t. u < length env)"

text \<open>The set of checked types has every type that its members mention.\<close>

definition settled :: "typeEnv \<Rightarrow> nat set \<Rightarrow> bool" where
  "settled env T \<longleftrightarrow> (\<forall>t \<in> T. mentions env t \<subseteq> T)"

text \<open>What a part of the traversal may do: check further types, all from \<open>R\<close>, with everything they mention, and count the bad
  fields of each once; \<open>extra\<close> counts the fields of a type that is being checked.\<close>

definition extends :: "(string \<Rightarrow> bool) \<Rightarrow> typeEnv \<Rightarrow> nat \<Rightarrow> nat set \<Rightarrow> GobState \<Rightarrow> GobState \<Rightarrow> bool" where
  "extends upper env extra R st st' \<longleftrightarrow> checked st \<subseteq> checked st' \<and> finite (checked st' - checked st) \<and>
     checked st' - checked st \<subseteq> R \<and> (\<forall>u \<in> checked st' - checked st. mentions env u \<subseteq> checked st') \<and>
     errorCount st' = errorCount st + int extra + (\<Sum>u \<in> checked st' - checked st. int (badFields upper env u))"

lemma extends_refl: "extends upper env 0 R st st"
  by (simp add: extends_def)

lemma extends_trans:
  assumes "extends upper env m R st st1" "extends upper env n R' st1 st2"
  shows "extends upper env (m + n) (R \<union> R') st st2"
proof -
  let ?b = "\<lambda>u. int (badFields upper env u)"
  have eq: "checked st2 - checked st = (checked st1 - checked st) \<union> (checked st2 - checked st1)"
    using assms by (auto simp: extends_def)
  have "sum ?b (checked st2 - checked st) = sum ?b (checked st1 - checked st) + sum ?b (checked st2 - checked st1)"
    unfolding eq using assms by (intro sum.union_disjoint) (auto simp: extends_def)
  moreover have "checked st2 - checked st \<subseteq> R \<union> R'" "finite (checked st2 - checked st)"
      "\<forall>u \<in> checked st2 - checked st. mentions env u \<subseteq> checked st2"
    unfolding eq using assms unfolding extends_def by blast+
  ultimately show ?thesis using assms by (auto simp: extends_def)
qed

lemma extends_visit:
  assumes "t \<notin> checked st" "extends upper env (badFields upper env t) R (st\<lparr>checked := insert t (checked st)\<rparr>) st'"
    "mentions env t \<subseteq> checked st'"
  shows "extends upper env 0 (insert t R) st st'"
proof -
  have eq: "checked st' - checked st = insert t (checked st' - insert t (checked st))"
    using assms(1,2) by (auto simp: extends_def)
  have "(\<Sum>u \<in> checked st' - checked st. int (badFields upper env u)) =
      int (badFields upper env t) + (\<Sum>u \<in> checked st' - insert t (checked st). int (badFields upper env u))"
    unfolding eq using assms(2) by (subst sum.insert) (auto simp: extends_def)
  moreover have "\<forall>u \<in> checked st' - checked st. mentions env u \<subseteq> checked st'"
    unfolding eq using assms(2,3) by (auto simp: extends_def)
  moreover have "finite (checked st' - checked st)" "checked st' - checked st \<subseteq> insert t R"
    unfolding eq using assms(2) by (auto simp: extends_def)
  ultimately show ?thesis using assms(2) by (auto simp: extends_def)
qed

lemma typesIn_self [simp]: "t \<in> typesIn env t"
  by (simp add: typesIn_def)

lemma typesIn_mentions: "u \<in> mentions env t \<Longrightarrow> typesIn env u \<subseteq> typesIn env t"
  unfolding typesIn_def by (auto intro: converse_rtrancl_into_rtrancl)

lemma extends_mono: "extends upper env n R st st' \<Longrightarrow> R \<subseteq> R' \<Longrightarrow> extends upper env n R' st st'"
  by (auto simp: extends_def)

text \<open>How many types are left to check.\<close>

definition todo :: "typeEnv \<Rightarrow> GobState \<Rightarrow> nat" where
  "todo env st = card ({..<length env} - checked st)"

lemma todo_visit: "t < length env \<Longrightarrow> t \<notin> checked st \<Longrightarrow> todo env (st\<lparr>checked := insert t (checked st)\<rparr>) < todo env st"
  unfolding todo_def by (intro psubset_card_mono) auto

lemma todo_extends: "extends upper env n R st st' \<Longrightarrow> todo env st' \<le> todo env st"
  unfolding todo_def extends_def by (intro card_mono) auto

lemma extends_bad: "extends upper env (Suc 0) R st (st\<lparr>warnings := w, errorCount := errorCount st + 1\<rparr>)"
  by (simp add: extends_def)

text \<open>Visiting a type whose part of the traversal has been described.\<close>

lemma check_visit:
  assumes "t \<notin> checked st" "st1 = st\<lparr>checked := insert t (checked st)\<rparr>" "extends upper env (badFields upper env t) R st1 st'"
    "mentions env t \<subseteq> checked st'" "R \<subseteq> typesIn env t"
  shows "extends upper env 0 (typesIn env t) st st' \<and> t \<in> checked st'"
  using extends_visit[OF assms(1) assms(3)[unfolded assms(2)] assms(4)] assms(2,3,5)
  by (auto simp: insert_absorb2 intro: extends_mono) (auto simp: extends_def)

lemma check_elem:
  assumes "t \<notin> checked st" "st1 = st\<lparr>checked := insert t (checked st)\<rparr>" "mentions env t = {elem}" "badFields upper env t = 0"
    "\<exists>st'. r = Some st' \<and> extends upper env 0 (typesIn env elem) st1 st' \<and> elem \<in> checked st'"
  shows "\<exists>st'. r = Some st' \<and> extends upper env 0 (typesIn env t) st st' \<and> t \<in> checked st'"
  using assms check_visit[OF assms(1,2), of upper env "typesIn env elem"] typesIn_mentions[of elem env t] by auto

lemma check_map:
  assumes "t \<notin> checked st" "st1 = st\<lparr>checked := insert t (checked st)\<rparr>" "mentions env t = {key, elem}" "badFields upper env t = 0"
    and a: "extends upper env 0 (typesIn env elem) st1 st2" "elem \<in> checked st2"
    and b: "\<exists>st'. r = Some st' \<and> extends upper env 0 (typesIn env key) st2 st' \<and> key \<in> checked st'"
  shows "\<exists>st'. r = Some st' \<and> extends upper env 0 (typesIn env t) st st' \<and> t \<in> checked st'"
proof -
  obtain st' where c: "r = Some st'" "extends upper env 0 (typesIn env key) st2 st'" "key \<in> checked st'" using b by blast
  have "mentions env t \<subseteq> checked st'" using assms(3) a(2) c(2,3) by (auto simp: extends_def)
  moreover have "typesIn env elem \<union> typesIn env key \<subseteq> typesIn env t" using typesIn_mentions[of _ env t] assms(3) by blast
  ultimately show ?thesis
    using check_visit[OF assms(1,2), of upper env _ st'] extends_trans[OF a(1) c(2)] assms(4) c(1) by simp
qed

lemma check_cons:
  assumes st1: "st1 = (if \<not> upper fname then st\<lparr>warnings := warnings st @ [fname], errorCount := errorCount st + 1\<rparr> else st)"
    and e2: "extends upper env 0 (typesIn env ftype) st1 st2" "ftype \<in> checked st2"
    and e3: "extends upper env n R st2 st3" "S \<subseteq> checked st3"
  shows "extends upper env (if upper fname then n else Suc n) (typesIn env ftype \<union> R) st st3" "insert ftype S \<subseteq> checked st3"
proof -
  have e1: "extends upper env (if upper fname then 0 else 1) {} st st1" by (simp add: st1 extends_refl extends_bad)
  show "extends upper env (if upper fname then n else Suc n) (typesIn env ftype \<union> R) st st3"
    using extends_trans[OF extends_trans[OF e1 e2(1)] e3(1)] by (cases "upper fname") simp_all
  show "insert ftype S \<subseteq> checked st3" using e2(2) e3 by (auto simp: extends_def)
qed

text \<open>The check of a type succeeds and does what it should; the check of a list of fields does when that of every type does.\<close>

definition typeDone :: "(string \<Rightarrow> bool) \<Rightarrow> typeEnv \<Rightarrow> nat \<Rightarrow> nat \<Rightarrow> GobState \<Rightarrow> bool" where
  "typeDone upper env fuel t st \<longleftrightarrow>
    (\<exists>st'. checkType upper env fuel t st = Some st' \<and> extends upper env 0 (typesIn env t) st st' \<and> t \<in> checked st')"

lemma checkFields_total:
  assumes T: "\<And>t st. t < length env \<Longrightarrow> todo env st < fuel \<Longrightarrow> typeDone upper env fuel t st"
  shows "\<forall>f \<in> set flds. snd f < length env \<Longrightarrow> todo env st < fuel \<Longrightarrow>
    \<exists>st'. checkFields upper env fuel flds st = Some st' \<and>
      extends upper env (length (filter (\<lambda>f. \<not> upper (fst f)) flds)) (\<Union>f \<in> set flds. typesIn env (snd f)) st st' \<and>
      snd ` set flds \<subseteq> checked st'"
proof (induction flds arbitrary: st)
  case (Cons f flds)
  obtain fname ftype where f: "f = (fname, ftype)" by (cases f)
  define st1 where "st1 = (if \<not> upper fname then st\<lparr>warnings := warnings st @ [fname], errorCount := errorCount st + 1\<rparr> else st)"
  have e1: "todo env st1 = todo env st" by (simp add: st1_def todo_def)
  obtain st2 where e2: "checkType upper env fuel ftype st1 = Some st2" "extends upper env 0 (typesIn env ftype) st1 st2" "ftype \<in> checked st2"
    using T[of ftype st1] Cons.prems f e1 by (auto simp: typeDone_def)
  obtain st3 where e3: "checkFields upper env fuel flds st2 = Some st3"
      "extends upper env (length (filter (\<lambda>f. \<not> upper (fst f)) flds)) (\<Union>f \<in> set flds. typesIn env (snd f)) st2 st3"
      "snd ` set flds \<subseteq> checked st3"
    using Cons.IH[of st2] Cons.prems todo_extends[OF e2(2)] e1 by auto
  have "checkFields upper env fuel (f # flds) st = Some st3" using e2(1) e3(1) by (simp add: f st1_def)
  then show ?case using check_cons[OF st1_def e2(2,3) e3(2,3)] by (cases "upper fname") (simp_all add: f)
qed (simp add: extends_refl)

lemma checkType_step:
  assumes T: "\<And>t st. t < length env \<Longrightarrow> todo env st < fuel \<Longrightarrow> typeDone upper env fuel t st"
    and w: "wfTypes env" and t: "t < length env" and few: "todo env st < Suc fuel" and new: "t \<notin> checked st"
  shows "typeDone upper env (Suc fuel) t st"
proof -
  define st1 where "st1 = st\<lparr>checked := insert t (checked st)\<rparr>"
  have few1: "todo env st1 < fuel" using todo_visit[OF t new] few by (simp add: st1_def)
  have wf: "u < length env" if "u \<in> mentions env t" for u using w t that by (auto simp: wfTypes_def)
  note T1 = T[OF _ few1, unfolded typeDone_def] and elem = check_elem[OF new st1_def]
  show ?thesis
  proof (cases "typeAt env t")
    case (Struct name flds)
    then have m: "mentions env t = snd ` set flds" "badFields upper env t = length (filter (\<lambda>f. \<not> upper (fst f)) flds)"
      by (simp_all add: mentions_def badFields_def)
    obtain st' where "checkFields upper env fuel flds st1 = Some st'"
        "extends upper env (badFields upper env t) (\<Union>f \<in> set flds. typesIn env (snd f)) st1 st'" "mentions env t \<subseteq> checked st'"
      using checkFields_total[OF T _ few1, of flds] wf m by auto
    moreover have "(\<Union>f \<in> set flds. typesIn env (snd f)) \<subseteq> typesIn env t" using typesIn_mentions[of _ env t] m(1) by blast
    ultimately show ?thesis using new Struct check_visit[OF new st1_def] by (simp add: st1_def typeDone_def)
  next
    case (Map key elem)
    then have m: "mentions env t = {key, elem}" "badFields upper env t = 0" by (simp_all add: mentions_def badFields_def)
    obtain st2 where a: "checkType upper env fuel elem st1 = Some st2" "extends upper env 0 (typesIn env elem) st1 st2" "elem \<in> checked st2"
      using T1[of elem] wf m by auto
    have "typeDone upper env fuel key st2" using T[of key st2] wf m few1 todo_extends[OF a(2)] by auto
    then show ?thesis
      using check_map[OF new st1_def m a(2,3)] a(1) new Map by (simp add: st1_def typeDone_def)
  next
    case (Other name)
    then have "mentions env t = {}" "badFields upper env t = 0" by (simp_all add: mentions_def badFields_def)
    then show ?thesis using new Other check_visit[OF new st1_def, of upper env "{}" st1]
      by (simp add: st1_def extends_refl typeDone_def)
  qed (use elem T1 wf new in \<open>simp_all add: mentions_def badFields_def st1_def typeDone_def\<close>)
qed

lemma check_total: "wfTypes env \<Longrightarrow> t < length env \<Longrightarrow> todo env st < fuel \<Longrightarrow> typeDone upper env fuel t st"
proof (induction fuel arbitrary: t st)
  case (Suc fuel)
  show ?case
  proof (cases "t \<in> checked st")
    case True
    then show ?thesis by (auto simp: typeDone_def intro: extends_refl)
  qed (use checkType_step[OF Suc.IH[OF Suc.prems(1)] Suc.prems] in blast)
qed simp

lemma settled_typesIn: "settled env T \<Longrightarrow> t \<in> T \<Longrightarrow> typesIn env t \<subseteq> T"
proof
  fix u
  assume T: "settled env T" "t \<in> T" and "u \<in> typesIn env t"
  then have "(t, u) \<in> {(a, b). b \<in> mentions env a}\<^sup>*" by (simp add: typesIn_def)
  then show "u \<in> T" by (induction rule: rtrancl_induct) (use T in \<open>auto simp: settled_def\<close>)
qed

section \<open>Zero values\<close>

text \<open>The basic values that a decode looks at: those at most three levels below the variable.\<close>

fun nonZero :: "goval \<Rightarrow> int \<Rightarrow> nat" where
  "nonZero (VStruct flds) depth = (if depth > 3 then 0 else sum_list (map (\<lambda>f. nonZero (snd f) (depth + 1)) flds))"
| "nonZero (VPtr None) depth = 0"
| "nonZero (VPtr (Some v)) depth = (if depth > 3 then 0 else nonZero v (depth + 1))"
| "nonZero (VBasic tname isZero) depth = (if depth > 3 \<or> isZero then 0 else 1)"
| "nonZero VOther depth = 0"

lemma checkDefault_counts:
  "errorCount (checkDefault1 v depth name st) = errorCount st + int (nonZero v depth) \<and>
    checked (checkDefault1 v depth name st) = checked st"
  "depth \<le> 3 \<Longrightarrow> errorCount (checkDefaultFields flds depth name st) = errorCount st + int (nonZero (VStruct flds) depth) \<and>
    checked (checkDefaultFields flds depth name st) = checked st"
  by (induction v depth name st and flds depth name st rule: checkDefault1_checkDefaultFields.induct)
    (auto simp: warnDefault_def Let_def)

section \<open>Properties\<close>

text \<open>C40: the check of a type visits everything the type can contain, once.  For types that refer to each other in any way, also
  recursively, the recursion ends; afterwards exactly the types mentioned directly or indirectly have been added to the checked
  ones, and the count has grown by the number of fields in these types whose names do not begin with a capital letter.  A later
  check of any of them adds nothing.\<close>

theorem checkType_complete:
  assumes "wfTypes env" "t < length env" "settled env (checked st)"
  shows "\<exists>st'. checkValue upper env (Some t) st = Some st' \<and> checked st' = checked st \<union> typesIn env t \<and> settled env (checked st') \<and>
    errorCount st' = errorCount st + int (\<Sum>u \<in> typesIn env t - checked st. badFields upper env u) \<and>
    (\<forall>u \<in> typesIn env t. checkValue upper env (Some u) st' = Some st')"
proof -
  have "todo env st < length env + 1" unfolding todo_def
    using card_mono[of "{..<length env}" "{..<length env} - checked st"] by simp
  then obtain st' where st: "checkType upper env (length env + 1) t st = Some st'" "extends upper env 0 (typesIn env t) st st'" "t \<in> checked st'"
    using check_total[OF assms(1,2)] unfolding typeDone_def by blast
  have s: "settled env (checked st')" using st(2) assms(3) unfolding settled_def extends_def by blast
  then have c: "checked st' = checked st \<union> typesIn env t" using settled_typesIn[OF s st(3)] st(2) by (auto simp: extends_def)
  then have "checked st' - checked st = typesIn env t - checked st" by auto
  then have "errorCount st' = errorCount st + int (\<Sum>u \<in> typesIn env t - checked st. badFields upper env u)"
    using st(2) by (simp add: extends_def)
  then show ?thesis using st(1) s c by (simp add: checkValue_def)
qed

text \<open>A list node, with a pointer to the next node and a lower-case field.\<close>

definition nodeEnv :: typeEnv where
  "nodeEnv = [Struct ''Node'' [(''Value'', 2), (''next'', 1)], Ptr 0, Other ''int'']"

theorem checkType_complete_witness:
  "\<exists>st'. checkValue (\<lambda>n. n \<noteq> ''next'') nodeEnv (Some 0) \<lparr> errorCount = 0, checked = {}, warnings = [] \<rparr> = Some st' \<and>
    1 \<in> checked st' \<and> errorCount st' = int (\<Sum>u \<in> typesIn nodeEnv 0. badFields (\<lambda>n. n \<noteq> ''next'') nodeEnv u)"
proof -
  have "wfTypes nodeEnv" by (auto simp: wfTypes_def nodeEnv_def mentions_def typeAt_def less_Suc_eq)
  moreover have "1 \<in> typesIn nodeEnv 0"
    unfolding typesIn_def by (rule CollectI, rule r_into_rtrancl) (simp add: mentions_def typeAt_def nodeEnv_def)
  moreover have "0 < length nodeEnv" by (simp add: nodeEnv_def)
  ultimately show ?thesis
    using checkType_complete[of nodeEnv 0 "\<lparr> errorCount = 0, checked = {}, warnings = [] \<rparr>" "\<lambda>n. n \<noteq> ''next''"]
    by (auto simp: settled_def)
qed

end
