(* ===== verification/Labrpc.thy ===== *)
theory Labrpc
  imports Go_Prelude "HOL-Library.Word"
begin

text \<open>
  The simulated network of \<^verbatim>\<open>src/src/labrpc/labrpc.go\<close>: client ends, the network with its connections and faults, and servers
  that dispatch a request to a method of a service.

  Every function that holds a lock is one function of the model.  \<open>processReq\<close> runs in its own goroutine, waits for a second
  one that executes the handler, and looks at the network before and after: its parts between two waits are functions, and
  their interleaving is in the next theory.  Random numbers are arguments; sleeping has no effect on the state.  The encoder,
  the decoder and reflection are the record \<open>GoRt\<close> of functions on values, types and bytes.  \<open>None\<close> is a panic or a
  call of \<open>log.Fatalf\<close>, which both end the process.
\<close>

section \<open>Values, types and messages\<close>

text \<open>\<open>encoding\<close> gives the bytes written and whether there was no error; \<open>decoding\<close> a value into a variable gives its new content, which
  depends on the old one, and whether there was no error.\<close>

record ('v, 't) GoRt =
  typeOf :: "'v \<Rightarrow> 't"
  zeroOf :: "'t \<Rightarrow> 'v"
  assignable :: "'t \<Rightarrow> 't \<Rightarrow> bool"
  encoding :: "'v \<Rightarrow> string \<times> bool"
  decoding :: "'v \<Rightarrow> string \<Rightarrow> 'v \<times> bool"

record 't reqMsg =
  endname :: string
  svcMeth :: string
  argsType :: 't
  reqArgs :: string

record replyMsg =
  rok :: bool
  rreply :: string

definition noReply :: replyMsg where
  "noReply = \<lparr> rok = False, rreply = [] \<rparr>"

section \<open>Client ends\<close>

record ClientEnd =
  ceName :: string

text \<open>\<open>Call\<close> up to the send, and after the reply has arrived.\<close>

definition callRequest :: "('v, 't) GoRt \<Rightarrow> ClientEnd \<Rightarrow> string \<Rightarrow> 'v \<Rightarrow> 't reqMsg option" where
  "callRequest rt e meth args = (case encoding rt args of (bytes, ok) \<Rightarrow>
     if \<not> ok then None
     else Some \<lparr> endname = ceName e, svcMeth = meth, argsType = typeOf rt args, reqArgs = bytes \<rparr>)"

definition callResult :: "('v, 't) GoRt \<Rightarrow> 'v \<Rightarrow> replyMsg \<Rightarrow> ('v \<times> bool) option" where
  "callResult rt reply rep =
    (if rok rep then (case decoding rt reply (rreply rep) of (reply1, ok) \<Rightarrow> if ok then Some (reply1, True) else None)
     else Some (reply, False))"

section \<open>The network\<close>

text \<open>A server is a pointer, here a number.  A key that is missing from a Go map reads as the zero value.\<close>

record Network =
  reliable :: bool
  longDelays :: bool
  longReordering :: bool
  ends :: "string \<rightharpoonup> ClientEnd"
  enabled :: "string \<rightharpoonup> bool"
  servers :: "string \<rightharpoonup> nat option"
  connections :: "string \<rightharpoonup> string option"
  netDone :: bool
  netCount :: "32 word"
  netBytes :: "64 word"

definition MakeNetwork :: Network where
  "MakeNetwork = \<lparr> reliable = True, longDelays = False, longReordering = False, ends = Map.empty, enabled = Map.empty,
     servers = Map.empty, connections = Map.empty, netDone = False, netCount = 0, netBytes = 0 \<rparr>"

text \<open>The network's goroutine takes a request from the channel.\<close>

definition acceptReq :: "Network \<Rightarrow> 't reqMsg \<Rightarrow> Network" where
  "acceptReq rn xreq = rn\<lparr>netCount := netCount rn + 1, netBytes := netBytes rn + of_nat (length (reqArgs xreq))\<rparr>"

definition Cleanup :: "Network \<Rightarrow> Network option" where
  "Cleanup rn = (if netDone rn then None else Some (rn\<lparr>netDone := True\<rparr>))"

definition Reliable :: "bool \<Rightarrow> Network \<Rightarrow> Network" where
  "Reliable yes rn = rn\<lparr>reliable := yes\<rparr>"

definition LongReordering :: "bool \<Rightarrow> Network \<Rightarrow> Network" where
  "LongReordering yes rn = rn\<lparr>longReordering := yes\<rparr>"

definition LongDelays :: "bool \<Rightarrow> Network \<Rightarrow> Network" where
  "LongDelays yes rn = rn\<lparr>longDelays := yes\<rparr>"

definition isEnabled :: "Network \<Rightarrow> string \<Rightarrow> bool" where
  "isEnabled rn e = (case enabled rn e of Some b \<Rightarrow> b | None \<Rightarrow> False)"

definition serverAt :: "Network \<Rightarrow> string \<Rightarrow> nat option" where
  "serverAt rn sn = (case servers rn sn of Some p \<Rightarrow> p | None \<Rightarrow> None)"

definition readEndnameInfo :: "Network \<Rightarrow> string \<Rightarrow> bool \<times> string option \<times> nat option \<times> bool \<times> bool" where
  "readEndnameInfo rn e =
    (let servername = (case connections rn e of Some sn \<Rightarrow> sn | None \<Rightarrow> None);
         server = (case servername of Some sn \<Rightarrow> serverAt rn sn | None \<Rightarrow> None)
     in (isEnabled rn e, servername, server, reliable rn, longReordering rn))"

definition isServerDead :: "Network \<Rightarrow> string \<Rightarrow> string \<Rightarrow> nat \<Rightarrow> bool" where
  "isServerDead rn e servername server \<longleftrightarrow> \<not> isEnabled rn e \<or> serverAt rn servername \<noteq> Some server"

definition MakeEnd :: "string \<Rightarrow> Network \<Rightarrow> (Network \<times> ClientEnd) option" where
  "MakeEnd e rn =
    (if ends rn e \<noteq> None then None
     else let ce = \<lparr> ceName = e \<rparr> in
       Some (rn\<lparr>ends := (ends rn)(e \<mapsto> ce), enabled := (enabled rn)(e \<mapsto> False), connections := (connections rn)(e \<mapsto> None)\<rparr>, ce))"

definition DeleteEnd :: "string \<Rightarrow> Network \<Rightarrow> Network option" where
  "DeleteEnd e rn =
    (if ends rn e = None then None
     else Some (rn\<lparr>ends := (ends rn)(e := None), enabled := (enabled rn)(e := None), connections := (connections rn)(e := None)\<rparr>))"

definition AddServer :: "string \<Rightarrow> nat \<Rightarrow> Network \<Rightarrow> Network" where
  "AddServer servername rs rn = rn\<lparr>servers := (servers rn)(servername \<mapsto> Some rs)\<rparr>"

definition DeleteServer :: "string \<Rightarrow> Network \<Rightarrow> Network" where
  "DeleteServer servername rn = rn\<lparr>servers := (servers rn)(servername \<mapsto> None)\<rparr>"

definition Connect :: "string \<Rightarrow> string \<Rightarrow> Network \<Rightarrow> Network" where
  "Connect e servername rn = rn\<lparr>connections := (connections rn)(e \<mapsto> Some servername)\<rparr>"

definition Enable :: "string \<Rightarrow> bool \<Rightarrow> Network \<Rightarrow> Network" where
  "Enable e b rn = rn\<lparr>enabled := (enabled rn)(e \<mapsto> b)\<rparr>"

definition GetTotalCount :: "Network \<Rightarrow> int" where
  "GetTotalCount rn = sint (netCount rn)"

definition GetTotalBytes :: "Network \<Rightarrow> int" where
  "GetTotalBytes rn = sint (netBytes rn)"

section \<open>Servers and services\<close>

text \<open>A method as reflection shows it: \<open>mIn2\<close> is the type that the second parameter points to, if it is a pointer; the function maps the
  receiver, the argument and the reply variable to the new receiver and reply.\<close>

record ('o, 'v, 't) Method =
  mName :: string
  mExported :: bool
  mNumIn :: nat
  mIn1 :: 't
  mIn2 :: "'t option"
  mNumOut :: nat
  mFunc :: "'o \<Rightarrow> 'v \<Rightarrow> 'v \<Rightarrow> 'o \<times> 'v"

record ('o, 'v, 't) Service =
  svName :: string
  svRcvr :: nat
  svMethods :: "string \<rightharpoonup> ('o, 'v, 't) Method"

record ('o, 'v, 't) Server =
  services :: "string \<rightharpoonup> ('o, 'v, 't) Service"
  srvCount :: int

definition suitable :: "('o, 'v, 't) Method \<Rightarrow> bool" where
  "suitable m \<longleftrightarrow> \<not> (\<not> mExported m \<or> mNumIn m \<noteq> 3 \<or> mIn2 m = None \<or> mNumOut m \<noteq> 0)"

definition MakeService :: "string \<Rightarrow> nat \<Rightarrow> ('o, 'v, 't) Method list \<Rightarrow> ('o, 'v, 't) Service" where
  "MakeService name rcvr typMethods =
    \<lparr> svName = name, svRcvr = rcvr,
      svMethods = foldl (\<lambda>ms m. if suitable m then ms(mName m \<mapsto> m) else ms) Map.empty typMethods \<rparr>"

definition MakeServer :: "('o, 'v, 't) Server" where
  "MakeServer = \<lparr> services = Map.empty, srvCount = 0 \<rparr>"

definition AddService :: "('o, 'v, 't) Service \<Rightarrow> ('o, 'v, 't) Server \<Rightarrow> ('o, 'v, 't) Server" where
  "AddService svc rs = rs\<lparr>services := (services rs)(svName svc \<mapsto> svc)\<rparr>"

definition GetCount :: "(nat \<Rightarrow> ('o, 'v, 't) Server) \<Rightarrow> Network \<Rightarrow> string \<Rightarrow> int option" where
  "GetCount heap rn servername = map_option (\<lambda>svr. srvCount (heap svr)) (serverAt rn servername)"

text \<open>\<open>strings.LastIndex(s, ".")\<close>.\<close>

definition lastDot :: "string \<Rightarrow> int" where
  "lastDot s = int (length s) - 1 - int (length (takeWhile (\<lambda>c. c \<noteq> CHR ''.'') (rev s)))"

text \<open>\<open>Server.dispatch\<close> under the server's lock, with the service and the name of the method.\<close>

definition lookupService :: "('o, 'v, 't) Server \<Rightarrow> 't reqMsg \<Rightarrow> (('o, 'v, 't) Server \<times> ('o, 'v, 't) Service \<times> string) option" where
  "lookupService rs req = do {
     let rs1 = rs\<lparr>srvCount := srvCount rs + 1\<rparr>;
     let dot = lastDot (svcMeth req);
     serviceName \<leftarrow> slice_to (svcMeth req) dot;
     methodName \<leftarrow> slice_from (svcMeth req) (dot + 1);
     service \<leftarrow> services rs1 serviceName;
     Some (rs1, service, methodName) }"

text \<open>\<open>Service.dispatch\<close>.  The error of decoding the argument and that of encoding the reply are ignored; reflection panics if the
  argument cannot be assigned to the parameter.  The last part of the result is the argument and the reply as values.\<close>

definition serviceDispatch :: "('v, 't) GoRt \<Rightarrow> ('o, 'v, 't) Service \<Rightarrow> string \<Rightarrow> 't reqMsg \<Rightarrow> (nat \<Rightarrow> 'o) \<Rightarrow>
    ((nat \<Rightarrow> 'o) \<times> replyMsg \<times> 'v \<times> 'v) option" where
  "serviceDispatch rt svc methname req objs =
    (case svMethods svc methname of
       None \<Rightarrow> None
     | Some method \<Rightarrow> do {
         let args = fst (decoding rt (zeroOf rt (argsType req)) (reqArgs req));
         replyType \<leftarrow> mIn2 method;
         let replyv = zeroOf rt replyType;
         if \<not> assignable rt (argsType req) (mIn1 method) then None
         else do {
           let (rcvr, reply) = mFunc method (objs (svRcvr svc)) args replyv;
           Some (objs(svRcvr svc := rcvr), \<lparr> rok = True, rreply = fst (encoding rt reply) \<rparr>, args, reply) } })"

section \<open>Processing a request\<close>

record reqInfo =
  inServername :: string
  inServer :: nat
  inReliable :: bool
  inReordering :: bool

text \<open>The beginning of \<open>processReq\<close>: a reply without a server, or the request is dropped, or a goroutine is started for the handler.
  The delay for a disabled connection only postpones the reply.\<close>

definition processBegin :: "Network \<Rightarrow> 't reqMsg \<Rightarrow> int \<Rightarrow> replyMsg + reqInfo" where
  "processBegin rn req rand =
    (case readEndnameInfo rn (endname req) of
       (True, Some servername, Some server, rel, reord) \<Rightarrow>
         if \<not> rel \<and> rand mod 1000 < 100 then Inl noReply
         else Inr \<lparr> inServername = servername, inServer = server, inReliable = rel, inReordering = reord \<rparr>
     | _ \<Rightarrow> Inl noReply)"

text \<open>The end, after the loop has left with the handler's reply or because the server is dead.  With \<open>longReordering\<close> the reply may be
  delayed; then the bytes are counted later.\<close>

definition processEnd :: "Network \<Rightarrow> 't reqMsg \<Rightarrow> reqInfo \<Rightarrow> replyMsg option \<Rightarrow> int \<Rightarrow> Network \<times> replyMsg" where
  "processEnd rn req info reply rand =
    (case reply of
       None \<Rightarrow> (rn, noReply)
     | Some rep \<Rightarrow>
         if isServerDead rn (endname req) (inServername info) (inServer info) then (rn, noReply)
         else if \<not> inReliable info \<and> rand mod 1000 < 100 then (rn, noReply)
         else (rn\<lparr>netBytes := netBytes rn + of_nat (length (rreply rep))\<rparr>, rep))"

end
