(* ===== verification/Labrpc_Sys.thy ===== *)
theory Labrpc_Sys
  imports Labrpc
begin

text \<open>
  Calls over the simulated network as a transition system.  Each call has the goroutine of \<open>processReq\<close> and the one that executes
  the handler; the steps of all calls interleave with each other and with the tester's changes of the network.  A ghost component
  records the executions of handlers.
\<close>

section \<open>Calls\<close>

text \<open>Where \<open>processReq\<close> is: about to begin; in the loop that waits for the handler or notices that the server is dead; after the loop;
  about to send the reply; and after the caller has it.\<close>

datatype mainPc =
    Arrived
  | Waiting reqInfo
  | Left reqInfo "replyMsg option"
  | Replying replyMsg
  | Returned replyMsg

text \<open>Where the goroutine for the handler is.  It goes on when \<open>processReq\<close> has stopped waiting.\<close>

datatype ('o, 'v, 't) dispPc =
    NotStarted
  | Dispatching nat
  | Found "('o, 'v, 't) Service" string
  | Handled replyMsg

record ('o, 'v, 't) Call =
  cReq :: "'t reqMsg"
  cMain :: mainPc
  cDisp :: "('o, 'v, 't) dispPc"

text \<open>An execution of a handler: the number of the call, the address of the receiver, the method, the state before, the argument and the reply.\<close>

record ('o, 'v) Execution =
  xCall :: nat
  xRcvr :: nat
  xMeth :: string
  xBefore :: 'o
  xArgs :: 'v
  xReply :: 'v

record ('o, 'v, 't) RpcSys =
  net :: Network
  srvs :: "nat \<Rightarrow> ('o, 'v, 't) Server"
  objs :: "nat \<Rightarrow> 'o"
  calls :: "('o, 'v, 't) Call list"
  ran :: "('o, 'v) Execution list"

definition setCall :: "nat \<Rightarrow> mainPc \<Rightarrow> ('o, 'v, 't) dispPc \<Rightarrow> ('o, 'v, 't) RpcSys \<Rightarrow> ('o, 'v, 't) RpcSys" where
  "setCall i m d s = s\<lparr>calls := (calls s)[i := (calls s ! i)\<lparr>cMain := m, cDisp := d\<rparr>]\<rparr>"

section \<open>Steps\<close>

text \<open>What the tester may do to the network.\<close>

inductive tester :: "Network \<Rightarrow> Network \<Rightarrow> bool" where
  cleanup: "Cleanup rn = Some rn' \<Longrightarrow> tester rn rn'"
| reliably: "tester rn (Reliable yes rn)"
| reordering: "tester rn (LongReordering yes rn)"
| delays: "tester rn (LongDelays yes rn)"
| makeEnd: "MakeEnd e rn = Some (rn', ce) \<Longrightarrow> tester rn rn'"
| deleteEnd: "DeleteEnd e rn = Some rn' \<Longrightarrow> tester rn rn'"
| addServer: "tester rn (AddServer sn rs rn)"
| deleteServer: "tester rn (DeleteServer sn rn)"
| connecting: "tester rn (Connect e sn rn)"
| enabling: "tester rn (Enable e b rn)"

text \<open>A caller sends; everything else that happens to a call, with the random numbers that the code draws.\<close>

definition sendCall :: "'t reqMsg \<Rightarrow> ('o, 'v, 't) RpcSys \<Rightarrow> ('o, 'v, 't) RpcSys" where
  "sendCall req s = s\<lparr>net := acceptReq (net s) req, calls := calls s @ [\<lparr> cReq = req, cMain = Arrived, cDisp = NotStarted \<rparr>]\<rparr>"

inductive callstep :: "('v, 't) GoRt \<Rightarrow> ('o, 'v, 't) RpcSys \<Rightarrow> ('o, 'v, 't) RpcSys \<Rightarrow> bool" for rt where
  refused: "i < length (calls s) \<Longrightarrow> cMain (calls s ! i) = Arrived \<Longrightarrow> processBegin (net s) (cReq (calls s ! i)) rand = Inl rep \<Longrightarrow>
    callstep rt s (setCall i (Replying rep) NotStarted s)"
| started: "i < length (calls s) \<Longrightarrow> cMain (calls s ! i) = Arrived \<Longrightarrow> processBegin (net s) (cReq (calls s ! i)) rand = Inr info \<Longrightarrow>
    callstep rt s (setCall i (Waiting info) (Dispatching (inServer info)) s)"
| found: "i < length (calls s) \<Longrightarrow> cDisp (calls s ! i) = Dispatching p \<Longrightarrow>
    lookupService (srvs s p) (cReq (calls s ! i)) = Some (rs, svc, meth) \<Longrightarrow>
    callstep rt s (setCall i (cMain (calls s ! i)) (Found svc meth) (s\<lparr>srvs := (srvs s)(p := rs)\<rparr>))"
| handled: "i < length (calls s) \<Longrightarrow> cDisp (calls s ! i) = Found svc meth \<Longrightarrow>
    serviceDispatch rt svc meth (cReq (calls s ! i)) (objs s) = Some (os, rep, args, reply) \<Longrightarrow>
    callstep rt s (setCall i (cMain (calls s ! i)) (Handled rep) (s\<lparr>objs := os, ran := ran s @
      [\<lparr> xCall = i, xRcvr = svRcvr svc, xMeth = meth, xBefore = objs s (svRcvr svc), xArgs = args, xReply = reply \<rparr>]\<rparr>))"
| noticed: "i < length (calls s) \<Longrightarrow> cMain (calls s ! i) = Waiting info \<Longrightarrow> cDisp (calls s ! i) = Handled rep \<Longrightarrow>
    callstep rt s (setCall i (Left info (Some rep)) (Handled rep) s)"
| died: "i < length (calls s) \<Longrightarrow> cMain (calls s ! i) = Waiting info \<Longrightarrow>
    isServerDead (net s) (endname (cReq (calls s ! i))) (inServername info) (inServer info) \<Longrightarrow>
    callstep rt s (setCall i (Left info None) (cDisp (calls s ! i)) s)"
| ended: "i < length (calls s) \<Longrightarrow> cMain (calls s ! i) = Left info reply \<Longrightarrow>
    processEnd (net s) (cReq (calls s ! i)) info reply rand = (rn, rep) \<Longrightarrow>
    callstep rt s (setCall i (Replying rep) (cDisp (calls s ! i)) (s\<lparr>net := rn\<rparr>))"
| returned: "i < length (calls s) \<Longrightarrow> cMain (calls s ! i) = Replying rep \<Longrightarrow>
    callstep rt s (setCall i (Returned rep) (cDisp (calls s ! i)) s)"

inductive rpcstep :: "('v, 't) GoRt \<Rightarrow> ('o, 'v, 't) RpcSys \<Rightarrow> ('o, 'v, 't) RpcSys \<Rightarrow> bool" for rt where
  sent: "callRequest rt e meth args = Some req \<Longrightarrow> rpcstep rt s (sendCall req s)"
| processed: "callstep rt s s' \<Longrightarrow> rpcstep rt s s'"
| tested: "tester (net s) rn \<Longrightarrow> rpcstep rt s (s\<lparr>net := rn\<rparr>)"

definition rpcInit :: "Network \<Rightarrow> (nat \<Rightarrow> ('o, 'v, 't) Server) \<Rightarrow> (nat \<Rightarrow> 'o) \<Rightarrow> ('o, 'v, 't) RpcSys" where
  "rpcInit rn rss os = \<lparr> net = rn, srvs = rss, objs = os, calls = [], ran = [] \<rparr>"

inductive rpcreach :: "('v, 't) GoRt \<Rightarrow> ('o, 'v, 't) RpcSys \<Rightarrow> ('o, 'v, 't) RpcSys \<Rightarrow> bool" for rt s0 where
  start: "rpcreach rt s0 s0"
| more: "rpcreach rt s0 s \<Longrightarrow> rpcstep rt s s' \<Longrightarrow> rpcreach rt s0 s'"

section \<open>The invariant of a call\<close>

definition executions :: "('o, 'v, 't) RpcSys \<Rightarrow> nat \<Rightarrow> ('o, 'v) Execution list" where
  "executions s i = filter (\<lambda>x. xCall x = i) (ran s)"

text \<open>An execution that belongs to a call and gave a reply message.\<close>

definition produced :: "('v, 't) GoRt \<Rightarrow> ('o, 'v, 't) RpcSys \<Rightarrow> nat \<Rightarrow> replyMsg \<Rightarrow> bool" where
  "produced rt s i rep \<longleftrightarrow> (\<exists>x. executions s i = [x] \<and>
     xArgs x = fst (decoding rt (zeroOf rt (argsType (cReq (calls s ! i)))) (reqArgs (cReq (calls s ! i)))) \<and>
     rep = \<lparr> rok = True, rreply = fst (encoding rt (xReply x)) \<rparr>)"

fun mainOK :: "mainPc \<Rightarrow> ('o, 'v, 't) dispPc \<Rightarrow> bool" where
  "mainOK Arrived d \<longleftrightarrow> d = NotStarted"
| "mainOK (Waiting info) d \<longleftrightarrow> d \<noteq> NotStarted"
| "mainOK (Left info None) d \<longleftrightarrow> True"
| "mainOK (Left info (Some rep)) d \<longleftrightarrow> d = Handled rep"
| "mainOK (Replying rep) d \<longleftrightarrow> (rok rep \<longrightarrow> d = Handled rep)"
| "mainOK (Returned rep) d \<longleftrightarrow> (rok rep \<longrightarrow> d = Handled rep)"

definition callOK :: "('v, 't) GoRt \<Rightarrow> ('o, 'v, 't) RpcSys \<Rightarrow> nat \<Rightarrow> bool" where
  "callOK rt s i \<longleftrightarrow> mainOK (cMain (calls s ! i)) (cDisp (calls s ! i)) \<and>
     (case cDisp (calls s ! i) of Handled rep \<Rightarrow> produced rt s i rep | _ \<Rightarrow> executions s i = [])"

definition rpcInv :: "('v, 't) GoRt \<Rightarrow> ('o, 'v, 't) RpcSys \<Rightarrow> bool" where
  "rpcInv rt s \<longleftrightarrow> (\<forall>i < length (calls s). callOK rt s i) \<and> (\<forall>x \<in> set (ran s). xCall x < length (calls s))"

lemma setCall_sel [simp]:
  "net (setCall i m d s) = net s" "srvs (setCall i m d s) = srvs s" "objs (setCall i m d s) = objs s"
  "ran (setCall i m d s) = ran s" "length (calls (setCall i m d s)) = length (calls s)"
  "executions (setCall i m d s) j = executions s j"
  by (simp_all add: setCall_def executions_def)

lemma setCall_nth [simp]:
  "i < length (calls s) \<Longrightarrow> calls (setCall i m d s) ! i = (calls s ! i)\<lparr>cMain := m, cDisp := d\<rparr>"
  "j \<noteq> i \<Longrightarrow> calls (setCall i m d s) ! j = calls s ! j"
  by (simp_all add: setCall_def)

text \<open>A step of one call leaves the others alone.\<close>

lemma callOK_other:
  assumes "callOK rt s j" "calls s' ! j = calls s ! j" "executions s' j = executions s j"
  shows "callOK rt s' j"
  using assms by (simp add: callOK_def produced_def cong: dispPc.case_cong)

lemma rpcInv_setCall:
  assumes "rpcInv rt s" "i < length (calls s)" "calls t = calls s"
    "\<And>j. j \<noteq> i \<Longrightarrow> executions t j = executions s j" "\<forall>x \<in> set (ran t). xCall x < length (calls s)"
    "callOK rt (setCall i m d t) i"
  shows "rpcInv rt (setCall i m d t)"
  unfolding rpcInv_def
proof (intro conjI allI impI)
  fix j
  assume "j < length (calls (setCall i m d t))"
  then show "callOK rt (setCall i m d t) j"
    using assms callOK_other[of rt s j "setCall i m d t"] by (cases "j = i") (simp_all add: rpcInv_def)
qed (use assms(3,5) in simp)

text \<open>Steps that execute nothing.\<close>

definition handledBy :: "('o, 'v, 't) dispPc \<Rightarrow> replyMsg option" where
  "handledBy d = (case d of Handled rep \<Rightarrow> Some rep | _ \<Rightarrow> None)"

lemma handledBy_simps [simp]:
  "handledBy (Handled rep) = Some rep" "handledBy NotStarted = None" "handledBy (Dispatching p) = None" "handledBy (Found svc meth) = None"
  by (simp_all add: handledBy_def)

lemma callOK_iff:
  "callOK rt s i \<longleftrightarrow> mainOK (cMain (calls s ! i)) (cDisp (calls s ! i)) \<and>
     (case handledBy (cDisp (calls s ! i)) of Some rep \<Rightarrow> produced rt s i rep | None \<Rightarrow> executions s i = [])"
  by (simp add: callOK_def handledBy_def split: dispPc.splits)

lemma rpcInv_quiet:
  assumes "rpcInv rt s" "i < length (calls s)" "calls t = calls s" "ran t = ran s" "mainOK m d"
    "handledBy d = handledBy (cDisp (calls s ! i))"
  shows "rpcInv rt (setCall i m d t)"
proof -
  have ok: "callOK rt s i" "\<forall>x \<in> set (ran s). xCall x < length (calls s)" using assms(1,2) by (auto simp: rpcInv_def)
  have e: "executions t j = executions s j" for j using assms(4) by (simp add: executions_def)
  have "calls (setCall i m d t) ! i = (calls s ! i)\<lparr>cMain := m, cDisp := d\<rparr>" using assms(2,3) by simp
  then have "callOK rt (setCall i m d t) i"
    using ok(1) assms(5,6) e by (simp add: callOK_iff produced_def cong: option.case_cong)
  then show ?thesis using rpcInv_setCall[OF assms(1-3) e] ok(2) assms(4) by simp
qed

lemma mainOK_handled: "mainOK m (Found svc meth) \<Longrightarrow> mainOK m (Handled rep)"
  by (cases m) (auto elim: mainOK.elims)

lemma mainOK_found: "mainOK m (Dispatching p) \<Longrightarrow> mainOK m (Found svc meth)"
  by (cases m) (auto elim: mainOK.elims)

lemma processEnd_reply: "processEnd rn req info reply rand = (rn', rep) \<Longrightarrow> rok rep \<Longrightarrow> reply = Some rep"
  by (auto simp: processEnd_def noReply_def split: option.splits if_splits)

lemma processBegin_reply: "processBegin rn req rand = Inl rep \<Longrightarrow> \<not> rok rep"
  by (auto simp: processBegin_def noReply_def split: prod.splits bool.splits option.splits if_splits)

lemma serviceDispatch_reply:
  "serviceDispatch rt svc meth req os = Some (os', rep, args, reply) \<Longrightarrow>
    args = fst (decoding rt (zeroOf rt (argsType req)) (reqArgs req)) \<and> rep = \<lparr> rok = True, rreply = fst (encoding rt reply) \<rparr>"
  by (auto simp: serviceDispatch_def Let_def split: option.splits bind_splits if_splits prod.splits)

lemma rpcInv_call:
  assumes "callstep rt s s'" "rpcInv rt s"
  shows "rpcInv rt s'"
proof -
  have ok: "callOK rt s i" if "i < length (calls s)" for i using that assms(2) by (simp add: rpcInv_def)
  note ok = ok[unfolded callOK_iff]
  show ?thesis using assms(1)
  proof cases
    case (handled i svc meth os rep args reply)
    let ?t = "s\<lparr>objs := os, ran := ran s @ [\<lparr> xCall = i, xRcvr = svRcvr svc, xMeth = meth, xBefore = objs s (svRcvr svc), xArgs = args, xReply = reply \<rparr>]\<rparr>"
    have "executions s i = []" "mainOK (cMain (calls s ! i)) (Found svc meth)" using ok[OF handled(2)] handled(3) by simp_all
    then have "callOK rt (setCall i (cMain (calls s ! i)) (Handled rep) ?t) i"
      using handled(2) serviceDispatch_reply[OF handled(4)] mainOK_handled[of "cMain (calls s ! i)" svc meth rep]
      by (simp add: callOK_def produced_def executions_def setCall_def)
    then show ?thesis using assms(2) handled(2) unfolding handled(1)
      by (intro rpcInv_setCall[OF assms(2)]) (auto simp: rpcInv_def executions_def)
  next
    case (refused i rand rep)
    then show ?thesis using ok[of i] processBegin_reply[OF refused(4)] by (auto intro!: rpcInv_quiet[OF assms(2)])
  next
    case (started i rand info)
    then show ?thesis using ok[of i] by (auto intro!: rpcInv_quiet[OF assms(2)])
  next
    case (found i p rs svc meth)
    then show ?thesis using ok[of i] mainOK_found[of _ p] by (auto intro!: rpcInv_quiet[OF assms(2)])
  next
    case (noticed i info rep)
    then show ?thesis by (auto intro!: rpcInv_quiet[OF assms(2)])
  next
    case (died i info)
    then show ?thesis by (auto intro!: rpcInv_quiet[OF assms(2)])
  next
    case (ended i info reply rand rn rep)
    then show ?thesis using ok[of i] processEnd_reply[OF ended(4)] by (auto intro!: rpcInv_quiet[OF assms(2)])
  next
    case (returned i rep)
    then show ?thesis using ok[of i] by (auto intro!: rpcInv_quiet[OF assms(2)])
  qed
qed

lemma rpcInv_send: "rpcInv rt s \<Longrightarrow> rpcInv rt (sendCall req s)"
proof -
  assume inv: "rpcInv rt s"
  have e: "executions (sendCall req s) i = executions s i" for i by (simp add: executions_def sendCall_def)
  have "callOK rt (sendCall req s) i" if "i < length (calls (sendCall req s))" for i
  proof (cases "i < length (calls s)")
    case True
    then have "callOK rt s i" "calls (sendCall req s) ! i = calls s ! i" using inv by (simp_all add: rpcInv_def sendCall_def nth_append)
    then show ?thesis using e by (rule callOK_other)
  next
    case False
    then have "i = length (calls s)" using that by (simp add: sendCall_def)
    moreover have "executions s (length (calls s)) = []" using inv by (auto simp: rpcInv_def executions_def filter_empty_conv)
    ultimately show ?thesis using e by (simp add: callOK_def sendCall_def)
  qed
  then show ?thesis using inv by (auto simp: rpcInv_def sendCall_def)
qed

lemma rpcInv_net: "rpcInv rt s \<Longrightarrow> rpcInv rt (s\<lparr>net := rn\<rparr>)"
  by (simp add: rpcInv_def callOK_def produced_def executions_def cong: dispPc.case_cong)

lemma rpcInv_step: "rpcstep rt s s' \<Longrightarrow> rpcInv rt s \<Longrightarrow> rpcInv rt s'"
  by (induction rule: rpcstep.induct) (auto intro: rpcInv_send rpcInv_call rpcInv_net)

lemma rpcInv_init: "rpcInv rt (rpcInit rn rss os)"
  by (simp add: rpcInv_def rpcInit_def)

lemma rpcreach_inv: "rpcreach rt s0 s \<Longrightarrow> rpcInv rt s0 \<Longrightarrow> rpcInv rt s"
  by (induction rule: rpcreach.induct) (auto intro: rpcInv_step)

end
