(* ===== verification/Labrpc_Kv.thy ===== *)
theory Labrpc_Kv
  imports Labrpc_Sys Kv_SrvLin
begin

text \<open>
  The key/value server of \<^verbatim>\<open>src/src/kvsrv\<close> on the network of \<^verbatim>\<open>src/src/labrpc\<close>.  Clerks send their requests as calls, which the
  network drops, delays or answers; the dispatcher finds the method by its name and runs it on the server.  A forward simulation
  into the system of \<open>Kv_SrvSys\<close>, whose network is an abstraction of this one, carries the server's properties over.
\<close>

section \<open>The server as a service\<close>

datatype KvTy = TGetArgs | TPutAppendArgs | TReply

datatype KvVal = VGetArgs GetArgs | VPutAppendArgs PutAppendArgs | VReply Reply

fun kvTypeOf :: "KvVal \<Rightarrow> KvTy" where
  "kvTypeOf (VGetArgs _) = TGetArgs"
| "kvTypeOf (VPutAppendArgs _) = TPutAppendArgs"
| "kvTypeOf (VReply _) = TReply"

fun kvZeroOf :: "KvTy \<Rightarrow> KvVal" where
  "kvZeroOf TGetArgs = VGetArgs \<lparr> GKey = [], GClientId = 0, GAckSeq = 0 \<rparr>"
| "kvZeroOf TPutAppendArgs = VPutAppendArgs \<lparr> PKey = [], PValue = [], PClientId = 0, PAckSeq = 0 \<rparr>"
| "kvZeroOf TReply = VReply zeroReply"

text \<open>What a run relies on in the encoder and the decoder: every value can be encoded, decoding into a zero variable gives the value
  back, and decoding into a reply merges, since zero fields are not transmitted.\<close>

definition kvCodec :: "(KvVal, KvTy) GoRt \<Rightarrow> bool" where
  "kvCodec rt \<longleftrightarrow> typeOf rt = kvTypeOf \<and> zeroOf rt = kvZeroOf \<and> (\<forall>t. assignable rt t t) \<and> (\<forall>v. snd (encoding rt v)) \<and>
     (\<forall>v. fst (decoding rt (kvZeroOf (kvTypeOf v)) (fst (encoding rt v))) = v) \<and>
     (\<forall>old new. decoding rt (VReply old) (fst (encoding rt (VReply new))) = (VReply (decodeReply old new), True))"

text \<open>Methods on their parameters as values.\<close>

definition onGet :: "(KVServer \<Rightarrow> GetArgs \<Rightarrow> Reply \<Rightarrow> KVServer \<times> Reply) \<Rightarrow> KVServer \<Rightarrow> KvVal \<Rightarrow> KvVal \<Rightarrow> KVServer \<times> KvVal" where
  "onGet f kv a r = (case (a, r) of (VGetArgs x, VReply y) \<Rightarrow> map_prod id VReply (f kv x y) | _ \<Rightarrow> (kv, r))"

definition onPutAppend :: "(KVServer \<Rightarrow> PutAppendArgs \<Rightarrow> Reply \<Rightarrow> KVServer \<times> Reply) \<Rightarrow> KVServer \<Rightarrow> KvVal \<Rightarrow> KvVal \<Rightarrow> KVServer \<times> KvVal" where
  "onPutAppend f kv a r = (case (a, r) of (VPutAppendArgs x, VReply y) \<Rightarrow> map_prod id VReply (f kv x y) | _ \<Rightarrow> (kv, r))"

definition kvMethod :: "string \<Rightarrow> KvTy \<Rightarrow> nat \<Rightarrow> (KVServer \<Rightarrow> KvVal \<Rightarrow> KvVal \<Rightarrow> KVServer \<times> KvVal) \<Rightarrow> (KVServer, KvVal, KvTy) Method" where
  "kvMethod name t nout f =
    \<lparr> mName = name, mExported = True, mNumIn = 3, mIn1 = t, mIn2 = Some TReply, mNumOut = nout, mFunc = f \<rparr>"

text \<open>The method set of \<open>*KVServer\<close>, in the order of reflection.  The two checks return a value and so are no handlers.\<close>

definition kvMethods :: "(KVServer, KvVal, KvTy) Method list" where
  "kvMethods =
    [kvMethod ''Append'' TPutAppendArgs 0 (onPutAppend Append),
     kvMethod ''CheckReadOpNecessary'' TGetArgs 1 (onGet (\<lambda>kv a r. (kv, snd (CheckReadOpNecessary kv a r)))),
     kvMethod ''CheckWriteOpNecessary'' TPutAppendArgs 1 (onPutAppend (\<lambda>kv a r. (kv, snd (CheckWriteOpNecessary kv a r)))),
     kvMethod ''Get'' TGetArgs 0 (onGet Get),
     kvMethod ''MaintainRState'' TGetArgs 0 (onGet MaintainRState),
     kvMethod ''MaintainState'' TPutAppendArgs 0 (onPutAppend MaintainState),
     kvMethod ''Put'' TPutAppendArgs 0 (onPutAppend Put)]"

definition kvService :: "(KVServer, KvVal, KvTy) Service" where
  "kvService = MakeService ''KVServer'' 0 kvMethods"

definition kvServerEnd :: "(KVServer, KvVal, KvTy) Server" where
  "kvServerEnd = AddService kvService MakeServer"

text \<open>How a clerk's request goes over the wire.\<close>

fun methodOf :: "Request \<Rightarrow> string" where
  "methodOf (RGet _) = ''Get''"
| "methodOf (RPut _) = ''Put''"
| "methodOf (RAppend _) = ''Append''"

fun argsOf :: "Request \<Rightarrow> KvVal" where
  "argsOf (RGet a) = VGetArgs a"
| "argsOf (RPut a) = VPutAppendArgs a"
| "argsOf (RAppend a) = VPutAppendArgs a"

definition wire :: "(KvVal, KvTy) GoRt \<Rightarrow> ClientEnd \<Rightarrow> Request \<Rightarrow> KvTy reqMsg option" where
  "wire rt e r = callRequest rt e (''KVServer.'' @ methodOf r) (argsOf r)"

lemma wire_eq:
  "kvCodec rt \<Longrightarrow> wire rt e r = Some \<lparr> endname = ceName e, svcMeth = ''KVServer.'' @ methodOf r, argsType = kvTypeOf (argsOf r),
     reqArgs = fst (encoding rt (argsOf r)) \<rparr>"
  by (cases "encoding rt (argsOf r)") (auto simp: wire_def callRequest_def kvCodec_def dest: spec[of _ "argsOf r"])

lemma wire_meth: "kvCodec rt \<Longrightarrow> wire rt e r = Some q \<Longrightarrow> svcMeth q = ''KVServer.'' @ methodOf r"
  using wire_eq[of rt e r] by (metis option.sel reqMsg.select_convs(2))

lemma request_eqI: "methodOf r = methodOf r' \<Longrightarrow> argsOf r = argsOf r' \<Longrightarrow> r = r'"
  by (cases r; cases r') simp_all

lemma wire_inj:
  assumes "kvCodec rt" "wire rt e r = Some q" "wire rt e' r' = Some q"
  shows "r = r'"
proof (rule request_eqI)
  have d: "fst (decoding rt (kvZeroOf (kvTypeOf v)) (fst (encoding rt v))) = v" for v using assms(1) by (simp add: kvCodec_def)
  have q: "q = \<lparr> endname = ceName e, svcMeth = ''KVServer.'' @ methodOf r, argsType = kvTypeOf (argsOf r), reqArgs = fst (encoding rt (argsOf r)) \<rparr>"
      "q = \<lparr> endname = ceName e', svcMeth = ''KVServer.'' @ methodOf r', argsType = kvTypeOf (argsOf r'), reqArgs = fst (encoding rt (argsOf r')) \<rparr>"
    using assms(2,3) wire_eq[OF assms(1)] by simp_all
  then show "methodOf r = methodOf r'" by simp
  have "kvTypeOf (argsOf r) = kvTypeOf (argsOf r')" "fst (encoding rt (argsOf r)) = fst (encoding rt (argsOf r'))" using q by simp_all
  then show "argsOf r = argsOf r'" using d[of "argsOf r"] d[of "argsOf r'"] by metis
qed

text \<open>The dispatcher finds the handler, and the handler is \<open>serve\<close>.\<close>

lemma lastDot_methodOf: "lastDot (''KVServer.'' @ methodOf r) = 8"
  by (cases r) (simp_all add: lastDot_def)

lemma lookup_kv:
  assumes "services rs = services kvServerEnd" "svcMeth req = ''KVServer.'' @ methodOf r"
  shows "lookupService rs req = Some (rs\<lparr>srvCount := srvCount rs + 1\<rparr>, kvService, methodOf r)"
  using assms lastDot_methodOf[of r]
  by (simp add: lookupService_def Let_def slice_to_def slice_from_def kvServerEnd_def AddService_def kvService_def MakeService_def)

lemma dispatch_kv:
  assumes "kvCodec rt" "wire rt e r = Some req"
  shows "serviceDispatch rt kvService (methodOf r) req os =
    Some (os(0 := fst (serve (os 0) r)), \<lparr> rok = True, rreply = fst (encoding rt (VReply (snd (serve (os 0) r)))) \<rparr>,
      argsOf r, VReply (snd (serve (os 0) r)))"
proof -
  have rt: "zeroOf rt = kvZeroOf" "assignable rt t t" "fst (decoding rt (kvZeroOf (kvTypeOf v)) (fst (encoding rt v))) = v" for t v
    using assms(1) by (auto simp: kvCodec_def)
  have q: "argsType req = kvTypeOf (argsOf r)" "reqArgs req = fst (encoding rt (argsOf r))"
    using assms(2) wire_eq[OF assms(1)] by auto
  have args: "fst (decoding rt (zeroOf rt (argsType req)) (reqArgs req)) = argsOf r" by (simp add: q rt)
  obtain f where f: "svMethods kvService (methodOf r) = Some (kvMethod (methodOf r) (kvTypeOf (argsOf r)) 0 f)"
      "f (os 0) (argsOf r) (VReply zeroReply) = map_prod id VReply (serve (os 0) r)"
    by (cases r) (simp_all add: kvService_def MakeService_def kvMethods_def kvMethod_def suitable_def onGet_def onPutAppend_def)
  show ?thesis
    unfolding serviceDispatch_def args f(1) by (simp add: kvMethod_def q(1) rt f(2) kvService_def MakeService_def map_prod_def case_prod_beta)
qed

section \<open>The system\<close>

text \<open>An operation under way has its reply variable and the call that it waits for, if any.\<close>

record LabKv =
  rpc :: "(KVServer, KvVal, KvTy) RpcSys"
  lkClerks :: "int \<Rightarrow> Clerk"
  lkOps :: "Request \<rightharpoonup> Reply \<times> nat option"
  lkHist :: "Ev list"

definition labInit :: LabKv where
  "labInit = \<lparr> rpc = rpcInit MakeNetwork (\<lambda>_. kvServerEnd) (\<lambda>_. StartKVServer), lkClerks = MakeClerk, lkOps = Map.empty, lkHist = [] \<rparr>"

definition labBegin :: "LabKv \<Rightarrow> int \<Rightarrow> Clerk \<times> Request \<Rightarrow> LabKv" where
  "labBegin s c ckr = s\<lparr>lkClerks := (lkClerks s)(c := fst ckr), lkOps := (lkOps s)(snd ckr \<mapsto> (zeroReply, None)),
     lkHist := lkHist s @ [Inv (snd ckr)]\<rparr>"

text \<open>One iteration of the clerk's loop after the call has returned.\<close>

definition labGot :: "LabKv \<Rightarrow> Request \<Rightarrow> Reply \<Rightarrow> bool \<Rightarrow> LabKv" where
  "labGot s r reply ok =
    (if ok \<and> OpResult reply then s\<lparr>lkOps := (lkOps s)(r := None), lkHist := lkHist s @ [Ret r (Value reply)]\<rparr>
     else s\<lparr>lkOps := (lkOps s)(r \<mapsto> (reply, None))\<rparr>)"

text \<open>The event of an execution of a handler.\<close>

fun reqOf :: "string \<Rightarrow> KvVal \<Rightarrow> Request option" where
  "reqOf m (VGetArgs a) = (if m = ''Get'' then Some (RGet a) else None)"
| "reqOf m (VPutAppendArgs a) = (if m = ''Put'' then Some (RPut a) else if m = ''Append'' then Some (RAppend a) else None)"
| "reqOf m (VReply _) = None"

definition execEvents :: "(KVServer, KvVal) Execution list \<Rightarrow> Ev list" where
  "execEvents xs = concat (map (\<lambda>x. case (reqOf (xMeth x) (xArgs x), xReply x) of
     (Some r, VReply rep) \<Rightarrow> [Exec r (Value rep) (OpResult rep)] | _ \<Rightarrow> []) xs)"

inductive labstep :: "(KvVal, KvTy) GoRt \<Rightarrow> LabKv \<Rightarrow> LabKv \<Rightarrow> bool" for rt where
  beginGet: "labstep rt s (labBegin s c (GetBegin (lkClerks s c) key))"
| beginPut: "labstep rt s (labBegin s c (ClerkPut (lkClerks s c) key value))"
| beginAppend: "labstep rt s (labBegin s c (ClerkAppend (lkClerks s c) key value))"
| sends: "lkOps s r = Some (reply, None) \<Longrightarrow> wire rt e r = Some req \<Longrightarrow>
    labstep rt s (s\<lparr>rpc := sendCall req (rpc s), lkOps := (lkOps s)(r \<mapsto> (reply, Some (length (calls (rpc s)))))\<rparr>)"
| network: "callstep rt (rpc s) rs \<Longrightarrow>
    labstep rt s (s\<lparr>rpc := rs, lkHist := lkHist s @ execEvents (drop (length (ran (rpc s))) (ran rs))\<rparr>)"
| gets: "lkOps s r = Some (reply, Some i) \<Longrightarrow> cMain (calls (rpc s) ! i) = Returned rep \<Longrightarrow>
    callResult rt (VReply reply) rep = Some (VReply reply1, ok) \<Longrightarrow> labstep rt s (labGot s r reply1 ok)"
| tests: "tester (net (rpc s)) rn \<Longrightarrow> labstep rt s (s\<lparr>rpc := (rpc s)\<lparr>net := rn\<rparr>\<rparr>)"

inductive labreach :: "(KvVal, KvTy) GoRt \<Rightarrow> LabKv \<Rightarrow> bool" for rt where
  start: "labreach rt labInit"
| more: "labreach rt s \<Longrightarrow> labstep rt s s' \<Longrightarrow> labreach rt s'"

section \<open>The simulation\<close>

definition absKv :: "LabKv \<Rightarrow> KvSys" where
  "absKv s = \<lparr> srv = objs (rpc s) 0, clerks = lkClerks s, pending = (\<lambda>r. map_option fst (lkOps s r)), hist = lkHist s \<rparr>"

text \<open>The call that carries a request.\<close>

definition carries :: "(KvVal, KvTy) GoRt \<Rightarrow> (KVServer, KvVal, KvTy) RpcSys \<Rightarrow> nat \<Rightarrow> Request \<Rightarrow> bool" where
  "carries rt s i r \<longleftrightarrow> i < length (calls s) \<and> (\<exists>e. wire rt e r = Some (cReq (calls s ! i)))"

text \<open>What the simulation knows of the network: every call carries a request that some clerk has made, every server has the service,
  a handler that was found is the one of the call's request, every execution is in the history, and an operation waits for a
  call that carries its request.\<close>

definition callsOK :: "(KvVal, KvTy) GoRt \<Rightarrow> LabKv \<Rightarrow> bool" where
  "callsOK rt s \<longleftrightarrow> (\<forall>i < length (calls (rpc s)). \<exists>r. carries rt (rpc s) i r \<and> Inv r \<in> set (lkHist s) \<and>
     (\<forall>svc m. cDisp (calls (rpc s) ! i) = Found svc m \<longrightarrow> svc = kvService \<and> m = methodOf r))"

definition labInv :: "(KvVal, KvTy) GoRt \<Rightarrow> LabKv \<Rightarrow> bool" where
  "labInv rt s \<longleftrightarrow> rpcInv rt (rpc s) \<and> callsOK rt s \<and> (\<forall>p. services (srvs (rpc s) p) = services kvServerEnd) \<and>
     (\<forall>x \<in> set (ran (rpc s)). \<exists>r rep. carries rt (rpc s) (xCall x) r \<and> xReply x = VReply rep \<and>
        Exec r (Value rep) (OpResult rep) \<in> set (lkHist s)) \<and>
     (\<forall>r reply i. lkOps s r = Some (reply, Some i) \<longrightarrow> carries rt (rpc s) i r) \<and> kvreach (absKv s)"

lemma carries_unique: "kvCodec rt \<Longrightarrow> carries rt s i r \<Longrightarrow> carries rt s i r' \<Longrightarrow> r = r'"
  unfolding carries_def using wire_inj by blast

lemma carries_setCall [simp]: "i < length (calls s) \<Longrightarrow> carries rt (setCall i m d t) j r = carries rt t j r" if "calls t = calls s"
  using that by (cases "j = i") (auto simp: carries_def)

lemma carries_cong: "calls t = calls s \<Longrightarrow> carries rt t j r = carries rt s j r"
  by (simp add: carries_def)

lemma absKv_net [simp]: "absKv (s\<lparr>rpc := (rpc s)\<lparr>net := rn\<rparr>\<rparr>) = absKv s"
  by (simp add: absKv_def)

lemma labInv_begin:
  assumes "labInv rt s" "kvstep (absKv s) (call (absKv s) c ckr)"
  shows "labInv rt (labBegin s c ckr)"
proof -
  have "absKv (labBegin s c ckr) = call (absKv s) c ckr" by (simp add: absKv_def labBegin_def call_def fun_eq_iff)
  then have "kvreach (absKv (labBegin s c ckr))" using assms kvreach.more[of "absKv s"] by (simp add: labInv_def)
  then show ?thesis using assms(1) by (fastforce simp: labInv_def labBegin_def callsOK_def)
qed

lemma labInv_pending: "labInv rt s \<Longrightarrow> lkOps s r = Some p \<Longrightarrow> Inv r \<in> set (lkHist s)"
  using kvreach_inv[of "absKv s"] by (auto simp: labInv_def kvinv_def invPending_def absKv_def)

lemma carries_send: "carries rt s i r \<Longrightarrow> carries rt (sendCall req s) i r"
  by (auto simp: carries_def sendCall_def nth_append)

lemma labInv_send:
  assumes inv: "labInv rt s" and r: "lkOps s r = Some (reply, None)" "wire rt e r = Some req"
  shows "labInv rt (s\<lparr>rpc := sendCall req (rpc s), lkOps := (lkOps s)(r \<mapsto> (reply, Some (length (calls (rpc s)))))\<rparr>)" (is "labInv rt ?s")
proof -
  have "absKv ?s = absKv s" using r(1) by (auto simp: absKv_def sendCall_def fun_eq_iff)
  moreover have new: "carries rt (sendCall req (rpc s)) (length (calls (rpc s))) r" using r(2) by (auto simp: carries_def sendCall_def)
  moreover have "callsOK rt ?s"
    unfolding callsOK_def
  proof (intro allI impI)
    fix i
    assume i: "i < length (calls (rpc ?s))"
    show "\<exists>r. carries rt (rpc ?s) i r \<and> Inv r \<in> set (lkHist ?s) \<and> (\<forall>svc m. cDisp (calls (rpc ?s) ! i) = Found svc m \<longrightarrow> svc = kvService \<and> m = methodOf r)"
    proof (cases "i = length (calls (rpc s))")
      case True
      then show ?thesis using new labInv_pending[OF inv r(1)] by (auto simp: sendCall_def)
    next
      case False
      then have old: "i < length (calls (rpc s))" "calls (sendCall req (rpc s)) ! i = calls (rpc s) ! i"
        using i by (auto simp: sendCall_def nth_append)
      obtain r where "carries rt (rpc s) i r" "Inv r \<in> set (lkHist s)"
          "\<forall>svc m. cDisp (calls (rpc s) ! i) = Found svc m \<longrightarrow> svc = kvService \<and> m = methodOf r"
        using inv old(1) by (auto simp: labInv_def callsOK_def)
      then have "carries rt (sendCall req (rpc s)) i r \<and> Inv r \<in> set (lkHist s) \<and>
          (\<forall>svc m. cDisp (calls (sendCall req (rpc s)) ! i) = Found svc m \<longrightarrow> svc = kvService \<and> m = methodOf r)"
        using carries_send[of rt "rpc s" i r req] old(2) by simp
      then show ?thesis by auto
    qed
  qed
  moreover have "ran (sendCall req (rpc s)) = ran (rpc s)" "srvs (sendCall req (rpc s)) = srvs (rpc s)" by (simp_all add: sendCall_def)
  moreover have "\<forall>x \<in> set (ran (rpc s)). \<exists>r rep. carries rt (sendCall req (rpc s)) (xCall x) r \<and> xReply x = VReply rep \<and>
        Exec r (Value rep) (OpResult rep) \<in> set (lkHist s)"
    using inv carries_send unfolding labInv_def by blast
  moreover have "carries rt (sendCall req (rpc s)) i r'" if "lkOps ?s r' = Some (reply', Some i)" for r' reply' i
    using that new inv carries_send[of rt "rpc s" i r' req] by (auto simp: labInv_def split: if_splits)
  ultimately show ?thesis using inv rpcInv_send[of rt "rpc s" req] by (simp add: labInv_def)
qed

text \<open>Steps of a call that execute nothing.\<close>

lemma labInv_quiet:
  assumes inv: "labInv rt s" and i: "i < length (calls (rpc s))" "calls t = calls (rpc s)"
    and t: "ran t = ran (rpc s)" "objs t = objs (rpc s)" "\<forall>p. services (srvs t p) = services (srvs (rpc s) p)"
    and rs: "rpcInv rt (setCall i m d t)"
    and d: "\<And>svc meth r. d = Found svc meth \<Longrightarrow> carries rt (rpc s) i r \<Longrightarrow> svc = kvService \<and> meth = methodOf r"
  shows "labInv rt (s\<lparr>rpc := setCall i m d t\<rparr>)" (is "labInv rt ?s")
proof -
  have c: "carries rt (setCall i m d t) j r = carries rt (rpc s) j r" for j r
    using i carries_setCall[OF i(2) i(1)] carries_cong[OF i(2)] by simp
  have "callsOK rt ?s"
    unfolding callsOK_def
  proof (intro allI impI)
    fix j
    assume "j < length (calls (rpc ?s))"
    then have j: "j < length (calls (rpc s))" using i(2) by simp
    then obtain r where r: "carries rt (rpc s) j r" "Inv r \<in> set (lkHist s)"
        "\<forall>svc m. cDisp (calls (rpc s) ! j) = Found svc m \<longrightarrow> svc = kvService \<and> m = methodOf r"
      using inv by (auto simp: labInv_def callsOK_def)
    show "\<exists>r. carries rt (rpc ?s) j r \<and> Inv r \<in> set (lkHist ?s) \<and> (\<forall>svc m. cDisp (calls (rpc ?s) ! j) = Found svc m \<longrightarrow> svc = kvService \<and> m = methodOf r)"
      using r c d i by (cases "j = i") auto
  qed
  moreover have "absKv ?s = absKv s" using t(2) by (simp add: absKv_def)
  ultimately show ?thesis using inv rs t c by (simp add: labInv_def)
qed

lemma labInv_found:
  assumes "labInv rt s" "kvCodec rt" "cDisp (calls (rpc s) ! i) = Found svc meth" "carries rt (rpc s) i r"
  shows "svc = kvService \<and> meth = methodOf r"
proof -
  have "i < length (calls (rpc s))" using assms(4) by (simp add: carries_def)
  then obtain r' where "carries rt (rpc s) i r'" "svc = kvService \<and> meth = methodOf r'"
    using assms(1,3) unfolding labInv_def callsOK_def by blast
  then show ?thesis using carries_unique[OF assms(2,4)] by simp
qed

lemma labInv_lookup:
  assumes inv: "labInv rt s" and rt: "kvCodec rt" and c: "carries rt (rpc s) i r"
    and l: "lookupService (srvs (rpc s) p) (cReq (calls (rpc s) ! i)) = Some (rs, svc, meth)"
  shows "svc = kvService \<and> meth = methodOf r \<and> services rs = services (srvs (rpc s) p)"
proof -
  have "svcMeth (cReq (calls (rpc s) ! i)) = ''KVServer.'' @ methodOf r"
    using c wire_meth[OF rt] by (auto simp: carries_def)
  moreover have "services (srvs (rpc s) p) = services kvServerEnd" using inv by (simp add: labInv_def)
  ultimately show ?thesis using lookup_kv l by fastforce
qed

text \<open>The execution of a handler is a step of the abstract system.\<close>

lemma reqOf_request [simp]: "reqOf (methodOf r) (argsOf r) = Some r"
  by (cases r) simp_all

lemma labInv_handled:
  assumes inv: "labInv rt s" and rt: "kvCodec rt" and i: "i < length (calls (rpc s))" "cDisp (calls (rpc s) ! i) = Found svc meth"
    and h: "serviceDispatch rt svc meth (cReq (calls (rpc s) ! i)) (objs (rpc s)) = Some (os, rep, args, reply)"
    and rs: "rs = setCall i (cMain (calls (rpc s) ! i)) (Handled rep) ((rpc s)\<lparr>objs := os, ran := ran (rpc s) @
      [\<lparr> xCall = i, xRcvr = svRcvr svc, xMeth = meth, xBefore = objs (rpc s) (svRcvr svc), xArgs = args, xReply = reply \<rparr>]\<rparr>)"
    and ri: "rpcInv rt rs"
  shows "labInv rt (s\<lparr>rpc := rs, lkHist := lkHist s @ execEvents (drop (length (ran (rpc s))) (ran rs))\<rparr>)" (is "labInv rt ?s")
proof -
  obtain r where r: "carries rt (rpc s) i r" "Inv r \<in> set (lkHist s)" "svc = kvService" "meth = methodOf r"
    using inv i by (auto simp: labInv_def callsOK_def)
  define kvr where "kvr = serve (objs (rpc s) 0) r"
  have h': "os = (objs (rpc s))(0 := fst kvr)" "args = argsOf r" "reply = VReply (snd kvr)"
    using h dispatch_kv[OF rt] r by (auto simp: carries_def kvr_def)
  have hist: "lkHist ?s = lkHist s @ [Exec r (Value (snd kvr)) (OpResult (snd kvr))]"
    by (simp add: rs execEvents_def h' r(4))
  have "absKv ?s = exec (absKv s) r"
    using hist by (simp add: absKv_def exec_def rs h' kvr_def[symmetric] case_prod_beta)
  then have k: "kvreach (absKv ?s)" using inv kvreach.more[of "absKv s"] kvstep.handle[of r "absKv s"] r(2) by (simp add: labInv_def absKv_def)
  have c: "carries rt rs j r' = carries rt (rpc s) j r'" for j r'
    unfolding rs using i(1) by (cases "j = i") (auto simp: carries_def)
  have calls: "callsOK rt ?s"
    unfolding callsOK_def
  proof (intro allI impI)
    fix j
    assume "j < length (calls (rpc ?s))"
    then have j: "j < length (calls (rpc s))" by (simp add: rs)
    show "\<exists>r. carries rt (rpc ?s) j r \<and> Inv r \<in> set (lkHist ?s) \<and> (\<forall>svc m. cDisp (calls (rpc ?s) ! j) = Found svc m \<longrightarrow> svc = kvService \<and> m = methodOf r)"
    proof (cases "j = i")
      case True
      then show ?thesis using r c i(1) by (auto simp: rs)
    next
      case False
      then have "calls rs ! j = calls (rpc s) ! j" by (simp add: rs)
      then show ?thesis using inv j c by (auto simp: labInv_def callsOK_def)
    qed
  qed
  have "\<exists>r rep. carries rt rs (xCall x) r \<and> xReply x = VReply rep \<and> Exec r (Value rep) (OpResult rep) \<in> set (lkHist ?s)"
    if x: "x \<in> set (ran rs)" for x
  proof (cases "x \<in> set (ran (rpc s))")
    case True
    then obtain r' rep' where "carries rt (rpc s) (xCall x) r'" "xReply x = VReply rep'" "Exec r' (Value rep') (OpResult rep') \<in> set (lkHist s)"
      using inv unfolding labInv_def by blast
    then show ?thesis unfolding hist c by auto
  next
    case False
    then have "xCall x = i" "xReply x = VReply (snd kvr)" using x h'(3) by (auto simp: rs)
    then show ?thesis using r(1) unfolding hist c by auto
  qed
  then show ?thesis using inv ri k calls c by (simp add: labInv_def rs)
qed

lemma labInv_network:
  assumes inv: "labInv rt s" and rt: "kvCodec rt" and st: "callstep rt (rpc s) rs"
  shows "labInv rt (s\<lparr>rpc := rs, lkHist := lkHist s @ execEvents (drop (length (ran (rpc s))) (ran rs))\<rparr>)"
proof -
  have ri: "rpcInv rt rs" using inv rpcInv_call[OF st] by (simp add: labInv_def)
  have q: "labInv rt (s\<lparr>rpc := rs, lkHist := lkHist s @ execEvents (drop (length (ran (rpc s))) (ran rs))\<rparr>)"
    if "ran rs = ran (rpc s)" "labInv rt (s\<lparr>rpc := rs\<rparr>)" using that by (simp add: execEvents_def)
  note quiet = labInv_quiet[OF inv]
  show ?thesis using st
  proof cases
    case (handled i svc meth os rep args reply)
    then show ?thesis by (intro labInv_handled[OF inv rt handled(2-4,1) ri])
  next
    case (found i p rs' svc meth)
    have "svc = kvService \<and> meth = methodOf r \<and> services rs' = services (srvs (rpc s) p)" if "carries rt (rpc s) i r" for r
      by (rule labInv_lookup[OF inv rt that found(4)])
    moreover obtain r where "carries rt (rpc s) i r" using inv found(2) by (auto simp: labInv_def callsOK_def)
    ultimately have "labInv rt (s\<lparr>rpc := rs\<rparr>)" unfolding found(1)
      by (intro quiet[OF found(2)]) (use ri found(1) in auto)
    then show ?thesis using found(1) by (intro q) simp_all
  next
    case (died i info)
    then have "labInv rt (s\<lparr>rpc := rs\<rparr>)" unfolding died(1)
      using ri[unfolded died(1)] labInv_found[OF inv rt] by (intro quiet) auto
    then show ?thesis using died(1) by (intro q) simp_all
  next
    case (ended i info reply rand rn rep)
    then have "labInv rt (s\<lparr>rpc := rs\<rparr>)" unfolding ended(1)
      using ri[unfolded ended(1)] labInv_found[OF inv rt] by (intro quiet) auto
    then show ?thesis using ended(1) by (intro q) simp_all
  next
    case (returned i rep)
    then have "labInv rt (s\<lparr>rpc := rs\<rparr>)" unfolding returned(1)
      using ri[unfolded returned(1)] labInv_found[OF inv rt] by (intro quiet) auto
    then show ?thesis using returned(1) by (intro q) simp_all
  next
    case (refused i rand rep)
    then have "labInv rt (s\<lparr>rpc := rs\<rparr>)" unfolding refused(1) using ri[unfolded refused(1)] by (intro quiet) auto
    then show ?thesis using refused(1) by (intro q) simp_all
  next
    case (started i rand info)
    then have "labInv rt (s\<lparr>rpc := rs\<rparr>)" unfolding started(1) using ri[unfolded started(1)] by (intro quiet) auto
    then show ?thesis using started(1) by (intro q) simp_all
  next
    case (noticed i info rep)
    then have "labInv rt (s\<lparr>rpc := rs\<rparr>)" unfolding noticed(1) using ri[unfolded noticed(1)] by (intro quiet) auto
    then show ?thesis using noticed(1) by (intro q) simp_all
  qed
qed

text \<open>A reply that reaches the clerk.\<close>

lemma labInv_got:
  assumes inv: "labInv rt s" and rt: "kvCodec rt" and r: "lkOps s r = Some (reply, Some i)" "cMain (calls (rpc s) ! i) = Returned rep"
    and res: "callResult rt (VReply reply) rep = Some (VReply reply1, ok)"
  shows "labInv rt (labGot s r reply1 ok)"
proof -
  have c: "carries rt (rpc s) i r" using inv r(1) unfolding labInv_def by blast
  have k: "kvreach (absKv (labGot s r reply1 ok))"
  proof (cases "rok rep")
    case False
    then have "reply1 = reply" "\<not> ok" using res by (auto simp: callResult_def)
    then have "absKv (labGot s r reply1 ok) = absKv s" using r(1) by (auto simp: labGot_def absKv_def fun_eq_iff)
    then show ?thesis using inv by (simp add: labInv_def)
  next
    case True
    have "callOK rt (rpc s) i" using inv c by (auto simp: labInv_def rpcInv_def carries_def)
    then have "produced rt (rpc s) i rep" using r(2) True by (auto simp: callOK_def)
    then obtain x where x: "x \<in> set (ran (rpc s))" "xCall x = i" "rep = \<lparr> rok = True, rreply = fst (encoding rt (xReply x)) \<rparr>"
      unfolding produced_def executions_def by (metis (mono_tags, lifting) filter_eq_ConsD in_set_conv_decomp)
    then obtain r' new where n: "carries rt (rpc s) i r'" "xReply x = VReply new" "Exec r' (Value new) (OpResult new) \<in> set (lkHist s)"
      using inv unfolding labInv_def by blast
    have "r' = r" using carries_unique[OF rt n(1) c] .
    have "ok" "reply1 = decodeReply reply new"
      using res x(3) n(2) rt by (auto simp: callResult_def kvCodec_def)
    then have "absKv (labGot s r reply1 ok) = receive (absKv s) r reply new"
      by (auto simp: labGot_def receive_def Let_def absKv_def fun_eq_iff)
    moreover have "kvstep (absKv s) (receive (absKv s) r reply \<lparr> Value = Value new, OpResult = OpResult new \<rparr>)"
      using r(1) n(3) \<open>r' = r\<close> by (intro kvstep.reply) (auto simp: absKv_def)
    moreover have "\<lparr> Value = Value new, OpResult = OpResult new \<rparr> = new" by simp
    ultimately show ?thesis using inv kvreach.more[of "absKv s"] by (simp add: labInv_def)
  qed
  have sel: "rpc (labGot s r reply1 ok) = rpc s" "set (lkHist s) \<subseteq> set (lkHist (labGot s r reply1 ok))"
      "\<And>r' p j. lkOps (labGot s r reply1 ok) r' = Some (p, Some j) \<Longrightarrow> lkOps s r' = Some (p, Some j)"
    by (auto simp: labGot_def split: if_splits)
  then have "callsOK rt (labGot s r reply1 ok)" using inv unfolding labInv_def callsOK_def by (metis subsetD)
  moreover have "\<forall>x \<in> set (ran (rpc s)). \<exists>r' rep. carries rt (rpc s) (xCall x) r' \<and> xReply x = VReply rep \<and>
      Exec r' (Value rep) (OpResult rep) \<in> set (lkHist (labGot s r reply1 ok))"
    using inv sel(2) unfolding labInv_def by blast
  ultimately show ?thesis using inv k sel(1,3) by (simp add: labInv_def)
qed

lemma labInv_step:
  assumes "labstep rt s s'" "labInv rt s" "kvCodec rt"
  shows "labInv rt s'"
  using assms(1)
proof cases
  case (beginGet c key)
  then show ?thesis using labInv_begin[OF assms(2)] kvstep.callGet[of "absKv s" c key] by (simp add: absKv_def)
next
  case (beginPut c key val)
  then show ?thesis using labInv_begin[OF assms(2)] kvstep.callPut[of "absKv s" c key val] by (simp add: absKv_def)
next
  case (beginAppend c key val)
  then show ?thesis using labInv_begin[OF assms(2)] kvstep.callAppend[of "absKv s" c key val] by (simp add: absKv_def)
next
  case (sends r reply e req)
  then show ?thesis using labInv_send[OF assms(2)] by simp
next
  case (network rs)
  then show ?thesis using labInv_network[OF assms(2,3)] by simp
next
  case (gets r reply i rep reply1 ok)
  then show ?thesis using labInv_got[OF assms(2,3)] by simp
next
  case (tests rn)
  have "callsOK rt s' \<longleftrightarrow> callsOK rt s" unfolding tests(1) by (simp add: callsOK_def carries_def)
  then show ?thesis using assms(2) rpcInv_net[of rt "rpc s" rn] unfolding tests(1) by (simp add: labInv_def carries_def)
qed

lemma labInv_init: "labInv rt labInit"
proof -
  have "absKv labInit = initSys" by (simp add: absKv_def labInit_def initSys_def rpcInit_def fun_eq_iff)
  then show ?thesis using kvreach.start rpcInv_init by (simp add: labInv_def labInit_def callsOK_def rpcInit_def rpcInv_def)
qed

lemma labreach_inv: "labreach rt s \<Longrightarrow> kvCodec rt \<Longrightarrow> labInv rt s"
  by (induction rule: labreach.induct) (auto intro: labInv_init labInv_step)

lemma labreach_refines: "labreach rt s \<Longrightarrow> kvCodec rt \<Longrightarrow> kvreach (absKv s)"
  using labreach_inv by (simp add: labInv_def)

end
