(* ===== verification/Labrpc_Demo.thy ===== *)
theory Labrpc_Demo
  imports Labrpc_Kv String_Codec
begin

text \<open>
  A concrete run of the key/value server on the simulated network, with a concrete codec: a client appends to a key; its first call is
  dropped by the network after the handler has run, and the second is answered.
\<close>

section \<open>A codec\<close>

definition encInt :: "int \<Rightarrow> string" where
  "encInt i = encStr ((if i < 0 then CHR ''-'' else CHR ''+'') # replicate (nat \<bar>i\<bar>) CHR ''1'')"

fun intOf :: "string \<Rightarrow> int" where
  "intOf [] = 0"
| "intOf (c # cs) = (if c = CHR ''-'' then - int (length cs) else int (length cs))"

definition decInt :: "string \<Rightarrow> (int \<times> string) option" where
  "decInt s = map_option (\<lambda>(t, r). (intOf t, r)) (decStr s)"

lemma decInt_encInt [simp]: "decInt (encInt i @ rest) = Some (i, rest)"
  by (simp add: decInt_def encInt_def decStr_encStr)

fun encVal :: "KvVal \<Rightarrow> string" where
  "encVal (VGetArgs a) = CHR ''G'' # encStr (GKey a) @ encInt (GClientId a) @ encInt (GAckSeq a)"
| "encVal (VPutAppendArgs a) = CHR ''P'' # encStr (PKey a) @ encStr (PValue a) @ encInt (PClientId a) @ encInt (PAckSeq a)"
| "encVal (VReply r) = CHR ''R'' # encStr (Value r) @ (if OpResult r then ''t'' else ''f'')"

fun parseVal :: "string \<Rightarrow> KvVal option" where
  "parseVal [] = None"
| "parseVal (c # cs) = do {
     (k, cs1) \<leftarrow> decStr cs;
     if c = CHR ''G'' then do {
       (i, cs2) \<leftarrow> decInt cs1;
       (n, cs3) \<leftarrow> decInt cs2;
       Some (VGetArgs \<lparr> GKey = k, GClientId = i, GAckSeq = n \<rparr>) }
     else if c = CHR ''P'' then do {
       (v, cs2) \<leftarrow> decStr cs1;
       (i, cs3) \<leftarrow> decInt cs2;
       (n, cs4) \<leftarrow> decInt cs3;
       Some (VPutAppendArgs \<lparr> PKey = k, PValue = v, PClientId = i, PAckSeq = n \<rparr>) }
     else Some (VReply \<lparr> Value = k, OpResult = (cs1 = ''t'') \<rparr>) }"

lemma decInt_end [simp]: "decInt (encInt i) = Some (i, [])"
  using decInt_encInt[of i "[]"] by simp

lemma parseVal_encVal [simp]: "parseVal (encVal v) = Some v"
  by (cases v) (simp_all add: decStr_encStr)

definition decVal :: "KvVal \<Rightarrow> string \<Rightarrow> KvVal \<times> bool" where
  "decVal old bytes = (case (parseVal bytes, old) of
     (Some (VReply new), VReply reply) \<Rightarrow> (VReply (decodeReply reply new), True)
   | (Some v, _) \<Rightarrow> if kvTypeOf v = kvTypeOf old then (v, True) else (old, False)
   | (None, _) \<Rightarrow> (old, False))"

definition kvRt :: "(KvVal, KvTy) GoRt" where
  "kvRt = \<lparr> typeOf = kvTypeOf, zeroOf = kvZeroOf, assignable = (=), encoding = (\<lambda>v. (encVal v, True)), decoding = decVal \<rparr>"

lemma kvTypeOf_zero: "kvTypeOf (kvZeroOf t) = t"
  by (cases t) simp_all

lemma kvRt_codec: "kvCodec kvRt"
proof -
  have "fst (decVal (kvZeroOf (kvTypeOf v)) (encVal v)) = v" for v
    by (cases v) (simp_all add: decVal_def decodeReply_def zeroReply_def del: encVal.simps)
  moreover have "decVal (VReply old) (encVal (VReply new)) = (VReply (decodeReply old new), True)" for old new
    by (simp add: decVal_def del: encVal.simps)
  ultimately show ?thesis by (simp add: kvCodec_def kvRt_def)
qed

section \<open>Performing steps\<close>

datatype lact =
    LMakeEnd string | LAddServer string nat | LConnect string string | LEnable string bool | LReliable bool
  | LAppend int string string | LSend Request string | LStart nat int | LFind nat | LHandle nat | LNotice nat
  | LEnd nat int | LReturn nat | LGot Request

definition onNet :: "Network option \<Rightarrow> LabKv \<Rightarrow> LabKv option" where
  "onNet rn s = map_option (\<lambda>n. s\<lparr>rpc := (rpc s)\<lparr>net := n\<rparr>\<rparr>) rn"

definition onCall :: "LabKv \<Rightarrow> nat \<Rightarrow> (KVServer, KvVal, KvTy) RpcSys option \<Rightarrow> LabKv option" where
  "onCall s i rs = (if i < length (calls (rpc s))
     then map_option (\<lambda>rs. s\<lparr>rpc := rs, lkHist := lkHist s @ execEvents (drop (length (ran (rpc s))) (ran rs))\<rparr>) rs else None)"

definition callPart :: "(KvVal, KvTy) GoRt \<Rightarrow> lact \<Rightarrow> (KVServer, KvVal, KvTy) RpcSys \<Rightarrow> nat \<Rightarrow> (KVServer, KvVal, KvTy) RpcSys option" where
  "callPart rt a s i = (let c = calls s ! i in
    (case (a, cMain c, cDisp c) of
       (LStart _ rand, Arrived, _) \<Rightarrow> (case processBegin (net s) (cReq c) rand of
           Inl rep \<Rightarrow> Some (setCall i (Replying rep) NotStarted s)
         | Inr info \<Rightarrow> Some (setCall i (Waiting info) (Dispatching (inServer info)) s))
     | (LFind _, _, Dispatching p) \<Rightarrow> map_option (\<lambda>(rs, svc, meth). setCall i (cMain c) (Found svc meth) (s\<lparr>srvs := (srvs s)(p := rs)\<rparr>))
         (lookupService (srvs s p) (cReq c))
     | (LHandle _, _, Found svc meth) \<Rightarrow> map_option (\<lambda>(os, rep, args, reply). setCall i (cMain c) (Handled rep) (s\<lparr>objs := os, ran := ran s @
           [\<lparr> xCall = i, xRcvr = svRcvr svc, xMeth = meth, xBefore = objs s (svRcvr svc), xArgs = args, xReply = reply \<rparr>]\<rparr>))
         (serviceDispatch rt svc meth (cReq c) (objs s))
     | (LNotice _, Waiting info, Handled rep) \<Rightarrow> Some (setCall i (Left info (Some rep)) (Handled rep) s)
     | (LEnd _ rand, Left info reply, d) \<Rightarrow> (case processEnd (net s) (cReq c) info reply rand of
           (rn, rep) \<Rightarrow> Some (setCall i (Replying rep) d (s\<lparr>net := rn\<rparr>)))
     | (LReturn _, Replying rep, d) \<Rightarrow> Some (setCall i (Returned rep) d s)
     | _ \<Rightarrow> None))"

fun lperform :: "(KvVal, KvTy) GoRt \<Rightarrow> lact \<Rightarrow> LabKv \<Rightarrow> LabKv option" where
  "lperform rt (LMakeEnd e) s = onNet (map_option fst (MakeEnd e (net (rpc s)))) s"
| "lperform rt (LAddServer sn p) s = onNet (Some (AddServer sn p (net (rpc s)))) s"
| "lperform rt (LConnect e sn) s = onNet (Some (Connect e sn (net (rpc s)))) s"
| "lperform rt (LEnable e b) s = onNet (Some (Enable e b (net (rpc s)))) s"
| "lperform rt (LReliable b) s = onNet (Some (Reliable b (net (rpc s)))) s"
| "lperform rt (LAppend c key val) s = Some (labBegin s c (ClerkAppend (lkClerks s c) key val))"
| "lperform rt (LSend r e) s = (case lkOps s r of
     Some (reply, None) \<Rightarrow> map_option (\<lambda>req. s\<lparr>rpc := sendCall req (rpc s),
         lkOps := (lkOps s)(r \<mapsto> (reply, Some (length (calls (rpc s)))))\<rparr>) (wire rt \<lparr> ceName = e \<rparr> r)
   | _ \<Rightarrow> None)"
| "lperform rt (LGot r) s = (case lkOps s r of
     Some (reply, Some i) \<Rightarrow> (case cMain (calls (rpc s) ! i) of
         Returned rep \<Rightarrow> (case callResult rt (VReply reply) rep of Some (VReply reply1, ok) \<Rightarrow> Some (labGot s r reply1 ok) | _ \<Rightarrow> None)
       | _ \<Rightarrow> None)
   | _ \<Rightarrow> None)"
| "lperform rt a s = (case a of LStart i _ \<Rightarrow> onCall s i (callPart rt a (rpc s) i) | LFind i \<Rightarrow> onCall s i (callPart rt a (rpc s) i)
     | LHandle i \<Rightarrow> onCall s i (callPart rt a (rpc s) i) | LNotice i \<Rightarrow> onCall s i (callPart rt a (rpc s) i)
     | LEnd i _ \<Rightarrow> onCall s i (callPart rt a (rpc s) i) | LReturn i \<Rightarrow> onCall s i (callPart rt a (rpc s) i) | _ \<Rightarrow> None)"

lemma callPart_step: "i < length (calls s) \<Longrightarrow> callPart rt a s i = Some s' \<Longrightarrow> callstep rt s s'"
  by (auto simp: callPart_def Let_def split: lact.splits mainPc.splits dispPc.splits sum.splits prod.splits
      intro: callstep.intros)

lemma onCall_step:
  assumes "onCall s i (callPart rt a (rpc s) i) = Some s'"
  shows "labstep rt s s'"
proof -
  obtain rs where "i < length (calls (rpc s))" "callPart rt a (rpc s) i = Some rs"
      "s' = s\<lparr>rpc := rs, lkHist := lkHist s @ execEvents (drop (length (ran (rpc s))) (ran rs))\<rparr>"
    using assms by (auto simp: onCall_def split: if_splits)
  then show ?thesis using labstep.network[OF callPart_step] by simp
qed

lemma onNet_step: "onNet rn s = Some s' \<Longrightarrow> (\<And>n. rn = Some n \<Longrightarrow> tester (net (rpc s)) n) \<Longrightarrow> labstep rt s s'"
  by (auto simp: onNet_def intro: labstep.tests)

lemma lperform_step: "lperform rt a s = Some s' \<Longrightarrow> labstep rt s s'"
proof (induction rt a s rule: lperform.induct)
  case (1 rt e s)
  then show ?case using tester.makeEnd by (auto elim!: onNet_step)
next
  case (7 rt r e s)
  then show ?case by (auto split: option.splits intro: labstep.sends)
next
  case (8 rt r s)
  then show ?case by (auto split: option.splits mainPc.splits KvVal.splits) (rule labstep.gets)
qed (auto elim!: onNet_step onCall_step intro: tester.intros labstep.beginAppend)

fun lperformAll :: "(KvVal, KvTy) GoRt \<Rightarrow> lact list \<Rightarrow> LabKv \<Rightarrow> LabKv option" where
  "lperformAll rt [] s = Some s"
| "lperformAll rt (a # as) s = Option.bind (lperform rt a s) (lperformAll rt as)"

lemma lperformAll_reach: "lperformAll rt as s = Some s' \<Longrightarrow> labreach rt s \<Longrightarrow> labreach rt s'"
proof (induction "as" arbitrary: s)
  case (Cons a "as")
  then obtain s1 where "lperform rt a s = Some s1" "lperformAll rt as s1 = Some s'" by (auto split: bind_splits)
  then show ?case using Cons.IH Cons.prems(2) labreach.more lperform_step by blast
qed simp

section \<open>The run\<close>

definition appendReq :: Request where
  "appendReq = RAppend \<lparr> PKey = ''k'', PValue = ''a'', PClientId = 7, PAckSeq = 0 \<rparr>"

definition labActs :: "lact list" where
  "labActs =
    [LMakeEnd ''e'', LAddServer ''s'' 0, LConnect ''e'' ''s'', LEnable ''e'' True, LReliable False, LAppend 7 ''k'' ''a'',
     LSend appendReq ''e'', LStart 0 500, LFind 0, LHandle 0, LNotice 0, LEnd 0 50, LReturn 0, LGot appendReq,
     LSend appendReq ''e'', LStart 1 500, LFind 1, LHandle 1, LNotice 1, LEnd 1 500, LReturn 1, LGot appendReq]"

definition labEnd :: "LabKv option" where
  "labEnd = lperformAll kvRt labActs labInit"

lemma labEnd_run:
  "map_option (\<lambda>s. (lkOps s appendReq, lkHist s, length (calls (rpc s)), map cMain (calls (rpc s)), store (objs (rpc s) 0) ''k'')) labEnd =
    Some (None, [Inv appendReq, Exec appendReq [] True, Exec appendReq [] True, Ret appendReq []], 2,
      [Returned noReply, Returned \<lparr> rok = True, rreply = encVal (VReply \<lparr> Value = [], OpResult = True \<rparr>) \<rparr>], Some ''a'')"
  by code_simp

end
