(* ===== verification/Labrpc_Props.thy ===== *)
theory Labrpc_Props
  imports Labrpc_Demo
begin

text \<open>
  Properties of the simulated network: what a call's result says about the execution of the handler, that a reliable and connected
  network answers every call, and the key/value server on top of it.
\<close>

section \<open>A reliable network\<close>

definition connectedTo :: "Network \<Rightarrow> string \<Rightarrow> bool" where
  "connectedTo rn e \<longleftrightarrow> reliable rn \<and> isEnabled rn e \<and> (\<exists>sn p. connections rn e = Some (Some sn) \<and> serverAt rn sn = Some p)"

text \<open>Runs in which the tester leaves the network as it is.\<close>

inductive stableRun :: "('v, 't) GoRt \<Rightarrow> ('o, 'v, 't) RpcSys \<Rightarrow> ('o, 'v, 't) RpcSys \<Rightarrow> bool" for rt s0 where
  start: "stableRun rt s0 s0"
| send: "stableRun rt s0 s \<Longrightarrow> callRequest rt e meth args = Some req \<Longrightarrow> stableRun rt s0 (sendCall req s)"
| process: "stableRun rt s0 s \<Longrightarrow> callstep rt s s' \<Longrightarrow> stableRun rt s0 s'"

text \<open>The parts of the network that decide about a call.\<close>

definition sameLinks :: "Network \<Rightarrow> Network \<Rightarrow> bool" where
  "sameLinks rn rn' \<longleftrightarrow> reliable rn' = reliable rn \<and> enabled rn' = enabled rn \<and> connections rn' = connections rn \<and> servers rn' = servers rn"

lemma sameLinks_connected: "sameLinks rn rn' \<Longrightarrow> connectedTo rn' e = connectedTo rn e"
  by (simp add: sameLinks_def connectedTo_def isEnabled_def serverAt_def)

fun answered :: "Network \<Rightarrow> string \<Rightarrow> mainPc \<Rightarrow> bool" where
  "answered rn e Arrived \<longleftrightarrow> True"
| "answered rn e (Waiting info) \<longleftrightarrow> inReliable info \<and> \<not> isServerDead rn e (inServername info) (inServer info)"
| "answered rn e (Left info reply) \<longleftrightarrow> inReliable info \<and> \<not> isServerDead rn e (inServername info) (inServer info) \<and> (\<exists>rep. reply = Some rep \<and> rok rep)"
| "answered rn e (Replying rep) \<longleftrightarrow> rok rep"
| "answered rn e (Returned rep) \<longleftrightarrow> rok rep"

lemma sameLinks_answered: "sameLinks rn rn' \<Longrightarrow> answered rn' e m = answered rn e m"
  by (cases m) (auto simp: sameLinks_def isServerDead_def isEnabled_def serverAt_def)

lemma sameLinks_refl [simp]: "sameLinks rn rn"
  by (simp add: sameLinks_def)

lemma links_kept:
  "sameLinks rn (acceptReq rn req)" "processEnd rn req info reply rand = (rn', rep) \<Longrightarrow> sameLinks rn rn'"
  by (auto simp: sameLinks_def acceptReq_def processEnd_def split: option.splits if_splits)

lemma processBegin_connected:
  assumes "connectedTo rn (endname req)"
  shows "\<exists>info. processBegin rn req rand = Inr info \<and> answered rn (endname req) (Waiting info)"
  using assms by (auto simp: connectedTo_def processBegin_def readEndnameInfo_def isServerDead_def)

definition allAnswered :: "string \<Rightarrow> ('o, 'v, 't) RpcSys \<Rightarrow> bool" where
  "allAnswered e s \<longleftrightarrow> connectedTo (net s) e \<and> (\<forall>i < length (calls s). endname (cReq (calls s ! i)) = e \<longrightarrow> answered (net s) e (cMain (calls s ! i)))"

lemma allAnswered_setCall:
  assumes "allAnswered e s" "i < length (calls s)" "calls t = calls s" "sameLinks (net s) (net t)"
    "endname (cReq (calls s ! i)) = e \<Longrightarrow> answered (net s) e m"
  shows "allAnswered e (setCall i m d t)"
  unfolding allAnswered_def
proof (intro conjI allI impI)
  fix j
  assume j: "j < length (calls (setCall i m d t))" "endname (cReq (calls (setCall i m d t) ! j)) = e"
  then have "answered (net s) e (cMain (calls (setCall i m d t) ! j))"
    using assms by (cases "j = i") (auto simp: allAnswered_def)
  then show "answered (net (setCall i m d t)) e (cMain (calls (setCall i m d t) ! j))"
    using sameLinks_answered[OF assms(4)] by simp
qed (use assms sameLinks_connected in \<open>simp add: allAnswered_def\<close>)

lemma allAnswered_call:
  assumes "callstep rt s s'" "allAnswered e s" "rpcInv rt s"
  shows "allAnswered e s'"
proof -
  have a: "answered (net s) e (cMain (calls s ! i))" if "i < length (calls s)" "endname (cReq (calls s ! i)) = e" for i
    using assms(2) that by (simp add: allAnswered_def)
  have con: "connectedTo (net s) e" using assms(2) by (simp add: allAnswered_def)
  note set = allAnswered_setCall[OF assms(2)]
  show ?thesis using assms(1)
  proof cases
    case (refused i rand rep)
    then show ?thesis using con processBegin_connected[of "net s" "cReq (calls s ! i)" rand] by (auto intro!: set)
  next
    case (started i rand info)
    then show ?thesis using con processBegin_connected[of "net s" "cReq (calls s ! i)" rand] by (auto intro!: set)
  next
    case (noticed i info rep)
    have "callOK rt s i" using assms(3) noticed(2) by (simp add: rpcInv_def)
    then have "rok rep" using noticed(4) by (auto simp: callOK_def produced_def)
    then show ?thesis using noticed a[of i] by (auto intro!: set)
  next
    case (ended i info reply rand rn rep)
    have "rok rep" if "endname (cReq (calls s ! i)) = e"
      using a[OF ended(2) that] ended(3,4) that by (auto simp: processEnd_def)
    then show ?thesis using ended links_kept(2)[OF ended(4)] by (auto intro!: set)
  next
    case (died i info)
    then show ?thesis using a[of i] by (auto intro!: set)
  next
    case (returned i rep)
    then show ?thesis using a[of i] by (auto intro!: set)
  qed (use a in \<open>auto intro!: set\<close>)
qed

text \<open>While the tester leaves a reliable network alone, no call from a connected end fails.\<close>

lemma reliable_calls_succeed:
  assumes "stableRun rt (rpcInit rn rss os) s" "connectedTo rn e" "i < length (calls s)" "endname (cReq (calls s ! i)) = e"
    "cMain (calls s ! i) = Returned rep"
  shows "rok rep"
proof -
  have "allAnswered e s \<and> rpcInv rt s" using assms(1)
  proof induction
    case start
    then show ?case using assms(2) rpcInv_init by (simp add: allAnswered_def rpcInit_def)
  next
    case (send s e' meth args req)
    have l: "sameLinks (net s) (acceptReq (net s) req)" by (rule links_kept)
    have "allAnswered e (sendCall req s)" using send
      by (auto simp: allAnswered_def sendCall_def nth_append less_Suc_eq sameLinks_connected[OF l] sameLinks_answered[OF l])
    then show ?case using send rpcInv_send by blast
  next
    case (process s s')
    then show ?case using allAnswered_call rpcInv_call by blast
  qed
  then show ?thesis using assms(3-5) by (fastforce simp: allAnswered_def)
qed

section \<open>The run on the network\<close>

lemma labreach_rpc: "labreach rt s \<Longrightarrow> rpcreach rt (rpc labInit) (rpc s)"
proof (induction rule: labreach.induct)
  case (more s s')
  from more(2) show ?case
  proof cases
    case (sends r reply e req)
    then show ?thesis using more(3) rpcreach.more rpcstep.sent by (fastforce simp: wire_def)
  qed (use more(3) in \<open>auto simp: labBegin_def labGot_def intro: rpcreach.more rpcstep.processed rpcstep.tested\<close>)
qed (rule rpcreach.start)

lemma labEnd_reach: "\<exists>s. labEnd = Some s \<and> labreach kvRt s"
proof -
  obtain s where "labEnd = Some s" using labEnd_run by (cases labEnd) auto
  then show ?thesis unfolding labEnd_def using lperformAll_reach labreach.start by blast
qed

section \<open>Properties\<close>

text \<open>C38: calls are executed at most once, and a call that succeeds exactly once.  Whatever the network drops or delays, however the
  tester changes it meanwhile, the handler of a call runs at most once; and if the caller gets a reply, then the handler has run, on
  the argument that the caller sent as the decoder reads it, and the reply is what this execution gave.\<close>

theorem labrpc_at_most_once:
  assumes "rpcreach rt (rpcInit rn rss os) s" "i < length (calls s)"
  shows "length (executions s i) \<le> 1 \<and>
    (\<forall>rep. cMain (calls s ! i) = Returned rep \<longrightarrow> rok rep \<longrightarrow>
      (\<exists>x. executions s i = [x] \<and> rreply rep = fst (encoding rt (xReply x)) \<and>
        xArgs x = fst (decoding rt (zeroOf rt (argsType (cReq (calls s ! i)))) (reqArgs (cReq (calls s ! i))))))"
proof -
  have ok: "callOK rt s i" using rpcreach_inv[OF assms(1) rpcInv_init] assms(2) by (simp add: rpcInv_def)
  then have "length (executions s i) \<le> 1" by (auto simp: callOK_def produced_def split: dispPc.splits)
  moreover have "produced rt s i rep" if "cMain (calls s ! i) = Returned rep" "rok rep" for rep
    using ok that by (auto simp: callOK_def)
  ultimately show ?thesis by (auto simp: produced_def)
qed

theorem labrpc_at_most_once_witness:
  "\<exists>s x. labEnd = Some s \<and> executions (rpc s) 1 = [x] \<and> encVal (xReply x) = encVal (VReply \<lparr> Value = [], OpResult = True \<rparr>)"
proof -
  obtain s where s: "labEnd = Some s" "labreach kvRt s" using labEnd_reach by blast
  have "rpcreach kvRt (rpcInit MakeNetwork (\<lambda>_. kvServerEnd) (\<lambda>_. StartKVServer)) (rpc s)"
    using labreach_rpc[OF s(2)] by (simp add: labInit_def)
  moreover have "1 < length (calls (rpc s))"
      "cMain (calls (rpc s) ! 1) = Returned \<lparr> rok = True, rreply = encVal (VReply \<lparr> Value = [], OpResult = True \<rparr>) \<rparr>"
    using labEnd_run by (simp_all add: s(1) map_eq_Cons_conv length_Suc_conv numeral_2_eq_2 del: encVal.simps) auto
  ultimately obtain x where "executions (rpc s) 1 = [x]" "encVal (VReply \<lparr> Value = [], OpResult = True \<rparr>) = fst (encoding kvRt (xReply x))"
    using labrpc_at_most_once[of kvRt _ _ _ "rpc s" 1] by fastforce
  then show ?thesis using s(1) by (auto simp: kvRt_def)
qed

text \<open>C39: the key/value server on the simulated network is linearizable.  The clerks' calls go through the client ends, the network
  and the dispatcher of labrpc; when no operation is under way, the completed operations can be partitioned by key as the test does, and
  every partition is linearizable, appends being recorded without their return value.  The codec only has to
  return what was encoded, and may leave zero fields out.\<close>

theorem kvsrv_over_labrpc:
  assumes "kvCodec rt" "labreach rt s" "lkOps s = Map.empty"
  shows "\<exists>ps. kvPartition (completed 2 (lkHist s)) = Some ps \<and> (\<forall>p \<in> set ps. linearizable KvModel p)"
  using idle_linearizable[OF labreach_refines[OF assms(2,1)]] assms(3) by (simp add: absKv_def)

theorem kvsrv_over_labrpc_witness:
  "\<exists>s ps. labEnd = Some s \<and> lkHist s \<noteq> [] \<and> kvPartition (completed 2 (lkHist s)) = Some ps \<and> (\<forall>p \<in> set ps. linearizable KvModel p)"
proof -
  obtain s where s: "labEnd = Some s" "labreach kvRt s" using labEnd_reach by blast
  have h: "lkOps s appendReq = None" "lkHist s = [Inv appendReq, Exec appendReq [] True, Exec appendReq [] True, Ret appendReq []]"
    using labEnd_run by (simp_all add: s(1))
  have "lkOps s r = None" for r
    using labInv_pending[OF labreach_inv[OF s(2) kvRt_codec], of r] h by (cases "lkOps s r") auto
  then have "lkOps s = Map.empty" by auto
  then show ?thesis using kvsrv_over_labrpc[OF kvRt_codec s(2)] s(1) h(2) by fastforce
qed

end
