(* ===== verification/Shard_Client.thy ===== *)
theory Shard_Client
  imports Go_Prelude
begin

text \<open>
  The clients of the sharded key/value service: \<^verbatim>\<open>src/src/shardctrler/{common,client,server}.go\<close> and
  \<^verbatim>\<open>src/src/shardkv/{common,client,server}.go\<close>.  The servers' handlers are empty in this repository, so they leave a reply as it
  is; the clerks are complete.

  A clerk calls servers in rounds until one of them gives an acceptable reply.  What the network gives is an argument: \<open>calls k i\<close> is
  the outcome of the call to the server with index \<open>i\<close> in round \<open>k\<close>, \<open>None\<close> when \<open>Call\<close> returns false.  The loops are instances of
  \<open>runLoop\<close>, which is \<open>None\<close> when the loop never ends.
\<close>

section \<open>The shard controller\<close>

abbreviation NShards :: nat where
  "NShards \<equiv> 10"

record Config =
  Num :: int
  Shards :: "int list"
  Groups :: "int \<rightharpoonup> string list"

definition zeroConfig :: Config where
  "zeroConfig = \<lparr> Num = 0, Shards = replicate NShards 0, Groups = Map.empty \<rparr>"

record JoinArgs =
  jServers :: "int \<rightharpoonup> string list"

record LeaveArgs =
  lGIDs :: "int list"

record MoveArgs =
  mvShard :: int
  mvGID :: int

record QueryArgs =
  qNum :: int

text \<open>\<open>JoinReply\<close>, \<open>LeaveReply\<close> and \<open>MoveReply\<close> have the same fields.\<close>

record CtrlReply =
  wrongLeader :: bool
  ctrlErr :: string

record QueryReply = CtrlReply +
  qConfig :: Config

definition zeroCtrlReply :: CtrlReply where
  "zeroCtrlReply = \<lparr> wrongLeader = False, ctrlErr = [] \<rparr>"

definition zeroQueryReply :: QueryReply where
  "zeroQueryReply = \<lparr> wrongLeader = False, ctrlErr = [], qConfig = zeroConfig \<rparr>"

text \<open>The handlers of the server, whose bodies are empty.\<close>

definition ctrlHandler :: "'a \<Rightarrow> 'r \<Rightarrow> 'r" where
  "ctrlHandler args reply = reply"

text \<open>One round over the servers: the first reply from a server that is the leader.\<close>

definition ctrlRound :: "(nat \<Rightarrow> 'r CtrlReply_scheme option) \<Rightarrow> nat \<Rightarrow> 'r CtrlReply_scheme option" where
  "ctrlRound calls n = (case List.find (\<lambda>i. case calls i of None \<Rightarrow> False | Some reply \<Rightarrow> \<not> wrongLeader reply) [0..<n] of
     None \<Rightarrow> None | Some i \<Rightarrow> calls i)"

definition ctrlLoop :: "(nat \<Rightarrow> nat \<Rightarrow> 'r CtrlReply_scheme option) \<Rightarrow> nat \<Rightarrow> 'r CtrlReply_scheme option" where
  "ctrlLoop calls n = Option.bind (runLoop (\<lambda>k. case ctrlRound (calls k) n of Some reply \<Rightarrow> Halt reply | None \<Rightarrow> Go (k + 1)) 0) id"

definition ctrlQuery :: "(QueryArgs \<Rightarrow> nat \<Rightarrow> nat \<Rightarrow> QueryReply option) \<Rightarrow> nat \<Rightarrow> int \<Rightarrow> Config option" where
  "ctrlQuery calls n num = map_option qConfig (ctrlLoop (calls \<lparr> qNum = num \<rparr>) n)"

definition ctrlJoin :: "(JoinArgs \<Rightarrow> nat \<Rightarrow> nat \<Rightarrow> CtrlReply option) \<Rightarrow> nat \<Rightarrow> (int \<rightharpoonup> string list) \<Rightarrow> unit option" where
  "ctrlJoin calls n servers = map_option (\<lambda>_. ()) (ctrlLoop (calls \<lparr> jServers = servers \<rparr>) n)"

definition ctrlLeave :: "(LeaveArgs \<Rightarrow> nat \<Rightarrow> nat \<Rightarrow> CtrlReply option) \<Rightarrow> nat \<Rightarrow> int list \<Rightarrow> unit option" where
  "ctrlLeave calls n gids = map_option (\<lambda>_. ()) (ctrlLoop (calls \<lparr> lGIDs = gids \<rparr>) n)"

definition ctrlMove :: "(MoveArgs \<Rightarrow> nat \<Rightarrow> nat \<Rightarrow> CtrlReply option) \<Rightarrow> nat \<Rightarrow> int \<Rightarrow> int \<Rightarrow> unit option" where
  "ctrlMove calls n shard gid = map_option (\<lambda>_. ()) (ctrlLoop (calls \<lparr> mvShard = shard, mvGID = gid \<rparr>) n)"

section \<open>The sharded service\<close>

definition key2shard :: "string \<Rightarrow> int" where
  "key2shard key = (if length key > 0 then int (of_char (hd key) :: nat) else 0) mod int NShards"

datatype ShardErr = NoErr | OK | ErrNoKey | ErrWrongGroup | ErrWrongLeader

record ShardGetReply =
  sgErr :: ShardErr
  sgValue :: string

record ShardPutAppendArgs =
  spKey :: string
  spValue :: string
  spOp :: string

definition zeroGetReply :: ShardGetReply where
  "zeroGetReply = \<lparr> sgErr = NoErr, sgValue = [] \<rparr>"

text \<open>The inner loop over the servers of a group: a reply that ends the operation, or \<open>None\<close> after the last server or
  \<open>ErrWrongGroup\<close>.\<close>

fun groupLoop :: "('r \<Rightarrow> ShardErr) \<Rightarrow> ShardErr set \<Rightarrow> (string \<Rightarrow> 'r option) \<Rightarrow> string list \<Rightarrow> 'r option" where
  "groupLoop err good call [] = None"
| "groupLoop err good call (server # rest) =
    (case call server of
       Some reply \<Rightarrow> if err reply \<in> good then Some reply else if err reply = ErrWrongGroup then None else groupLoop err good call rest
     | None \<Rightarrow> groupLoop err good call rest)"

text \<open>The outer loop.  \<open>query k\<close> is the configuration that the controller gives after round \<open>k\<close>.\<close>

definition shardBody :: "('r \<Rightarrow> ShardErr) \<Rightarrow> ShardErr set \<Rightarrow> (nat \<Rightarrow> string \<Rightarrow> 'r option) \<Rightarrow> (nat \<Rightarrow> Config) \<Rightarrow> string \<Rightarrow>
    nat \<times> Config \<Rightarrow> (nat \<times> Config, 'r \<times> Config) ctl" where
  "shardBody err good calls query key s = (case s of (k, config) \<Rightarrow>
     (case idx (Shards config) (key2shard key) of
        None \<Rightarrow> Crash
      | Some gid \<Rightarrow>
          (case (case Groups config gid of None \<Rightarrow> None | Some servers \<Rightarrow> groupLoop err good (calls k) servers) of
             Some reply \<Rightarrow> Halt (reply, config)
           | None \<Rightarrow> Go (k + 1, query k))))"

definition shardGet :: "(nat \<Rightarrow> string \<Rightarrow> ShardGetReply option) \<Rightarrow> (nat \<Rightarrow> Config) \<Rightarrow> Config \<Rightarrow> string \<Rightarrow> (string \<times> Config) option option" where
  "shardGet calls query config key =
    map_option (map_option (map_prod sgValue id)) (runLoop (shardBody sgErr {OK, ErrNoKey} calls query key) (0, config))"

definition shardPutAppend :: "(ShardPutAppendArgs \<Rightarrow> nat \<Rightarrow> string \<Rightarrow> ShardErr option) \<Rightarrow> (nat \<Rightarrow> Config) \<Rightarrow> Config \<Rightarrow>
    string \<Rightarrow> string \<Rightarrow> string \<Rightarrow> Config option option" where
  "shardPutAppend calls query config key value op =
    map_option (map_option snd) (runLoop (shardBody id {OK} (calls \<lparr> spKey = key, spValue = value, spOp = op \<rparr>) query key) (0, config))"

definition shardPut :: "(ShardPutAppendArgs \<Rightarrow> nat \<Rightarrow> string \<Rightarrow> ShardErr option) \<Rightarrow> (nat \<Rightarrow> Config) \<Rightarrow> Config \<Rightarrow> string \<Rightarrow> string \<Rightarrow>
    Config option option" where
  "shardPut calls query config key value = shardPutAppend calls query config key value ''Put''"

definition shardAppend :: "(ShardPutAppendArgs \<Rightarrow> nat \<Rightarrow> string \<Rightarrow> ShardErr option) \<Rightarrow> (nat \<Rightarrow> Config) \<Rightarrow> Config \<Rightarrow> string \<Rightarrow> string \<Rightarrow>
    Config option option" where
  "shardAppend calls query config key value = shardPutAppend calls query config key value ''Append''"

text \<open>The handlers \<open>Get\<close> and \<open>PutAppend\<close>, whose bodies are empty.\<close>

definition shardHandler :: "'a \<Rightarrow> 'r \<Rightarrow> 'r" where
  "shardHandler args reply = reply"

section \<open>Facts\<close>

lemma key2shard_bounds: "0 \<le> key2shard key \<and> key2shard key < int NShards"
  by (simp add: key2shard_def)

text \<open>Configurations as Go has them: the array has its length.\<close>

definition wfConfig :: "Config \<Rightarrow> bool" where
  "wfConfig config \<longleftrightarrow> length (Shards config) = NShards"

lemma shardBody_no_crash: "wfConfig config \<Longrightarrow> shardBody err good calls query key (k, config) \<noteq> Crash"
  using key2shard_bounds[of key] by (auto simp: shardBody_def wfConfig_def idx_def split: option.splits)

lemma groupLoop_good: "groupLoop err good call servers = Some reply \<Longrightarrow> err reply \<in> good \<and> (\<exists>s \<in> set servers. call s = Some reply)"
  by (induction servers) (auto split: option.splits if_splits)

text \<open>If in some round all the servers of the group that the clerk believes to own the shard accept, the loop has returned by then, without
  a panic, and with a reply that a server gave.\<close>

lemma runLoop_upto:
  assumes "\<And>j. j < n \<Longrightarrow> (\<exists>r. body (f j) = Halt r \<and> Q r) \<or> body (f j) = Go (f (Suc j))" "\<exists>r. body (f n) = Halt r \<and> Q r" "k \<le> n"
  shows "\<exists>r. runLoop body (f k) = Some (Some r) \<and> Q r"
  using assms(3)
proof (induction "n - k" arbitrary: k)
  case 0
  then show ?case using assms(2) by (auto simp: runLoop.simps)
next
  case (Suc m)
  then have "k < n" "m = n - Suc k" by auto
  then show ?case using assms(1)[of k] Suc.hyps(1)[of "Suc k"] by (auto simp: runLoop.simps)
qed

definition configAt :: "(nat \<Rightarrow> Config) \<Rightarrow> Config \<Rightarrow> nat \<Rightarrow> Config" where
  "configAt query config k = (if k = 0 then config else query (k - 1))"

lemma shard_returns:
  assumes "wfConfig config" "\<And>k. wfConfig (query k)" "Groups (configAt query config n) (Shards (configAt query config n) ! nat (key2shard key)) = Some servers"
    "servers \<noteq> []" "\<And>s. s \<in> set servers \<Longrightarrow> \<exists>reply. calls n s = Some reply \<and> err reply \<in> good"
  shows "\<exists>reply c. runLoop (shardBody err good calls query key) (0, config) = Some (Some (reply, c)) \<and> err reply \<in> good"
proof -
  let ?f = "\<lambda>k. (k, configAt query config k)"
  let ?b = "shardBody err good calls query key"
  have wf: "wfConfig (configAt query config k)" for k using assms(1,2) by (simp add: configAt_def)
  have nxt: "configAt query config (Suc k) = query k" for k by (simp add: configAt_def)
  have "(\<exists>r. ?b (?f j) = Halt r \<and> err (fst r) \<in> good) \<or> ?b (?f j) = Go (?f (Suc j))" for j
    using shardBody_no_crash[OF wf, of err good calls query key j j] nxt
    by (auto simp: shardBody_def split: option.splits dest: groupLoop_good)
  moreover have "\<exists>r. ?b (?f n) = Halt r \<and> err (fst r) \<in> good"
  proof -
    obtain s rest where s: "servers = s # rest" using assms(4) by (cases servers) auto
    obtain reply where reply: "calls n s = Some reply" "err reply \<in> good" using assms(5)[of s] s by auto
    have "idx (Shards (configAt query config n)) (key2shard key) = Some (Shards (configAt query config n) ! nat (key2shard key))"
      using wf[of n] key2shard_bounds[of key] by (simp add: idx_def wfConfig_def)
    then show ?thesis using assms(3) s reply by (auto simp: shardBody_def)
  qed
  ultimately have "\<exists>r. runLoop ?b (?f 0) = Some (Some r) \<and> err (fst r) \<in> good" by (intro runLoop_upto[where n = n]) auto
  then show ?thesis by (auto simp: configAt_def)
qed

text \<open>With the empty handlers of this repository a query returns the empty configuration, and no operation of the sharded service
  ever returns.\<close>

lemma empty_query: "0 < n \<Longrightarrow> ctrlQuery (\<lambda>args k i. Some (ctrlHandler args zeroQueryReply)) n num = Some zeroConfig"
  by (auto simp: ctrlQuery_def ctrlLoop_def runLoop.simps ctrlRound_def ctrlHandler_def zeroQueryReply_def upt_conv_Cons)

lemma empty_groupLoop: "groupLoop sgErr {OK, ErrNoKey} (\<lambda>s. Some (shardHandler args zeroGetReply)) servers = None"
  by (induction servers) (simp_all add: shardHandler_def zeroGetReply_def)

lemma empty_get_never_returns:
  assumes "wfConfig config" "\<And>k. wfConfig (query k)"
  shows "shardGet (\<lambda>k s. Some (shardHandler key zeroGetReply)) query config key = None"
proof -
  have "\<exists>s'. shardBody sgErr {OK, ErrNoKey} (\<lambda>k s. Some (shardHandler key zeroGetReply)) query key s = Go s' \<and> wfConfig (snd s')"
    if w: "wfConfig (snd s)" for s
  proof -
    obtain k c where s: "s = (k, c)" by (cases s) auto
    then obtain gid where "idx (Shards c) (key2shard key) = Some gid"
      using w key2shard_bounds[of key] by (auto simp: wfConfig_def idx_def)
    then show ?thesis using assms(2) by (auto simp: s shardBody_def empty_groupLoop split: option.splits)
  qed
  then have "runLoop (shardBody sgErr {OK, ErrNoKey} (\<lambda>k s. Some (shardHandler key zeroGetReply)) query key) (0, config) = None"
    using assms(1) by (intro runLoop_diverges[where I = "\<lambda>s. wfConfig (snd s)"]) simp_all
  then show ?thesis by (simp add: shardGet_def)
qed

end
