(* ===== verification/Spec2Isabelle.thy ===== *)
theory Spec2Isabelle
  imports Raft_Faults Kv_SrvProps Kv_RaftProps Porcupine_Visual Mr_Props Labgob Labrpc_Props Shard_Client
begin

text \<open>
  Verification of the 6.5840 distributed systems repository (paths are below \<^verbatim>\<open>src/src\<close>).

  \<^bold>\<open>The program.\<close>  The repository has five systems and the tools they stand on.
    \<^item> \<^verbatim>\<open>mr\<close>: a MapReduce coordinator gives jobs to workers, which run an application of \<^verbatim>\<open>mrapps\<close> on files of one directory;
      \<^verbatim>\<open>main/mrsequential.go\<close> is the sequential reference.
    \<^item> \<^verbatim>\<open>kvsrv\<close>: a key/value server with clerks that retransmit until they get a reply.
    \<^item> \<^verbatim>\<open>raft\<close>: peers that elect a leader and replicate a log, with stable storage and snapshots.
    \<^item> \<^verbatim>\<open>kvraft\<close>: the key/value service as a state machine on the Raft log, with clerks that look for the leader.
    \<^item> \<^verbatim>\<open>shardctrler\<close> and \<^verbatim>\<open>shardkv\<close>: the clerks of a sharded service, whose servers are still empty.
    \<^item> \<^verbatim>\<open>labrpc\<close> and \<^verbatim>\<open>labgob\<close>: the simulated network and the checked encoder that carry all calls but those of \<^verbatim>\<open>mr\<close>.
    \<^item> \<^verbatim>\<open>models/kv.go\<close> and \<^verbatim>\<open>porcupine\<close>: the sequential specification of a key, and the checker by which the tests decide
      whether a recorded history is linearizable.

  \<^bold>\<open>How code becomes definitions.\<close>  \<open>Go_Prelude\<close> has the conventions.  A struct is a record, a critical section or a
  handler a function on it.  An expression that panics (an index, a slice expression, a nil map or pointer) has the value
  \<open>None\<close>, and so has the handler that contains it.  A loop is a recursive function with a termination proof, or
  \<open>runLoop\<close> of its body where it need not end: \<open>None\<close> is a loop that does not end, \<open>Some None\<close> one that panics.  Goroutines are
  the steps of a transition system, one step per critical section.  Random numbers, clocks and what the environment answers
  are arguments.  Code outside the repository that is more than a basic operation is a parameter with named hypotheses: the
  codecs of \<^verbatim>\<open>encoding/gob\<close> (\<open>GoRt\<close>, \<open>kvCodec\<close>) and \<^verbatim>\<open>encoding/json\<close>, the sorting of \<^verbatim>\<open>sort\<close> (\<open>sortsEntries\<close>),
  \<^verbatim>\<open>unicode.IsLetter\<close> and \<^verbatim>\<open>unicode.IsUpper\<close>.  The witnesses instantiate them with concrete functions.

  \<^bold>\<open>Raft\<close> (\<^verbatim>\<open>raft/raft.go\<close>, \<^verbatim>\<open>raft/raftStruct.go\<close>, \<^verbatim>\<open>raft/persister.go\<close>).
    \<^item> \<open>Raft_State\<close>: the struct \<open>Raft\<close>, its log, \<open>persist\<close>, \<open>readPersist\<close>, \<open>Start\<close>, \<open>Snapshot\<close>, \<open>Make\<close>.
    \<^item> \<open>Raft_Rpc\<close>: the handlers \<open>RequestVote\<close>, \<open>RequestHeartBeat\<close>, \<open>RequestSendLog\<close>, \<open>RequestInstallSnapShot\<close>.
    \<^item> \<open>Raft_Leader\<close>: replication rounds and their replies, the commit loop, elections.
    \<^item> \<open>Raft_Apply\<close>: the delivery loop \<open>applyTicket\<close> and the goroutine that delivers a snapshot, with \<open>applySeqMu\<close>.
    \<^item> \<open>Raft_Sys\<close>: a cluster of \<open>n\<close> peers.  The network is the set of all messages sent, of which a step reads any one; this
      allows every loss, delay, repetition and reordering of \<^verbatim>\<open>labrpc\<close>, and more.  A peer may crash at every step.
    \<^item> \<open>Raft_Spec\<close>: the protocol without messages, timers, snapshots and storage, its invariant \<open>aInv\<close>, and the locale
      \<open>quorums\<close> in which the safety of commitment is proved; \<open>maj\<close> interprets it for majorities of \<open>n\<close> peers, which is what
      the code counts.
    \<^item> \<open>Raft_Refine\<close>, \<open>Raft_Sim\<close>, \<open>Raft_SimLog\<close>, \<open>Raft_SimLeader\<close>, \<open>Raft_Safety\<close>: a forward simulation from the
      cluster to the protocol, operation by operation and then for the whole system.
    \<^item> \<open>Raft_Props\<close> has C1 to C8: services never receive different commands at an index, at most one leader in a term, log
      matching, leader completeness, agreement of committed entries, the refinement itself, restart from stable storage, and
      terms and votes that only move forward.  \<open>Raft_Faults\<close> has C9 to C11: the request handlers never panic; the delivery
      loop can keep \<open>applySeqMu\<close> for ever; and when the commit loop panics, with a run in which it does.  \<open>Raft_Demo\<close> has the
      run of two peers that the witnesses use; \<open>Raft_Runs\<close> performs lists of actions on a cluster of three peers, and has the
      run that leads to the panic: a peer installs a snapshot, becomes leader before its goroutine has delivered it, and gets
      the reply to an append.

  \<^bold>\<open>Key/value server\<close> (\<^verbatim>\<open>kvsrv/common.go\<close>, \<^verbatim>\<open>kvsrv/server.go\<close>, \<^verbatim>\<open>kvsrv/client.go\<close>, \<^verbatim>\<open>models/kv.go\<close>).
    \<^item> \<open>Models_Kv\<close>: the specification of a key and the partition of a history by key.
    \<^item> \<open>Kv_Srv\<close>: the handlers \<open>Get\<close>, \<open>Put\<close>, \<open>Append\<close>, the table of sequence numbers, and the clerk's loops.
    \<^item> \<open>Kv_SrvSys\<close>: the server, its clerks and an unreliable network as a transition system with its invariant;
      \<open>Kv_SrvLin\<close>: the recorded history and its linearization points.
    \<^item> \<open>Kv_SrvProps\<close> has C12 to C15: linearizability, writes take effect exactly once and in order, the reply of a
      retransmitted append that breaks the model the test uses, and the clerk's loop, with the server handling other requests
      between its attempts and refusing the ones that are ahead.

  \<^bold>\<open>Replicated key/value service\<close> (\<^verbatim>\<open>kvraft/common.go\<close>, \<^verbatim>\<open>kvraft/server.go\<close>, \<^verbatim>\<open>kvraft/client.go\<close>).
    \<^item> \<open>Kv_Common\<close> and \<open>Kv_Raft\<close>: requests and replies, the server with its maps and channels, \<open>HandlerClientRequest\<close>, the apply
      loop \<open>ApplyTicket\<close>, snapshots, and the clerk.
    \<^item> \<open>Kv_RaftSM\<close>: the part of a server that the log determines, and the invariant \<open>kvOK\<close>.
    \<^item> \<open>Raft_Service\<close>: what Raft and a service on it owe each other, as the locales \<open>raft_service\<close> and
      \<open>raft_snapshot_service\<close>; \<open>Kv_RaftProps\<close> interprets both on this server as \<open>kvsvc\<close> and \<open>kvsnap\<close>.
    \<^item> \<open>Kv_RaftProps\<close> has C16 to C22: replicas on a reachable cluster agree, each request counts once, a snapshot stands for the
      commands before it, what a bad snapshot does, the apply loop never blocks, a request that is acknowledged for another
      client's command, and the clerk finds a server that answers.

  \<^bold>\<open>Linearizability checker\<close> (\<^verbatim>\<open>porcupine/bitset.go\<close>, \<^verbatim>\<open>model.go\<close>, \<^verbatim>\<open>checker.go\<close>, \<^verbatim>\<open>porcupine.go\<close>,
  \<^verbatim>\<open>visualization.go\<close>).
    \<^item> \<open>Porcupine_Model\<close>: models, operations, and what linearizable means.
    \<^item> \<open>Porcupine_Bitset\<close>: bitsets of 64-bit words; the locale \<open>finite_bits\<close> is a set of small numbers, interpreted on them.
    \<^item> \<open>Porcupine_Checker\<close>: entries, the linked list on a heap of nodes, the cache, the search \<open>checkSingle\<close>, and
      \<open>checkParallel\<close> as a system of one goroutine per part and the function that collects their results.  A schedule is a list
      of events: a goroutine takes a step of its search, a result is taken from the channel, the timer fires; an event that is
      not possible has no effect, and the value is \<open>None\<close> when the check has not returned at the end of the schedule.
    \<^item> \<open>Porcupine_Links\<close>, \<open>Porcupine_Search\<close>, \<open>Porcupine_DFS\<close>, \<open>Porcupine_Order\<close>, \<open>Porcupine_Decide\<close>: the list operations, the
      configurations of the search, its invariant and its end, and the way from orders of entries to orders of operations.
    \<^item> \<open>Porcupine_Props\<close> has C23 to C27 and C29: the checker decides linearizability under every schedule, and returns under every one
      that keeps running every goroutine (\<open>fair\<close> in \<open>Go_Prelude\<close>); it is sound under a timeout, its search ends with a linearization, it accepts the histories of \<^verbatim>\<open>kvsrv\<close>, it blocks on an empty history, and bitsets are sets; a
      lemma says that unlifting undoes lifting.
    \<^item> \<open>Porcupine_Visual\<close>: \<open>computeVisualizationData\<close>, the data by which a check is displayed.  C28: it never panics on the
      result of a check, and shows the operations, the legal partial linearizations and the longest one of each operation.

  \<^bold>\<open>MapReduce\<close> (\<^verbatim>\<open>mr/rpc.go\<close>, \<^verbatim>\<open>mr/coordinator.go\<close>, \<^verbatim>\<open>mr/worker.go\<close>, \<^verbatim>\<open>main/mrsequential.go\<close>, \<^verbatim>\<open>mrapps\<close>).
    \<^item> \<open>Mr_Coordinator\<close>: the job table, \<open>GetJob\<close>, \<open>ReportJobResult\<close>, timers, \<open>Done\<close>.  \<open>Mr_Worker\<close>: each step of a map or reduce
      job on the files of the directory, and the sequential program.  \<open>Mr_Apps\<close>: word count, indexer, crash, nocrash and early
      exit; the locale \<open>order_free\<close> states that a reduce function ignores the order of the values, and is interpreted on each
      of them.
    \<^item> \<open>Mr_Data\<close>, \<open>Mr_Sys\<close>, \<open>Mr_Output\<close>: facts on files and groups; the system of a coordinator, its timers and any number of
      workers that may stop anywhere, whose calls may fail before or after the handler has run, and a coordinator that stops when
      a handler panics; the invariant on the directory.  \<open>Mr_Demo\<close> has concrete runs, with a small JSON-like decoder.
    \<^item> \<open>Mr_Props\<close> has C30 to C37: the output is that of the sequential program, phases, which handlers can panic, no job
      gets stuck, the run without input, a report of an unknown job, an old timer that disturbs a new assignment, and the partition of pairs.  C30 assumes
      at least one reduce job, that no file at the start has a name that begins with \<^verbatim>\<open>mr-\<close>, that the decoder reads what the encoder writes and
      reads no pair from an output file (\<open>quietOutputs\<close>); \<open>mr_null_word\<close> shows that the last one is needed.

  \<^bold>\<open>Network and encoder\<close> (\<^verbatim>\<open>labrpc/labrpc.go\<close>, \<^verbatim>\<open>labgob/labgob.go\<close>).
    \<^item> \<open>Labrpc\<close>: client ends, the network and its faults, servers, services and dispatch, \<open>processReq\<close> in two parts.
      \<open>Labrpc_Sys\<close>: calls as interleaved goroutines.  \<open>Labrpc_Kv\<close>: the server of \<^verbatim>\<open>kvsrv\<close> as a service on this network, and a
      simulation by the system of \<open>Kv_SrvSys\<close>.  \<open>Labrpc_Demo\<close>: a codec and a run.  \<open>String_Codec\<close>: strings in that codec.
    \<^item> \<open>Labrpc_Props\<close> has C38 and C39: a handler runs at most once per call and exactly once for a call with a reply; the
      key/value server on this network is linearizable.
    \<^item> \<open>Labgob\<close> has C40: the check of types ends and visits every type once.

  \<^bold>\<open>Sharded service\<close> (\<^verbatim>\<open>shardctrler\<close>, \<^verbatim>\<open>shardkv\<close>).  \<open>Shard_Client\<close>: the types, \<open>key2shard\<close>, the clerks' loops and the
  empty handlers; a call that is answered returns, and against the empty servers \<open>Get\<close> never does.

  \<^bold>\<open>Bounds.\<close>  Go's \<open>int\<close> and \<open>int64\<close> are unbounded here where they count terms, log indices, sequence numbers and calls, of
  which no run reaches \<open>2 ^ 63\<close>.  The widths are kept where the code depends on them: the words of a bitset and its hash, and
  the 32-bit hash of a key and its mask.  Client identifiers are drawn at random from \<open>2 ^ 62\<close> numbers; the systems of clerks have
  distinct ones.  \<open>checkType\<close> has fuel for its depth; C40 shows that one more than the number of types is always enough.
  \<open>natDigits\<close>, the loops over sorted pairs, the commit loop, the search for the next index and the collection of entries have
  termination proofs.  The search of the checker and the sharded clerks' loops are under \<open>runLoop\<close>, with theorems that they return;
  that \<open>checkParallel\<close> returns is a statement about fair schedules.
  The clerk's loop of \<^verbatim>\<open>kvsrv\<close> runs over the list of what happens to its attempts, that of \<^verbatim>\<open>kvraft\<close> has fuel for their
  number, since an unreachable server is asked for ever; C15 and C22 say when they give a result.

  \<^bold>\<open>Not modelled.\<close>
    \<^item> The test harnesses \<^verbatim>\<open>config.go\<close> of the five systems and the tests: they set up processes and clocks and judge outcomes
      with the testing package.
    \<^item> The output of \<^verbatim>\<open>porcupine/visualization.go\<close>: an HTML page, most of it a template; its data is modelled.
    \<^item> The programs of \<^verbatim>\<open>main\<close> other than the sequential MapReduce: they start processes and load plugins, and some
      belong to packages that are not in the repository.
    \<^item> \<^verbatim>\<open>mrapps/mtiming.go\<close>, \<^verbatim>\<open>rtiming.go\<close>, \<^verbatim>\<open>jobcount.go\<close>: they measure parallelism with process ids, clocks and files of
      the operating system.  \<^verbatim>\<open>raft/util.go\<close> prints.
    \<^item> The socket server and client of \<^verbatim>\<open>mr\<close>, debug output everywhere, and the lengths of delays: a timer may fire at any time.
    \<^item> The branch of \<open>ClientEnd.Call\<close> for a network that is being destroyed: the call then fails, as one without a reply does.
    \<^item> The memory model of Go: a critical section is atomic, and reads outside of one are steps of their own where the code
      has them.  The entries of a replication request are a copy, although the code shares the array until the request is
      encoded.
\<close>

end
